(* ===== verification/Red_Prelude.thy ===== *)
theory Red_Prelude
  imports Main "HOL-Library.Sublist" "HOL-Library.While_Combinator"
begin

text \<open>
  The shared vocabulary of the development: Rust's byte and string primitives as the crates of
  RED use them, and the generic facts the component theories rest on.

  A Rust \<^verbatim>\<open>&str\<close>, \<^verbatim>\<open>String\<close>, \<^verbatim>\<open>Arc<str>\<close> or \<^verbatim>\<open>&[u8]\<close> is a \<^typ>\<open>string\<close>: a \<^typ>\<open>char\<close> of
  HOL is one byte, so a string is its UTF-8 encoding and every offset is a byte offset, as in the
  source. A \<^verbatim>\<open>usize\<close> that indexes or measures a string is a \<^typ>\<open>nat\<close>: Rust bounds every allocation
  by \<^verbatim>\<open>isize::MAX\<close> bytes, so no sum of an offset and a small constant wraps.
  The methods of \<^verbatim>\<open>str\<close> that work per Unicode scalar value (\<^verbatim>\<open>trim\<close>, \<^verbatim>\<open>split_whitespace\<close>) are
  modelled on the UTF-8 encodings of the \<^verbatim>\<open>White_Space\<close> characters, which is exact on valid UTF-8.
\<close>

named_theorems byte_class \<open>definitions of the byte classes\<close>
named_theorems scan_bounds \<open>where a scanner stops, relative to where it starts\<close>

type_synonym bytes = string

section \<open>Bytes\<close>

abbreviation byte :: "char \<Rightarrow> nat" where
  "byte c \<equiv> of_char c"

definition is_ascii_whitespace :: "char \<Rightarrow> bool" where
  [byte_class]: "is_ascii_whitespace c \<longleftrightarrow>
     c = CHR 0x20 \<or> c = CHR 0x09 \<or> c = CHR 0x0A \<or> c = CHR 0x0C \<or> c = CHR 0x0D"

definition is_ascii_upper :: "char \<Rightarrow> bool" where
  [byte_class]: "is_ascii_upper c \<longleftrightarrow> 65 \<le> byte c \<and> byte c \<le> 90"

definition is_ascii_lower :: "char \<Rightarrow> bool" where
  [byte_class]: "is_ascii_lower c \<longleftrightarrow> 97 \<le> byte c \<and> byte c \<le> 122"

definition is_ascii_alphabetic :: "char \<Rightarrow> bool" where
  [byte_class]: "is_ascii_alphabetic c \<longleftrightarrow> is_ascii_upper c \<or> is_ascii_lower c"

definition is_ascii_digit :: "char \<Rightarrow> bool" where
  [byte_class]: "is_ascii_digit c \<longleftrightarrow> 48 \<le> byte c \<and> byte c \<le> 57"

definition is_ascii_alphanumeric :: "char \<Rightarrow> bool" where
  [byte_class]: "is_ascii_alphanumeric c \<longleftrightarrow> is_ascii_alphabetic c \<or> is_ascii_digit c"

definition is_ascii_hexdigit :: "char \<Rightarrow> bool" where
  [byte_class]: "is_ascii_hexdigit c \<longleftrightarrow>
     is_ascii_digit c \<or> (65 \<le> byte c \<and> byte c \<le> 70) \<or> (97 \<le> byte c \<and> byte c \<le> 102)"

definition is_ascii :: "char \<Rightarrow> bool" where
  [byte_class]: "is_ascii c \<longleftrightarrow> byte c < 128"

definition is_cont_byte :: "char \<Rightarrow> bool" where
  \<comment> \<open>a UTF-8 continuation byte\<close>
  [byte_class]: "is_cont_byte c \<longleftrightarrow> 128 \<le> byte c \<and> byte c < 192"

definition lower_byte :: "char \<Rightarrow> char" where
  "lower_byte c = (if is_ascii_upper c then char_of (byte c + 32) else c)"

definition to_ascii_lowercase :: "string \<Rightarrow> string" where
  "to_ascii_lowercase s = map lower_byte s"

definition eq_ignore_ascii_case :: "string \<Rightarrow> string \<Rightarrow> bool" where
  "eq_ignore_ascii_case s t \<longleftrightarrow> to_ascii_lowercase s = to_ascii_lowercase t"

lemma byte_char_of [simp]: "n < 256 \<Longrightarrow> byte (char_of n) = n"
  by (simp add: of_char_of)

lemma byte_eq_iff: "byte c = byte d \<longleftrightarrow> c = d"
  by (simp add: of_char_eq_iff)

lemma byte_lower_byte:
  "byte (lower_byte c) = (if is_ascii_upper c then byte c + 32 else byte c)"
  by (simp add: lower_byte_def is_ascii_upper_def)

lemma is_ascii_upper_lower_byte [simp]: "\<not> is_ascii_upper (lower_byte c)"
  by (simp add: is_ascii_upper_def byte_lower_byte)

lemma lower_byte_idem [simp]: "lower_byte (lower_byte c) = lower_byte c"
  by (simp add: lower_byte_def [of "lower_byte c"])

lemma lower_byte_eq_iff:
  "\<not> is_ascii_lower d \<Longrightarrow> \<not> is_ascii_upper d \<Longrightarrow> lower_byte c = d \<longleftrightarrow> c = d"
proof (cases "is_ascii_upper c")
  case True
  then have "is_ascii_lower (lower_byte c)"
    by (simp add: is_ascii_lower_def is_ascii_upper_def byte_lower_byte)
  moreover assume "\<not> is_ascii_lower d" "\<not> is_ascii_upper d"
  ultimately show ?thesis using True by auto
next
  case False
  then show ?thesis by (simp add: lower_byte_def)
qed

lemma alphabetic_lower_byte [simp]: "is_ascii_alphabetic (lower_byte c) = is_ascii_alphabetic c"
  by (auto simp: byte_class byte_lower_byte)

lemma digit_lower_byte [simp]: "is_ascii_digit (lower_byte c) = is_ascii_digit c"
  by (auto simp: byte_class byte_lower_byte)

lemma alphanumeric_lower_byte [simp]:
  "is_ascii_alphanumeric (lower_byte c) = is_ascii_alphanumeric c"
  by (simp add: is_ascii_alphanumeric_def)

text \<open>Lower-casing of ASCII letters by rewriting, for statements over concrete words.\<close>

lemma lower_byte_letters [simp]:
  "lower_byte CHR ''A'' = CHR ''a''" "lower_byte CHR ''B'' = CHR ''b''" "lower_byte CHR ''C'' = CHR ''c''"
  "lower_byte CHR ''D'' = CHR ''d''" "lower_byte CHR ''E'' = CHR ''e''" "lower_byte CHR ''F'' = CHR ''f''"
  "lower_byte CHR ''G'' = CHR ''g''" "lower_byte CHR ''H'' = CHR ''h''" "lower_byte CHR ''I'' = CHR ''i''"
  "lower_byte CHR ''J'' = CHR ''j''" "lower_byte CHR ''K'' = CHR ''k''" "lower_byte CHR ''L'' = CHR ''l''"
  "lower_byte CHR ''M'' = CHR ''m''" "lower_byte CHR ''N'' = CHR ''n''" "lower_byte CHR ''O'' = CHR ''o''"
  "lower_byte CHR ''P'' = CHR ''p''" "lower_byte CHR ''Q'' = CHR ''q''" "lower_byte CHR ''R'' = CHR ''r''"
  "lower_byte CHR ''S'' = CHR ''s''" "lower_byte CHR ''T'' = CHR ''t''" "lower_byte CHR ''U'' = CHR ''u''"
  "lower_byte CHR ''V'' = CHR ''v''" "lower_byte CHR ''W'' = CHR ''w''" "lower_byte CHR ''X'' = CHR ''x''"
  "lower_byte CHR ''Y'' = CHR ''y''" "lower_byte CHR ''Z'' = CHR ''z''"
  "lower_byte CHR ''a'' = CHR ''a''" "lower_byte CHR ''b'' = CHR ''b''" "lower_byte CHR ''c'' = CHR ''c''"
  "lower_byte CHR ''d'' = CHR ''d''" "lower_byte CHR ''e'' = CHR ''e''" "lower_byte CHR ''f'' = CHR ''f''"
  "lower_byte CHR ''g'' = CHR ''g''" "lower_byte CHR ''h'' = CHR ''h''" "lower_byte CHR ''i'' = CHR ''i''"
  "lower_byte CHR ''j'' = CHR ''j''" "lower_byte CHR ''k'' = CHR ''k''" "lower_byte CHR ''l'' = CHR ''l''"
  "lower_byte CHR ''m'' = CHR ''m''" "lower_byte CHR ''n'' = CHR ''n''" "lower_byte CHR ''o'' = CHR ''o''"
  "lower_byte CHR ''p'' = CHR ''p''" "lower_byte CHR ''q'' = CHR ''q''" "lower_byte CHR ''r'' = CHR ''r''"
  "lower_byte CHR ''s'' = CHR ''s''" "lower_byte CHR ''t'' = CHR ''t''" "lower_byte CHR ''u'' = CHR ''u''"
  "lower_byte CHR ''v'' = CHR ''v''" "lower_byte CHR ''w'' = CHR ''w''" "lower_byte CHR ''x'' = CHR ''x''"
  "lower_byte CHR ''y'' = CHR ''y''" "lower_byte CHR ''z'' = CHR ''z''"
  "lower_byte CHR ''_'' = CHR ''_''" "lower_byte CHR '' '' = CHR '' ''"
  by (simp_all add: lower_byte_def is_ascii_upper_def char_of_def bit_0)

lemma length_to_ascii_lowercase [simp]: "length (to_ascii_lowercase s) = length s"
  by (simp add: to_ascii_lowercase_def)

lemma to_ascii_lowercase_simps [simp]:
  "to_ascii_lowercase [] = []"
  "to_ascii_lowercase (c # s) = lower_byte c # to_ascii_lowercase s"
  "to_ascii_lowercase (s @ t) = to_ascii_lowercase s @ to_ascii_lowercase t"
  by (simp_all add: to_ascii_lowercase_def)

lemma to_ascii_lowercase_idem [simp]:
  "to_ascii_lowercase (to_ascii_lowercase s) = to_ascii_lowercase s"
  by (simp add: to_ascii_lowercase_def)

lemma to_ascii_lowercase_eq_Nil_iff [simp]: "to_ascii_lowercase s = [] \<longleftrightarrow> s = []"
  by (simp add: to_ascii_lowercase_def)

lemma nth_to_ascii_lowercase [simp]:
  "i < length s \<Longrightarrow> to_ascii_lowercase s ! i = lower_byte (s ! i)"
  by (simp add: to_ascii_lowercase_def)

lemma take_to_ascii_lowercase:
  "take n (to_ascii_lowercase s) = to_ascii_lowercase (take n s)"
  by (simp add: to_ascii_lowercase_def take_map)

lemma drop_to_ascii_lowercase:
  "drop n (to_ascii_lowercase s) = to_ascii_lowercase (drop n s)"
  by (simp add: to_ascii_lowercase_def drop_map)

section \<open>Slices and scans\<close>

text \<open>\<^verbatim>\<open>&b[i..j]\<close>, for offsets the caller has established to be in range.\<close>

definition slice :: "nat \<Rightarrow> nat \<Rightarrow> 'a list \<Rightarrow> 'a list" where
  "slice i j b = take (j - i) (drop i b)"

lemma length_slice [simp]: "length (slice i j b) = min (j - i) (length b - i)"
  by (simp add: slice_def min.commute)

lemma nth_slice: "k < j - i \<Longrightarrow> j \<le> length b \<Longrightarrow> slice i j b ! k = b ! (i + k)"
  by (simp add: slice_def)

lemma slice_full [simp]: "slice 0 (length b) b = b"
  by (simp add: slice_def)

lemma slice_empty [simp]: "j \<le> i \<Longrightarrow> slice i j b = []"
  by (simp add: slice_def)

lemma slice_append: "i \<le> j \<Longrightarrow> j \<le> k \<Longrightarrow> slice i j b @ slice j k b = slice i k b"
proof -
  assume le: "i \<le> j" "j \<le> k"
  have "take (k - i) (drop i b) = take (j - i + (k - j)) (drop i b)"
    using le by simp
  also have "\<dots> = take (j - i) (drop i b) @ take (k - j) (drop (j - i) (drop i b))"
    by (simp only: take_add)
  finally show ?thesis
    using le by (simp add: slice_def)
qed

lemma set_slice: "set (slice i j b) \<subseteq> set b"
  by (auto simp: slice_def dest: in_set_takeD in_set_dropD)

text \<open>
  The loop \<^verbatim>\<open>while j < b.len() && p(b[j]) { j += 1 }\<close>, which the scanners use throughout. Its
  closed form over \<^const>\<open>takeWhile\<close> is what the proofs use.
\<close>

function skip_while :: "(char \<Rightarrow> bool) \<Rightarrow> bytes \<Rightarrow> nat \<Rightarrow> nat" where
  "skip_while p b j = (if j < length b \<and> p (b ! j) then skip_while p b (Suc j) else j)"
  by pat_completeness auto
termination
  by (relation "measure (\<lambda>(p, b, j). length b - j)") auto

declare skip_while.simps [simp del]

lemma skip_while_takeWhile: "skip_while p b j = j + length (takeWhile p (drop j b))"
proof (induction p b j rule: skip_while.induct)
  case (1 p b j)
  show ?case
  proof (cases "j < length b")
    case True
    then have "drop j b = b ! j # drop (Suc j) b"
      by (simp add: Cons_nth_drop_Suc)
    with True "1.IH" show ?thesis
      by (subst skip_while.simps) auto
  next
    case False
    then show ?thesis by (subst skip_while.simps) simp
  qed
qed

lemma skip_while_ge [simp, scan_bounds]: "j \<le> skip_while p b j"
  by (simp add: skip_while_takeWhile)

lemma skip_while_le [scan_bounds]: "j \<le> length b \<Longrightarrow> skip_while p b j \<le> length b"
  using length_takeWhile_le [of p "drop j b"] by (simp add: skip_while_takeWhile)

lemma skip_while_gt [scan_bounds]:
  "j < length b \<Longrightarrow> p (b ! j) \<Longrightarrow> j < skip_while p b j"
  by (subst skip_while.simps) (simp add: Suc_le_lessD)

lemma skip_while_stop: "skip_while p b j < length b \<Longrightarrow> \<not> p (b ! skip_while p b j)"
proof (induction p b j rule: skip_while.induct)
  case (1 p b j)
  show ?case
  proof (cases "j < length b \<and> p (b ! j)")
    case True
    then have "skip_while p b j = skip_while p b (Suc j)"
      by (subst skip_while.simps) simp
    with True "1.IH" "1.prems" show ?thesis by simp
  next
    case False
    then have "skip_while p b j = j"
      by (subst skip_while.simps) auto
    with False "1.prems" show ?thesis by simp
  qed
qed

lemma skip_while_skipped:
  "j \<le> k \<Longrightarrow> k < skip_while p b j \<Longrightarrow> k < length b \<and> p (b ! k)"
proof -
  assume jk: "j \<le> k" "k < skip_while p b j"
  then have lt: "k - j < length (takeWhile p (drop j b))"
    by (simp add: skip_while_takeWhile)
  then have "p (takeWhile p (drop j b) ! (k - j))"
    by (metis nth_mem set_takeWhileD)
  moreover from lt have "k - j < length (drop j b)"
    using length_takeWhile_le [of p "drop j b"] by linarith
  ultimately show ?thesis
    using jk lt by (simp add: takeWhile_nth)
qed

section \<open>Rust \<^verbatim>\<open>str\<close> methods\<close>

text \<open>
  The number of bytes of the Unicode white-space character at the front of \<open>s\<close>, 0 when the first
  character is not one: U+0009..U+000D, U+0020, U+0085, U+00A0, U+1680, U+2000..U+200A, U+2028,
  U+2029, U+202F, U+205F and U+3000 (\<^verbatim>\<open>char::is_whitespace\<close>).
\<close>

fun ws_prefix :: "string \<Rightarrow> nat" where
  "ws_prefix s =
     (case s of [] \<Rightarrow> 0
      | a # r \<Rightarrow>
        if (9 \<le> byte a \<and> byte a \<le> 13) \<or> byte a = 32 then 1
        else (case r of [] \<Rightarrow> 0
          | b # r2 \<Rightarrow>
            if byte a = 0xC2 \<and> (byte b = 0x85 \<or> byte b = 0xA0) then 2
            else (case r2 of [] \<Rightarrow> 0
              | c # _ \<Rightarrow>
                if (byte a = 0xE1 \<and> byte b = 0x9A \<and> byte c = 0x80)
                 \<or> (byte a = 0xE2 \<and> byte b = 0x80 \<and>
                    ((0x80 \<le> byte c \<and> byte c \<le> 0x8A) \<or> byte c = 0xA8 \<or> byte c = 0xA9
                     \<or> byte c = 0xAF))
                 \<or> (byte a = 0xE2 \<and> byte b = 0x81 \<and> byte c = 0x9F)
                 \<or> (byte a = 0xE3 \<and> byte b = 0x80 \<and> byte c = 0x80)
                then 3 else 0)))"

declare ws_prefix.simps [simp del]

lemma ws_prefix_le: "ws_prefix s \<le> length s"
  by (auto simp: ws_prefix.simps split: list.splits)

lemma ws_prefix_Nil [simp]: "ws_prefix [] = 0"
  by (simp add: ws_prefix.simps)

definition ws_suffix :: "string \<Rightarrow> nat" where
  "ws_suffix s =
     (let n = length s in
      if 1 \<le> n \<and> ws_prefix (drop (n - 1) s) = 1 then 1
      else if 2 \<le> n \<and> ws_prefix (drop (n - 2) s) = 2 then 2
      else if 3 \<le> n \<and> ws_prefix (drop (n - 3) s) = 3 then 3
      else 0)"

lemma ws_suffix_le: "ws_suffix s \<le> length s"
  by (simp add: ws_suffix_def Let_def)

function trim_start :: "string \<Rightarrow> string" where
  "trim_start s = (if ws_prefix s = 0 then s else trim_start (drop (ws_prefix s) s))"
  by pat_completeness auto
termination
proof (relation "measure length")
  fix s :: string assume "ws_prefix s \<noteq> 0"
  then show "(drop (ws_prefix s) s, s) \<in> measure length"
    using ws_prefix_le [of s] by simp
qed simp

declare trim_start.simps [simp del]

function trim_end :: "string \<Rightarrow> string" where
  "trim_end s = (if ws_suffix s = 0 then s else trim_end (take (length s - ws_suffix s) s))"
  by pat_completeness auto
termination
proof (relation "measure length")
  fix s :: string assume "ws_suffix s \<noteq> 0"
  then show "(take (length s - ws_suffix s) s, s) \<in> measure length"
    using ws_suffix_le [of s] by simp
qed simp

declare trim_end.simps [simp del]

definition trim :: "string \<Rightarrow> string" where
  "trim s = trim_end (trim_start s)"

definition trim_end_matches :: "char \<Rightarrow> string \<Rightarrow> string" where
  "trim_end_matches c s = rev (dropWhile ((=) c) (rev s))"

definition trim_start_matches :: "char \<Rightarrow> string \<Rightarrow> string" where
  "trim_start_matches c s = dropWhile ((=) c) s"

fun ws_word :: "string \<Rightarrow> string" where
  "ws_word [] = []"
| "ws_word (c # r) = (if ws_prefix (c # r) > 0 then [] else c # ws_word r)"

lemma length_ws_word: "length (ws_word s) \<le> length s"
  by (induction s) auto

lemma length_trim_start: "length (trim_start s) \<le> length s"
  by (induction s rule: trim_start.induct) (subst trim_start.simps, auto)

lemma ws_prefix_trim_start [simp]: "ws_prefix (trim_start s) = 0"
  by (induction s rule: trim_start.induct) (subst trim_start.simps, auto)

function split_whitespace :: "string \<Rightarrow> string list" where
  "split_whitespace s =
     (let t = trim_start s in
      if t = [] then [] else ws_word t # split_whitespace (drop (length (ws_word t)) t))"
  by pat_completeness auto
termination
proof (relation "measure length")
  fix s t :: string assume t: "t = trim_start s" "t \<noteq> []"
  have "ws_prefix t = 0" by (simp add: t(1))
  with t(2) have "length (ws_word t) > 0" by (cases t) auto
  moreover have "length t \<le> length s" by (simp add: t(1) length_trim_start)
  moreover have "length t > 0" using t(2) by simp
  ultimately show "(drop (length (ws_word t)) t, s) \<in> measure length"
    unfolding in_measure length_drop by linarith
qed simp

declare split_whitespace.simps [simp del]

text \<open>A printable ASCII character at the front survives every trimming.\<close>

definition graphic_head :: "string \<Rightarrow> bool" where
  "graphic_head s \<longleftrightarrow> s \<noteq> [] \<and> 33 \<le> byte (hd s) \<and> byte (hd s) < 128"

lemma ws_prefix_graphic [simp]: "graphic_head s \<Longrightarrow> ws_prefix s = 0"
  by (cases s) (auto simp: graphic_head_def ws_prefix.simps split: list.split)

lemma trim_start_graphic [simp]: "graphic_head s \<Longrightarrow> trim_start s = s"
  by (subst trim_start.simps) simp

lemma graphic_head_take: "graphic_head s \<Longrightarrow> 0 < n \<Longrightarrow> graphic_head (take n s)"
  by (cases s; cases n) (auto simp: graphic_head_def)

lemma ws_suffix_graphic: "graphic_head s \<Longrightarrow> ws_suffix s < length s"
proof -
  assume g: "graphic_head s"
  then have z: "ws_prefix s = 0" by simp
  have "k \<le> length s \<Longrightarrow> ws_prefix (drop (length s - k) s) = k \<Longrightarrow> 0 < k \<Longrightarrow> k < length s" for k
    using z by (cases "k = length s") auto
  from this [of 1] this [of 2] this [of 3] g show ?thesis
    by (auto simp: ws_suffix_def Let_def graphic_head_def)
qed

lemma trim_end_prefix: "graphic_head s \<Longrightarrow> \<exists>n > 0. n \<le> length s \<and> trim_end s = take n s"
proof (induction s rule: trim_end.induct)
  case (1 s)
  show ?case
  proof (cases "ws_suffix s = 0")
    case True
    then have "trim_end s = take (length s) s" by (subst trim_end.simps) simp
    with "1.prems" show ?thesis by (auto simp: graphic_head_def)
  next
    case False
    let ?m = "length s - ws_suffix s"
    have m: "0 < ?m" using ws_suffix_graphic [OF "1.prems"] by simp
    from "1.IH" [OF False graphic_head_take [OF "1.prems" m]]
    obtain n where n: "n > 0" "n \<le> length (take ?m s)" "trim_end (take ?m s) = take n (take ?m s)"
      by blast
    have "trim_end s = take n s"
      using False n by (subst trim_end.simps) (simp add: min_absorb1)
    with n show ?thesis by auto
  qed
qed

lemma graphic_head_trim:
  assumes "graphic_head s"
  shows "graphic_head (trim s) \<and> hd (trim s) = hd s"
proof -
  obtain n where "n > 0" "trim_end s = take n s"
    using trim_end_prefix [OF assms] by blast
  then show ?thesis
    using assms by (simp add: trim_def graphic_head_take hd_take)
qed

lemma graphic_head_trim_end_matches:
  assumes "graphic_head s" "hd s \<noteq> c"
  shows "graphic_head (trim_end_matches c s) \<and> hd (trim_end_matches c s) = hd s"
proof -
  obtain a r where s: "s = a # r" "a \<noteq> c"
    using assms by (cases s) (auto simp: graphic_head_def)
  have "dropWhile ((=) c) (rev s) = dropWhile ((=) c) (rev r) @ [a]"
    using s(2) by (simp add: s(1) dropWhile_append3)
  then show ?thesis
    using assms(1) by (simp add: trim_end_matches_def graphic_head_def s(1))
qed

text \<open>\<^verbatim>\<open>str::is_char_boundary\<close> and the checked slice \<^verbatim>\<open>str::get(i..j)\<close>.\<close>

definition is_char_boundary :: "string \<Rightarrow> nat \<Rightarrow> bool" where
  "is_char_boundary s i \<longleftrightarrow>
     i = 0 \<or> i = length s \<or> (i < length s \<and> \<not> is_cont_byte (s ! i))"

definition str_get :: "string \<Rightarrow> nat \<Rightarrow> nat \<Rightarrow> string option" where
  "str_get s i j =
     (if i \<le> j \<and> j \<le> length s \<and> is_char_boundary s i \<and> is_char_boundary s j
      then Some (slice i j s) else None)"

definition contains_char :: "char \<Rightarrow> string \<Rightarrow> bool" where
  "contains_char c s \<longleftrightarrow> c \<in> set s"

text \<open>\<^verbatim>\<open>split_once\<close> on a character: the parts around its first occurrence.\<close>

fun split_once :: "char \<Rightarrow> string \<Rightarrow> (string \<times> string) option" where
  "split_once c [] = None"
| "split_once c (x # s) =
     (if x = c then Some ([], s) else map_option (\<lambda>(a, b). (x # a, b)) (split_once c s))"

text \<open>\<^verbatim>\<open>split_once\<close> on a string pattern.\<close>

fun split_once_str :: "string \<Rightarrow> string \<Rightarrow> (string \<times> string) option" where
  "split_once_str p s =
     (if prefix p s then Some ([], drop (length p) s)
      else (case s of [] \<Rightarrow> None
        | x # r \<Rightarrow> map_option (\<lambda>(a, b). (x # a, b)) (split_once_str p r)))"

declare split_once_str.simps [simp del]

lemma split_once_str_length:
  "split_once_str p s = Some (a, b) \<Longrightarrow> length b \<le> length s"
  by (induction p s arbitrary: a b rule: split_once_str.induct)
    (subst (asm) (2) split_once_str.simps, auto split: if_splits list.splits, fastforce)

lemma split_once_length: "split_once c s = Some (a, b) \<Longrightarrow> length b < length s"
proof (induction s arbitrary: a)
  case (Cons x s)
  then show ?case by (fastforce split: if_splits)
qed simp

lemma split_once_Some: "split_once c s = Some (a, b) \<Longrightarrow> s = a @ c # b \<and> c \<notin> set a"
  by (induction s arbitrary: a) (auto split: if_splits)

lemma split_once_None: "split_once c s = None \<longleftrightarrow> c \<notin> set s"
  by (induction s) auto

lemma split_once_append [simp]: "c \<notin> set a \<Longrightarrow> split_once c (a @ c # b) = Some (a, b)"
  by (induction a) auto

text \<open>\<^verbatim>\<open>[String]::join\<close>.\<close>

fun join_with :: "string \<Rightarrow> string list \<Rightarrow> string" where
  "join_with sep [] = []"
| "join_with sep [x] = x"
| "join_with sep (x # y # r) = x @ sep @ join_with sep (y # r)"

lemma join_with_snoc:
  "join_with sep (xs @ [y]) = concat (map (\<lambda>x. x @ sep) xs) @ y"
  by (induction sep xs rule: join_with.induct) auto

section \<open>UTF-8\<close>

text \<open>The acceptance table of \<^verbatim>\<open>std::str::from_utf8\<close>.\<close>

fun valid_utf8 :: "string \<Rightarrow> bool" where
  "valid_utf8 s =
     (case s of [] \<Rightarrow> True
      | a # r \<Rightarrow>
        if byte a < 0x80 then valid_utf8 r
        else if 0xC2 \<le> byte a \<and> byte a \<le> 0xDF then
          (case r of b # r1 \<Rightarrow> is_cont_byte b \<and> valid_utf8 r1 | _ \<Rightarrow> False)
        else if 0xE0 \<le> byte a \<and> byte a \<le> 0xEF then
          (case r of b # c # r2 \<Rightarrow>
             is_cont_byte b \<and> (byte a = 0xE0 \<longrightarrow> 0xA0 \<le> byte b) \<and> (byte a = 0xED \<longrightarrow> byte b \<le> 0x9F)
             \<and> is_cont_byte c \<and> valid_utf8 r2 | _ \<Rightarrow> False)
        else if 0xF0 \<le> byte a \<and> byte a \<le> 0xF4 then
          (case r of b # c # d # r3 \<Rightarrow>
             is_cont_byte b \<and> (byte a = 0xF0 \<longrightarrow> 0x90 \<le> byte b) \<and> (byte a = 0xF4 \<longrightarrow> byte b \<le> 0x8F)
             \<and> is_cont_byte c \<and> is_cont_byte d \<and> valid_utf8 r3 | _ \<Rightarrow> False)
        else False)"

declare valid_utf8.simps [simp del]

lemma valid_utf8_Nil [simp]: "valid_utf8 []"
  by (simp add: valid_utf8.simps)

lemma valid_utf8_ascii_Cons [simp]: "is_ascii c \<Longrightarrow> valid_utf8 (c # s) = valid_utf8 s"
  by (simp add: valid_utf8.simps [of "c # s"] is_ascii_def)

lemma valid_utf8_hd: "valid_utf8 s \<Longrightarrow> s \<noteq> [] \<Longrightarrow> \<not> is_cont_byte (hd s)"
proof (cases s)
  case (Cons a r)
  moreover assume "valid_utf8 s"
  ultimately show ?thesis
    unfolding valid_utf8.simps [of s] by (auto simp: is_cont_byte_def split: if_splits)
qed simp

text \<open>A valid string splits into valid strings at a byte that is not a continuation byte.\<close>

lemma valid_utf8_append_iff:
  "ys = [] \<or> \<not> is_cont_byte (hd ys) \<Longrightarrow>
     valid_utf8 (xs @ ys) \<longleftrightarrow> valid_utf8 xs \<and> valid_utf8 ys"
proof (induction xs rule: valid_utf8.induct)
  case (1 xs)
  show ?case
  proof (cases xs)
    case Nil
    then show ?thesis by simp
  next
    case (Cons a r)
    with 1 show ?thesis
      unfolding valid_utf8.simps [of xs] valid_utf8.simps [of "xs @ ys"]
      by (auto split: list.splits simp: Cons_eq_append_conv append_eq_Cons_conv)
  qed
qed

lemma valid_utf8_append [simp, intro]:
  "valid_utf8 xs \<Longrightarrow> valid_utf8 ys \<Longrightarrow> valid_utf8 (xs @ ys)"
  using valid_utf8_append_iff [of ys xs] valid_utf8_hd [of ys] by auto

lemma valid_utf8_ascii: "list_all is_ascii s \<Longrightarrow> valid_utf8 s"
  by (induction s) auto

lemma char_boundary_ascii [intro]: "i < length b \<Longrightarrow> is_ascii (b ! i) \<Longrightarrow> is_char_boundary b i"
  by (simp add: is_char_boundary_def is_ascii_def is_cont_byte_def)

lemma char_boundary_length [simp, intro]: "is_char_boundary b (length b)"
  by (simp add: is_char_boundary_def)

lemma valid_utf8_take_drop:
  assumes "valid_utf8 b" "is_char_boundary b i" "i \<le> length b"
  shows "valid_utf8 (take i b) \<and> valid_utf8 (drop i b)"
proof (cases "i = 0")
  case False
  have "drop i b = [] \<or> \<not> is_cont_byte (hd (drop i b))"
    using assms(2,3) False by (auto simp: is_char_boundary_def hd_drop_conv_nth)
  from valid_utf8_append_iff [OF this, of "take i b"] assms(1) show ?thesis by simp
qed (use assms in simp)

lemma char_boundary_drop:
  "is_char_boundary b j \<Longrightarrow> i \<le> j \<Longrightarrow> j \<le> length b \<Longrightarrow> is_char_boundary (drop i b) (j - i)"
  by (auto simp: is_char_boundary_def)

lemma valid_utf8_slice:
  assumes "valid_utf8 b" "is_char_boundary b i" "is_char_boundary b j" "i \<le> j" "j \<le> length b"
  shows "valid_utf8 (slice i j b)"
proof -
  have "valid_utf8 (drop i b)"
    using valid_utf8_take_drop [of b i] assms by simp
  moreover have "is_char_boundary (drop i b) (j - i)"
    using assms by (simp add: char_boundary_drop)
  ultimately show ?thesis
    using valid_utf8_take_drop [of "drop i b" "j - i"] assms by (simp add: slice_def)
qed

text \<open>The offset after an ASCII byte is a character boundary.\<close>

lemma char_boundary_after_ascii:
  assumes "valid_utf8 b" "i < length b" "is_ascii (b ! i)"
  shows "is_char_boundary b (i + 1)"
proof -
  have "valid_utf8 (b ! i # drop (i + 1) b)"
    using valid_utf8_take_drop [of b i] assms char_boundary_ascii [of i b]
    by (simp add: Cons_nth_drop_Suc)
  then have "valid_utf8 (drop (i + 1) b)"
    using assms(3) by simp
  then show ?thesis
    using valid_utf8_hd [of "drop (i + 1) b"] assms(2)
    by (auto simp: is_char_boundary_def hd_drop_conv_nth)
qed

section \<open>Characters and numbers as text\<close>

text \<open>\<^verbatim>\<open>str::chars\<close>: each character as its bytes, a lead byte and the continuation bytes behind it.\<close>

function utf8_chars :: "string \<Rightarrow> string list" where
  "utf8_chars [] = []"
| "utf8_chars (c # r) = (c # takeWhile is_cont_byte r) # utf8_chars (dropWhile is_cont_byte r)"
  by pat_completeness auto
termination
  by (relation "measure length") (auto simp: less_Suc_eq_le length_dropWhile_le)

lemma concat_utf8_chars [simp]: "concat (utf8_chars s) = s"
  by (induction s rule: utf8_chars.induct) simp_all

text \<open>The decimal rendering of an unsigned number.\<close>

fun show_nat :: "nat \<Rightarrow> string" where
  "show_nat n = (if n < 10 then [char_of (48 + n)] else show_nat (n div 10) @ [char_of (48 + n mod 10)])"

declare show_nat.simps [simp del]

definition show_int :: "int \<Rightarrow> string" where
  "show_int i = (if i < 0 then CHR ''-'' # show_nat (nat (- i)) else show_nat (nat i))"

text \<open>The value of a row of digits.\<close>

definition digits_value :: "string \<Rightarrow> nat" where
  "digits_value s = foldl (\<lambda>n c. 10 * n + (byte c - 48)) 0 s"

lemma digits_value_snoc: "digits_value (s @ [c]) = 10 * digits_value s + (byte c - 48)"
  by (simp add: digits_value_def)

lemma show_nat_digits: "digits_value (show_nat n) = n \<and> list_all is_ascii_digit (show_nat n) \<and> show_nat n \<noteq> []"
proof (induction n rule: show_nat.induct)
  case (1 n)
  show ?case
  proof (cases "n < 10")
    case True
    then show ?thesis by (subst (1 2 3) show_nat.simps) (simp add: digits_value_def is_ascii_digit_def)
  next
    case False
    have d: "48 + n mod 10 < 256" "n mod 10 \<le> 9" by (simp_all add: less_Suc_eq_le [symmetric] less_trans [of _ 10])
    then have "is_ascii_digit (char_of (48 + n mod 10))" by (simp add: is_ascii_digit_def)
    with 1 False d show ?thesis
      by (subst (1 2 3) show_nat.simps) (simp add: digits_value_snoc)
  qed
qed

lemma digits_notin: "list_all is_ascii_digit s \<Longrightarrow> c \<in> set s \<Longrightarrow> 48 \<le> byte c \<and> byte c \<le> 57"
  by (auto simp: list_all_iff is_ascii_digit_def)

lemma show_nat_range: "c \<in> set (show_nat n) \<Longrightarrow> 48 \<le> byte c \<and> byte c \<le> 57"
  using show_nat_digits [of n] digits_notin by blast

text \<open>\<^verbatim>\<open>i64::from_str\<close>: digits with an optional sign, in range.\<close>

definition parse_i64 :: "string \<Rightarrow> int option" where
  "parse_i64 s =
     (let (neg, d) = (case s of c # r \<Rightarrow> if c = CHR ''-'' then (True, r) else if c = CHR ''+'' then (False, r) else (False, s)
                      | [] \<Rightarrow> (False, []));
          v = (if neg then - int (digits_value d) else int (digits_value d))
      in if d \<noteq> [] \<and> list_all is_ascii_digit d \<and> - (2 ^ 63) \<le> v \<and> v < 2 ^ 63 then Some v else None)"

lemma parse_i64_show: "- (2 ^ 63) \<le> i \<Longrightarrow> i < 2 ^ 63 \<Longrightarrow> parse_i64 (show_int i) = Some i"
proof (cases "i < 0")
  case True
  then show "- (2 ^ 63) \<le> i \<Longrightarrow> i < 2 ^ 63 \<Longrightarrow> ?thesis"
    using show_nat_digits [of "nat (- i)"] by (simp add: show_int_def parse_i64_def)
next
  case False
  obtain c r where cr: "show_nat (nat i) = c # r" using show_nat_digits [of "nat i"] by (cases "show_nat (nat i)") auto
  then have "48 \<le> byte c" using show_nat_range [of c "nat i"] by simp
  then have "c \<noteq> CHR ''-''" "c \<noteq> CHR ''+''" by auto
  with False cr show "- (2 ^ 63) \<le> i \<Longrightarrow> i < 2 ^ 63 \<Longrightarrow> ?thesis"
    using show_nat_digits [of "nat i"] by (simp add: show_int_def parse_i64_def)
qed

end
