(* ===== verification/Sql_Lex.thy ===== *)
theory Sql_Lex
  imports Red_Prelude
begin

text \<open>
  The lexical helpers of \<^verbatim>\<open>crates/red-core/src/sql.rs\<close>: the dialect profile and the functions
  that find the end of a word, a quoted literal, a comment and a dollar-quoted body. Every scanner
  of the SQL tree (\<^verbatim>\<open>statement_ranges\<close>, \<^verbatim>\<open>strip_noise\<close>, the risk grading) is built on these, so their
  bounds (a helper that starts inside the input moves forward and stays inside) are what makes
  those scanners terminate and keep their offsets.
\<close>

section \<open>Dialects\<close>

datatype db_kind = Postgres | Sqlite | Mysql | Clickhouse | Redis | Mongo

datatype dialect = Generic | MySqlD | PostgresD | SqliteD | ClickHouseD

fun dialect_of :: "db_kind \<Rightarrow> dialect" where
  "dialect_of Postgres = PostgresD"
| "dialect_of Mysql = MySqlD"
| "dialect_of Sqlite = SqliteD"
| "dialect_of Clickhouse = ClickHouseD"
| "dialect_of Redis = Generic"
| "dialect_of Mongo = Generic"

definition hash_comments :: "dialect \<Rightarrow> bool" where
  "hash_comments d \<longleftrightarrow> d = MySqlD"

definition dash_comment_at :: "dialect \<Rightarrow> bytes \<Rightarrow> nat \<Rightarrow> bool" where
  "dash_comment_at d b i \<longleftrightarrow>
     (if \<not> (i + 1 < length b \<and> b ! i = CHR ''-'' \<and> b ! (i + 1) = CHR ''-'') then False
      else case d of
        MySqlD \<Rightarrow> (if i + 2 < length b then is_ascii_whitespace (b ! (i + 2)) else True)
      | _ \<Rightarrow> True)"

definition backslash_in_strings :: "dialect \<Rightarrow> bool" where
  "backslash_in_strings d \<longleftrightarrow> d = Generic \<or> d = MySqlD \<or> d = ClickHouseD"

definition dollar_quotes :: "dialect \<Rightarrow> bool" where
  "dollar_quotes d \<longleftrightarrow> d = Generic \<or> d = PostgresD \<or> d = ClickHouseD"

definition nested_block_comments :: "dialect \<Rightarrow> bool" where
  "nested_block_comments d \<longleftrightarrow> d = PostgresD"

definition executable_comment_at :: "dialect \<Rightarrow> bytes \<Rightarrow> nat \<Rightarrow> bool" where
  "executable_comment_at d b i \<longleftrightarrow> d = MySqlD \<and> prefix ''/*!'' (drop i b)"

definition exec_comment_body :: "bytes \<Rightarrow> nat \<Rightarrow> nat" where
  "exec_comment_body b i = skip_while is_ascii_digit b (i + 3)"

section \<open>Words\<close>

definition is_word_byte :: "char \<Rightarrow> bool" where
  [byte_class]: "is_word_byte c \<longleftrightarrow> c = CHR ''_'' \<or> is_ascii_alphanumeric c"

definition word_end :: "bytes \<Rightarrow> nat \<Rightarrow> nat" where
  "word_end b i = skip_while is_word_byte b i"

text \<open>
  \<^verbatim>\<open>top_level_word\<close>: the offset of \<open>word\<close> as a whole word at parenthesis depth 0. The depth is an
  \<^verbatim>\<open>i32\<close> in the source; it moves by one per byte, so on any input shorter than \<open>2^31\<close> bytes it is
  the integer below.
\<close>

function top_level_word_from :: "bytes \<Rightarrow> string \<Rightarrow> int \<Rightarrow> nat \<Rightarrow> nat option" where
  "top_level_word_from b w depth i =
     (if i < length b then
        if b ! i = CHR ''('' then top_level_word_from b w (depth + 1) (i + 1)
        else if b ! i = CHR '')'' then top_level_word_from b w (depth - 1) (i + 1)
        else if is_word_byte (b ! i) then
          if depth = 0 \<and> slice i (word_end b i) b = w then Some i
          else top_level_word_from b w depth (word_end b i)
        else top_level_word_from b w depth (i + 1)
      else None)"
  by pat_completeness auto
termination
  by (relation "measure (\<lambda>(b, w, depth, i). length b - i)")
    (auto simp: word_end_def intro!: diff_less_mono2 skip_while_gt)

declare top_level_word_from.simps [simp del]

definition top_level_word :: "string \<Rightarrow> string \<Rightarrow> nat option" where
  "top_level_word haystack w = top_level_word_from haystack w 0 0"

fun has_top_level_comma_from :: "int \<Rightarrow> bytes \<Rightarrow> bool" where
  "has_top_level_comma_from depth [] = False"
| "has_top_level_comma_from depth (c # r) =
     (if c = CHR ''('' then has_top_level_comma_from (depth + 1) r
      else if c = CHR '')'' then has_top_level_comma_from (depth - 1) r
      else if c = CHR '','' \<and> depth = 0 then True
      else has_top_level_comma_from depth r)"

definition has_top_level_comma :: "string \<Rightarrow> bool" where
  "has_top_level_comma haystack = has_top_level_comma_from 0 haystack"

definition next_word :: "bytes \<Rightarrow> nat \<Rightarrow> (bytes \<times> nat) option" where
  "next_word b from =
     (let i = skip_while is_ascii_whitespace b from in
      if length b \<le> i \<or> \<not> is_word_byte (b ! i) then None
      else Some (slice i (word_end b i) b, word_end b i))"

text \<open>
  The walk of \<^verbatim>\<open>next_header_word\<close>: over everything that is not a word byte, giving up at \<^verbatim>\<open>(\<close>.
\<close>

function header_gap :: "bytes \<Rightarrow> nat \<Rightarrow> nat option" where
  "header_gap b i =
     (if i < length b \<and> \<not> is_word_byte (b ! i) then
        if b ! i = CHR ''('' then None else header_gap b (i + 1)
      else Some i)"
  by pat_completeness auto
termination
  by (relation "measure (\<lambda>(b, i). length b - i)") auto

declare header_gap.simps [simp del]

definition next_header_word :: "bytes \<Rightarrow> nat \<Rightarrow> (bytes \<times> nat) option" where
  "next_header_word b from =
     (case header_gap b from of None \<Rightarrow> None
      | Some i \<Rightarrow>
        if length b \<le> i then None
        else Some (slice i (word_end b i) b, word_end b i))"

definition rest_of_line :: "bytes \<Rightarrow> nat \<Rightarrow> bytes \<times> nat" where
  "rest_of_line b from =
     (let end = skip_while (\<lambda>c. c \<noteq> CHR 0x0A) b from;
          line = slice from end b;
          lead = length (takeWhile is_ascii_whitespace line);
          len = length (takeWhile (\<lambda>c. \<not> is_ascii_whitespace c) (drop lead line))
      in (slice lead (lead + len) line, min (end + 1) (length b)))"

section \<open>Literals and comments\<close>

definition quote_escapes :: "bytes \<Rightarrow> nat \<Rightarrow> char \<Rightarrow> dialect \<Rightarrow> bool" where
  "quote_escapes b i q d \<longleftrightarrow>
     (if q = CHR ''`'' then False
      else if backslash_in_strings d then True
      else d = PostgresD \<and> q = CHR 0x27 \<and> 1 \<le> i
        \<and> (b ! (i - 1) = CHR ''e'' \<or> b ! (i - 1) = CHR ''E'')
        \<and> (i < 2 \<or> \<not> is_word_byte (b ! (i - 2))))"

text \<open>The loop of \<^verbatim>\<open>skip_quoted\<close>, from the byte after the opening quote.\<close>

function skip_quoted_from :: "bytes \<Rightarrow> char \<Rightarrow> bool \<Rightarrow> nat \<Rightarrow> nat" where
  "skip_quoted_from b q escapes j =
     (if j < length b then
        if b ! j = q then
          if j + 1 < length b \<and> b ! (j + 1) = q then skip_quoted_from b q escapes (j + 2)
          else j + 1
        else if b ! j = CHR 0x5C \<and> escapes \<and> j + 1 < length b
          then skip_quoted_from b q escapes (j + 2)
        else skip_quoted_from b q escapes (j + 1)
      else length b)"
  by pat_completeness auto
termination
  by (relation "measure (\<lambda>(b, q, escapes, j). length b - j)") auto

declare skip_quoted_from.simps [simp del]

definition skip_quoted :: "bytes \<Rightarrow> nat \<Rightarrow> char \<Rightarrow> bool \<Rightarrow> nat" where
  "skip_quoted b i q escapes = skip_quoted_from b q escapes (i + 1)"

definition line_comment_end :: "bytes \<Rightarrow> nat \<Rightarrow> nat" where
  "line_comment_end b from = skip_while (\<lambda>c. c \<noteq> CHR 0x0A) b (min from (length b))"

text \<open>The loop of \<^verbatim>\<open>skip_block_comment\<close>; \<open>depth\<close> is positive on entry.\<close>

function skip_block_from :: "bytes \<Rightarrow> bool \<Rightarrow> nat \<Rightarrow> nat \<Rightarrow> nat" where
  "skip_block_from b nests depth j =
     (if j + 1 < length b then
        if b ! j = CHR ''*'' \<and> b ! (j + 1) = CHR ''/'' then
          if depth - 1 = 0 then j + 2 else skip_block_from b nests (depth - 1) (j + 2)
        else if nests \<and> b ! j = CHR ''/'' \<and> b ! (j + 1) = CHR ''*''
          then skip_block_from b nests (depth + 1) (j + 2)
        else skip_block_from b nests depth (j + 1)
      else length b)"
  by pat_completeness auto
termination
  by (relation "measure (\<lambda>(b, nests, depth, j). length b - j)") auto

declare skip_block_from.simps [simp del]

definition skip_block_comment :: "bytes \<Rightarrow> nat \<Rightarrow> dialect \<Rightarrow> nat" where
  "skip_block_comment b i d = skip_block_from b (nested_block_comments d) 1 (i + 2)"

text \<open>The search of \<^verbatim>\<open>dollar_quote_end\<close> for the closing tag.\<close>

function find_tag :: "bytes \<Rightarrow> bytes \<Rightarrow> nat \<Rightarrow> nat" where
  "find_tag b tag k =
     (if k + length tag \<le> length b then
        if slice k (k + length tag) b = tag then k + length tag else find_tag b tag (k + 1)
      else length b)"
  by pat_completeness auto
termination
  by (relation "measure (\<lambda>(b, tag, k). Suc (length b) - k)") auto

declare find_tag.simps [simp del]

definition dollar_quote_end :: "bytes \<Rightarrow> nat \<Rightarrow> nat option" where
  "dollar_quote_end b i =
     (let j = skip_while (\<lambda>c. c = CHR ''_'' \<or> is_ascii_alphanumeric c) b (i + 1) in
      if length b \<le> j \<or> b ! j \<noteq> CHR ''$'' then None
      else Some (find_tag b (slice i (j + 1) b) (j + 1)))"

text \<open>
  \<^verbatim>\<open>first_keyword\<close>: each round of its loop drops one leading comment, so the string shrinks.
\<close>

lemma trim_start_shrinks: "length t \<le> n \<Longrightarrow> length (trim_start t) \<le> n"
  using length_trim_start [of t] by simp

function skip_leading_comments :: "string \<Rightarrow> string option" where
  "skip_leading_comments s =
     (if prefix ''--'' s then
        skip_leading_comments (trim_start
          (case split_once CHR 0x0A (drop 2 s) of None \<Rightarrow> [] | Some (_, after) \<Rightarrow> after))
      else if prefix ''#'' s then
        skip_leading_comments (trim_start
          (case split_once CHR 0x0A (drop 1 s) of None \<Rightarrow> [] | Some (_, after) \<Rightarrow> after))
      else if prefix ''/*'' s then
        (case split_once_str ''*/'' (drop 2 s) of
           None \<Rightarrow> None
         | Some (_, after) \<Rightarrow> skip_leading_comments (trim_start after))
      else Some s)"
  by pat_completeness auto
termination
proof (relation "measure length")
  fix s :: string assume "prefix ''--'' s"
  then have "length s \<ge> 2" by (auto dest: prefix_length_le)
  then show "(trim_start (case split_once CHR 0x0A (drop 2 s) of None \<Rightarrow> []
      | Some (x, after) \<Rightarrow> after), s) \<in> measure length"
    by (auto split: option.splits dest!: split_once_length
        intro!: le_less_trans [OF length_trim_start])
next
  fix s :: string assume "prefix ''#'' s"
  then have "length s \<ge> 1" by (auto dest: prefix_length_le)
  then show "(trim_start (case split_once CHR 0x0A (drop 1 s) of None \<Rightarrow> []
      | Some (x, after) \<Rightarrow> after), s) \<in> measure length"
    by (auto split: option.splits dest!: split_once_length
        intro!: le_less_trans [OF length_trim_start])
next
  fix s x and x1 after :: string
  assume "prefix ''/*'' s" "split_once_str ''*/'' (drop 2 s) = Some x" "(x1, after) = x"
  then show "(trim_start after, s) \<in> measure length"
    by (auto dest!: split_once_str_length prefix_length_le
        intro!: le_less_trans [OF length_trim_start])
qed simp

declare skip_leading_comments.simps [simp del]

definition first_keyword :: "string \<Rightarrow> string" where
  "first_keyword sql =
     (case skip_leading_comments (trim_start sql) of
        None \<Rightarrow> []
      | Some s \<Rightarrow> takeWhile is_ascii_alphabetic s)"

text \<open>\<^verbatim>\<open>has_word\<close>: split at every byte that is not a word byte, and look for \<open>word\<close>.\<close>

fun split_words :: "string \<Rightarrow> string \<Rightarrow> string list" where
  "split_words acc [] = [rev acc]"
| "split_words acc (c # r) =
     (if is_word_byte c then split_words (c # acc) r else rev acc # split_words [] r)"

definition has_word :: "string \<Rightarrow> string \<Rightarrow> bool" where
  "has_word haystack w \<longleftrightarrow> w \<in> set (split_words [] haystack)"

section \<open>Where the helpers stop\<close>

lemma word_end_ge [simp, scan_bounds]: "i \<le> word_end b i"
  by (simp add: word_end_def)

lemma word_end_le [scan_bounds]: "i \<le> length b \<Longrightarrow> word_end b i \<le> length b"
  by (simp add: word_end_def skip_while_le)

lemma word_end_gt [scan_bounds]:
  "i < length b \<Longrightarrow> is_word_byte (b ! i) \<Longrightarrow> i < word_end b i"
  by (simp add: word_end_def skip_while_gt)

lemma skip_quoted_from_le [scan_bounds]: "skip_quoted_from b q e j \<le> length b"
  by (induction b q e j rule: skip_quoted_from.induct) (subst skip_quoted_from.simps, auto)

lemma skip_quoted_from_ge: "j \<le> length b \<Longrightarrow> j \<le> skip_quoted_from b q e j"
proof (induction b q e j rule: skip_quoted_from.induct)
  case (1 b q e j)
  show ?case
    using 1 by (subst skip_quoted_from.simps, auto dest: add_leD1 Suc_leD) (metis Suc_leD)
qed

lemma skip_quoted_le [scan_bounds]: "skip_quoted b i q e \<le> length b"
  by (simp add: skip_quoted_def skip_quoted_from_le)

lemma skip_quoted_gt [scan_bounds]: "i < length b \<Longrightarrow> i < skip_quoted b i q e"
  using skip_quoted_from_ge [of "i + 1" b q e] by (simp add: skip_quoted_def)

lemma line_comment_end_le [scan_bounds]: "line_comment_end b from \<le> length b"
  by (simp add: line_comment_end_def skip_while_le)

lemma line_comment_end_ge [scan_bounds]: "from \<le> length b \<Longrightarrow> from \<le> line_comment_end b from"
  by (simp add: line_comment_end_def)

lemma skip_block_from_le [scan_bounds]: "j \<le> length b \<Longrightarrow> skip_block_from b nests depth j \<le> length b"
  by (induction b nests depth j rule: skip_block_from.induct) (subst skip_block_from.simps, auto)

lemma skip_block_from_ge: "j \<le> length b \<Longrightarrow> j \<le> skip_block_from b nests depth j"
proof (induction b nests depth j rule: skip_block_from.induct)
  case (1 b nests depth j)
  show ?case
    using 1 by (subst skip_block_from.simps) (auto dest: add_leD1 Suc_leD)
qed

lemma skip_block_comment_le [scan_bounds]:
  "i + 1 < length b \<Longrightarrow> skip_block_comment b i d \<le> length b"
  by (simp add: skip_block_comment_def skip_block_from_le)

lemma skip_block_comment_ge [scan_bounds]:
  "i + 1 < length b \<Longrightarrow> i + 2 \<le> skip_block_comment b i d"
  using skip_block_from_ge [of "i + 2" b] by (simp add: skip_block_comment_def)

lemma dash_comment_advances [scan_bounds]:
  "dash_comment_at d b i \<Longrightarrow> i < line_comment_end b (i + 2)"
  using line_comment_end_ge [of "i + 2" b] by (simp add: dash_comment_at_def split: if_splits)

lemma hash_comment_advances [scan_bounds]:
  "i < length b \<Longrightarrow> i < line_comment_end b (i + 1)"
  using line_comment_end_ge [of "i + 1" b] by simp

lemma block_comment_advances [scan_bounds]:
  "i + 1 < length b \<Longrightarrow> i < skip_block_comment b i d"
  using skip_block_comment_ge [of i b d] by simp

lemma find_tag_le [scan_bounds]: "find_tag b tag k \<le> length b"
  by (induction b tag k rule: find_tag.induct) (subst find_tag.simps, auto)

lemma find_tag_ge: "k \<le> length b \<Longrightarrow> k \<le> find_tag b tag k"
proof (induction b tag k rule: find_tag.induct)
  case (1 b tag k)
  show ?case
  proof (cases "k + length tag \<le> length b \<and> slice k (k + length tag) b \<noteq> tag")
    case True
    then have "tag \<noteq> []" by (cases tag) (auto simp: slice_def)
    with True have "k + 1 \<le> length b" by (cases tag) auto
    with True 1 show ?thesis by (subst find_tag.simps) auto
  next
    case False
    with "1.prems" show ?thesis by (subst find_tag.simps) auto
  qed
qed

lemma dollar_quote_end_bounds [scan_bounds]:
  assumes "dollar_quote_end b i = Some e" "i < length b"
  shows "i < e \<and> e \<le> length b"
proof -
  let ?j = "skip_while (\<lambda>c. c = CHR ''_'' \<or> is_ascii_alphanumeric c) b (i + 1)"
  from assms have j: "?j < length b" and e: "e = find_tag b (slice i (?j + 1) b) (?j + 1)"
    by (auto simp: dollar_quote_end_def Let_def split: if_splits)
  have "i < ?j + 1" using skip_while_ge [of "i + 1" _ b] by (simp add: less_Suc_eq_le Suc_leD)
  moreover have "?j + 1 \<le> e" unfolding e using j by (intro find_tag_ge) simp
  moreover have "e \<le> length b" unfolding e by (rule find_tag_le)
  ultimately show ?thesis by linarith
qed

lemma next_word_bounds [scan_bounds]:
  assumes "next_word b from = Some (w, e)"
  shows "from < e \<and> e \<le> length b"
proof -
  let ?i = "skip_while is_ascii_whitespace b from"
  from assms have i: "?i < length b" "is_word_byte (b ! ?i)" and e: "e = word_end b ?i"
    by (auto simp: next_word_def Let_def split: if_splits)
  then show ?thesis
    using skip_while_ge [of "from" is_ascii_whitespace b] word_end_gt [OF i] word_end_le [of ?i b]
    by linarith
qed

lemma rest_of_line_bounds [scan_bounds]:
  assumes "from \<le> length b"
  shows "from \<le> snd (rest_of_line b from) \<and> snd (rest_of_line b from) \<le> length b"
proof -
  have "from \<le> skip_while (\<lambda>c. c \<noteq> CHR 0x0A) b from" by (rule skip_while_ge)
  then have "from \<le> Suc (skip_while (\<lambda>c. c \<noteq> CHR 0x0A) b from)" by (rule le_SucI)
  with assms show ?thesis by (simp add: rest_of_line_def Let_def)
qed


section \<open>What the helpers stop on\<close>

text \<open>
  Each helper stops at the end of the input or right after the ASCII byte that closes the
  construct, so on valid UTF-8 it stops on a character boundary.
\<close>

lemma skip_quoted_from_last:
  "skip_quoted_from b q e j = length b \<or>
     (\<exists>k. k < length b \<and> b ! k = q \<and> skip_quoted_from b q e j = k + 1)"
proof (induction b q e j rule: skip_quoted_from.induct)
  case (1 b q e j)
  show ?case
    by (cases e; subst (1 2) skip_quoted_from.simps [of b q e j]) (use 1 in auto)
qed

lemma skip_quoted_last:
  "skip_quoted b i q e \<noteq> length b \<Longrightarrow>
     \<exists>k. k < length b \<and> b ! k = q \<and> skip_quoted b i q e = k + 1"
  using skip_quoted_from_last [of b q e "i + 1"] by (simp add: skip_quoted_def)

lemma line_comment_end_last:
  "line_comment_end b from \<noteq> length b \<Longrightarrow>
     line_comment_end b from < length b \<and> b ! line_comment_end b from = CHR 0x0A"
  using line_comment_end_le [of b "from"]
    skip_while_stop [of "\<lambda>c. c \<noteq> CHR 0x0A" b "min from (length b)"]
  by (simp add: line_comment_end_def)

lemma skip_block_from_last:
  "skip_block_from b nests n j = length b \<or>
     (\<exists>k. k + 1 < length b \<and> b ! k = CHR ''*'' \<and> b ! (k + 1) = CHR ''/'' \<and>
        skip_block_from b nests n j = k + 2)"
proof (induction b nests n j rule: skip_block_from.induct)
  case (1 b nests n j)
  show ?case
    by (subst (1 2) skip_block_from.simps [of b nests n j]) (use 1 in auto)
qed

lemma skip_block_comment_last:
  "skip_block_comment b i d \<noteq> length b \<Longrightarrow>
     \<exists>k. k + 1 < length b \<and> b ! (k + 1) = CHR ''/'' \<and> skip_block_comment b i d = k + 2"
  using skip_block_from_last [of b "nested_block_comments d" 1 "i + 2"]
  by (auto simp: skip_block_comment_def)

lemma find_tag_last:
  "find_tag b tag k = length b \<or>
     (\<exists>m. k \<le> m \<and> m + length tag \<le> length b \<and> slice m (m + length tag) b = tag \<and>
        find_tag b tag k = m + length tag)"
proof (induction b tag k rule: find_tag.induct)
  case (1 b tag k)
  show ?case
  proof (cases "k + length tag \<le> length b \<and> slice k (k + length tag) b \<noteq> tag")
    case True
    then have "find_tag b tag k = find_tag b tag (k + 1)" by (subst find_tag.simps) simp
    with True 1 show ?thesis by (metis Suc_eq_plus1 Suc_leD)
  next
    case False
    then show ?thesis by (subst (1 2) find_tag.simps) auto
  qed
qed

lemma dollar_quote_end_last:
  assumes "dollar_quote_end b i = Some e" "e \<noteq> length b" "i < length b"
  shows "\<exists>k. k < length b \<and> b ! k = CHR ''$'' \<and> e = k + 1"
proof -
  let ?j = "skip_while (\<lambda>c. c = CHR ''_'' \<or> is_ascii_alphanumeric c) b (i + 1)"
  let ?tag = "slice i (?j + 1) b"
  from assms have j: "?j < length b" "b ! ?j = CHR ''$''" and e: "e = find_tag b ?tag (?j + 1)"
    by (auto simp: dollar_quote_end_def Let_def split: if_splits)
  have ij: "i < ?j" using skip_while_ge [of "i + 1" _ b] by (simp add: Suc_le_lessD)
  have len: "length ?tag = ?j + 1 - i" using j by simp
  have lst: "?tag ! (?j - i) = CHR ''$''" using j ij by (simp add: nth_slice)
  obtain m where m: "m + length ?tag \<le> length b" "slice m (m + length ?tag) b = ?tag"
      "e = m + length ?tag"
    using find_tag_last [of b ?tag "?j + 1"] assms(2) e by auto
  have "b ! (m + (?j - i)) = slice m (m + length ?tag) b ! (?j - i)"
    using m(1) len ij by (simp add: nth_slice)
  then have "b ! (m + (?j - i)) = CHR ''$''" using m(2) lst by simp
  moreover have "m + (?j - i) < length b" "e = m + (?j - i) + 1" using m len ij by linarith+
  ultimately show ?thesis by blast
qed

end
