(* ===== verification/Sql_Split.thy ===== *)
theory Sql_Split
  imports Sql_Lex
begin

text \<open>
  Statement boundaries: \<^verbatim>\<open>statement_ranges\<close> and \<^verbatim>\<open>split_statements\<close> of
  \<^verbatim>\<open>crates/red-core/src/sql.rs\<close>, with the block-structure helpers they use. The mutable locals of
  the scanner's \<^verbatim>\<open>while\<close> loop are the record \<open>scan\<close>, its body is \<open>scan_step\<close>, and the loop itself is
  \<^const>\<open>while_option\<close>, so that it ends is a theorem and not an assumption.
\<close>

section \<open>Routine bodies\<close>

definition is_block_kind :: "bytes \<Rightarrow> bool" where
  "is_block_kind w \<longleftrightarrow>
     list_ex (\<lambda>k. eq_ignore_ascii_case w k) [''if'', ''case'', ''loop'', ''while'', ''repeat'']"

text \<open>The loop of \<^verbatim>\<open>then_follows\<close>.\<close>

function then_follows_from :: "bytes \<Rightarrow> dialect \<Rightarrow> nat \<Rightarrow> nat \<Rightarrow> bool" where
  "then_follows_from b d depth i =
     (if i < length b then
        let c = b ! i in
        if c = CHR ''('' then then_follows_from b d (depth + 1) (i + 1)
        else if c = CHR '')'' then then_follows_from b d (depth - 1) (i + 1)
        else if c = CHR '';'' \<and> depth = 0 then False
        else if c = CHR 0x27 \<or> c = CHR 0x22 \<or> c = CHR ''`'' then
          then_follows_from b d depth (skip_quoted b i c (quote_escapes b i c d))
        else if c = CHR ''-'' \<and> dash_comment_at d b i then
          then_follows_from b d depth (line_comment_end b (i + 2))
        else if c = CHR ''#'' \<and> hash_comments d then
          then_follows_from b d depth (line_comment_end b (i + 1))
        else if c = CHR ''/'' \<and> i + 1 < length b \<and> b ! (i + 1) = CHR ''*'' then
          then_follows_from b d depth (skip_block_comment b i d)
        else if is_word_byte c then
          if depth = 0 \<and> eq_ignore_ascii_case (slice i (word_end b i) b) ''then'' then True
          else then_follows_from b d depth (word_end b i)
        else then_follows_from b d depth (i + 1)
      else False)"
  by pat_completeness auto
termination
  by (relation "measure (\<lambda>(b, d, depth, i). length b - i)")
    (auto intro!: diff_less_mono2 intro: skip_quoted_gt
      dash_comment_advances [simplified] hash_comment_advances [simplified] block_comment_advances [simplified] word_end_gt)

declare then_follows_from.simps [simp del]

definition then_follows :: "bytes \<Rightarrow> nat \<Rightarrow> dialect \<Rightarrow> bool" where
  "then_follows b from d = then_follows_from b d 0 from"

definition if_exists_header :: "bytes \<Rightarrow> nat \<Rightarrow> bool" where
  "if_exists_header b from =
     (case next_word b from of
        None \<Rightarrow> False
      | Some (first, after) \<Rightarrow>
        if eq_ignore_ascii_case first ''exists'' then True
        else eq_ignore_ascii_case first ''not'' \<and>
          (case next_word b after of
             Some (w, _) \<Rightarrow> eq_ignore_ascii_case w ''exists''
           | None \<Rightarrow> False))"

definition opens_block :: "bytes \<Rightarrow> bytes \<Rightarrow> nat \<Rightarrow> dialect \<Rightarrow> bool" where
  "opens_block b word from d =
     (let is_if = eq_ignore_ascii_case word ''if'';
          is_call_like = is_if \<or> eq_ignore_ascii_case word ''repeat'';
          at = skip_while is_ascii_whitespace b from
      in
      if \<not> is_block_kind word \<and> \<not> eq_ignore_ascii_case word ''begin'' then False
      else if is_call_like \<and> from < length b \<and> b ! from = CHR ''('' then False
      else if is_call_like \<and> at < length b \<and> b ! at = CHR ''('' then
        is_if \<and> then_follows b at d
      else if is_if \<and> if_exists_header b from then then_follows b from d
      else True)"

text \<open>
  The bounded walk of \<^verbatim>\<open>routine_ddl_at\<close> over at most \<^verbatim>\<open>HEADER_WORDS\<close> header words.
\<close>

definition HEADER_WORDS :: nat where
  "HEADER_WORDS = 8"

fun routine_header :: "nat \<Rightarrow> bytes \<Rightarrow> nat \<Rightarrow> bool" where
  "routine_header 0 b at = False"
| "routine_header (Suc n) b at =
     (case next_header_word b at of
        None \<Rightarrow> False
      | Some (word, next) \<Rightarrow>
        if list_ex (\<lambda>k. eq_ignore_ascii_case word k)
             [''trigger'', ''procedure'', ''function'', ''event''] then True
        else if list_ex (\<lambda>k. eq_ignore_ascii_case word k)
             [''table'', ''view'', ''index'', ''database'', ''schema'', ''sequence'', ''user'',
              ''role''] then False
        else routine_header n b next)"

definition routine_ddl_at :: "bytes \<Rightarrow> nat \<Rightarrow> bool" where
  "routine_ddl_at b from =
     (case next_word b from of
        None \<Rightarrow> False
      | Some (verb, at) \<Rightarrow>
        if \<not> list_ex (\<lambda>v. eq_ignore_ascii_case verb v) [''create'', ''alter'', ''drop'']
        then False
        else routine_header HEADER_WORDS b at)"

definition is_routine_ddl :: "string \<Rightarrow> bool" where
  "is_routine_ddl sql = routine_ddl_at sql 0"

section \<open>The scanner\<close>

record scan =
  sc_out :: "(nat \<times> nat) list"
  sc_delim :: bytes
  sc_depth :: nat
  sc_compound :: bool
  sc_start :: nat
  sc_fresh :: bool
  sc_pos :: nat

definition scan_init :: scan where
  "scan_init = \<lparr>sc_out = [], sc_delim = '';'', sc_depth = 0, sc_compound = False, sc_start = 0, sc_fresh = True,
     sc_pos = 0\<rparr>"

text \<open>
  The word arm of the loop body: the \<^verbatim>\<open>DELIMITER\<close> directive, the leading keywords of a
  statement, and inside a routine body the blocks that open and close.
\<close>

definition scan_block :: "bytes \<Rightarrow> dialect \<Rightarrow> bytes \<Rightarrow> scan \<Rightarrow> scan" where
  \<comment> \<open>the rest of the word arm, \<open>sc_pos\<close> already past the word\<close>
  "scan_block b d word s =
     (if \<not> sc_compound s then s
      else if eq_ignore_ascii_case word ''end'' then
        s\<lparr>sc_depth := sc_depth s - 1,
          sc_pos := (case next_word b (sc_pos s) of
                    Some (nxt, next_end) \<Rightarrow> if is_block_kind nxt then next_end else sc_pos s
                  | None \<Rightarrow> sc_pos s)\<rparr>
      else if opens_block b word (sc_pos s) d then s\<lparr>sc_depth := sc_depth s + 1\<rparr>
      else s)"

definition scan_word :: "bytes \<Rightarrow> dialect \<Rightarrow> scan \<Rightarrow> scan" where
  "scan_word b d s =
     (let i = sc_pos s; end = word_end b i; word = slice i end b in
      if sc_fresh s \<and> eq_ignore_ascii_case word ''delimiter'' then
        let (token, line_end) = rest_of_line b end in
        s\<lparr>sc_delim := (if token \<noteq> [] then token else sc_delim s), sc_pos := line_end, sc_start := line_end\<rparr>
      else
        let s1 = (if sc_fresh s then s\<lparr>sc_compound := routine_ddl_at b i, sc_fresh := False\<rparr> else s)
        in scan_block b d word (s1\<lparr>sc_pos := end\<rparr>))"

definition scan_step :: "bytes \<Rightarrow> dialect \<Rightarrow> scan \<Rightarrow> scan" where
  "scan_step b d s =
     (let i = sc_pos s; c = b ! i in
      if sc_depth s = 0 \<and> prefix (sc_delim s) (drop i b) then
        s\<lparr>sc_out := sc_out s @ [(sc_start s, i)], sc_pos := i + length (sc_delim s),
          sc_start := i + length (sc_delim s), sc_fresh := True, sc_compound := False\<rparr>
      else if c = CHR 0x27 \<or> c = CHR 0x22 \<or> c = CHR ''`'' then
        s\<lparr>sc_pos := skip_quoted b i c (quote_escapes b i c d), sc_fresh := False\<rparr>
      else if c = CHR ''-'' \<and> dash_comment_at d b i then
        s\<lparr>sc_pos := line_comment_end b (i + 2)\<rparr>
      else if c = CHR ''#'' \<and> hash_comments d then
        s\<lparr>sc_pos := line_comment_end b (i + 1)\<rparr>
      else if c = CHR ''/'' \<and> i + 1 < length b \<and> b ! (i + 1) = CHR ''*'' then
        s\<lparr>sc_pos := skip_block_comment b i d\<rparr>
      else if c = CHR ''$'' \<and> dollar_quotes d then
        s\<lparr>sc_pos := (case dollar_quote_end b i of Some e \<Rightarrow> e | None \<Rightarrow> i + 1), sc_fresh := False\<rparr>
      else if is_word_byte c then scan_word b d s
      else s\<lparr>sc_pos := i + 1, sc_fresh := (if is_ascii_whitespace c then sc_fresh s else False)\<rparr>)"

definition scan_loop :: "bytes \<Rightarrow> dialect \<Rightarrow> scan option" where
  "scan_loop b d = while_option (\<lambda>s. sc_pos s < length b) (scan_step b d) scan_init"

definition statement_ranges :: "string \<Rightarrow> dialect \<Rightarrow> (nat \<times> nat) list" where
  "statement_ranges sql d =
     (case scan_loop sql d of
        Some s \<Rightarrow> sc_out s @ [(sc_start s, length sql)]
      | None \<Rightarrow> [])"

definition split_statements :: "string \<Rightarrow> dialect \<Rightarrow> string list" where
  "split_statements sql d =
     filter (\<lambda>s. s \<noteq> []) (map (\<lambda>(i, j). trim (slice i j sql)) (statement_ranges sql d))"

section \<open>The scanner terminates and its spans are in order\<close>

text \<open>Spans in order, disjoint and between \<open>lo\<close> and \<open>hi\<close>.\<close>

fun spans_ok :: "nat \<Rightarrow> (nat \<times> nat) list \<Rightarrow> nat \<Rightarrow> bool" where
  "spans_ok lo [] hi \<longleftrightarrow> lo \<le> hi"
| "spans_ok lo ((i, j) # r) hi \<longleftrightarrow> lo \<le> i \<and> i \<le> j \<and> spans_ok j r hi"

lemma spans_ok_snoc:
  "spans_ok lo xs i \<Longrightarrow> i \<le> j \<Longrightarrow> j \<le> hi \<Longrightarrow> spans_ok lo (xs @ [(i, j)]) hi"
  by (induction lo xs i rule: spans_ok.induct) auto

lemma spans_ok_mono: "spans_ok lo xs hi \<Longrightarrow> hi \<le> hi' \<Longrightarrow> spans_ok lo xs hi'"
  by (induction lo xs hi rule: spans_ok.induct) auto

definition scan_inv :: "bytes \<Rightarrow> scan \<Rightarrow> bool" where
  "scan_inv b s \<longleftrightarrow>
     sc_delim s \<noteq> [] \<and> sc_start s \<le> sc_pos s \<and> sc_pos s \<le> length b \<and>
     spans_ok 0 (sc_out s) (sc_start s)"

text \<open>What an arm that only moves \<open>sc_pos\<close> keeps.\<close>

definition moves_on :: "bytes \<Rightarrow> scan \<Rightarrow> scan \<Rightarrow> bool" where
  "moves_on b s t \<longleftrightarrow>
     sc_out t = sc_out s \<and> sc_delim t = sc_delim s \<and> sc_start t = sc_start s \<and>
     sc_pos s < sc_pos t \<and> sc_pos t \<le> length b"

lemma scan_inv_moves_on: "scan_inv b s \<Longrightarrow> moves_on b s t \<Longrightarrow> scan_inv b t"
  by (auto simp: scan_inv_def moves_on_def)

lemma scan_block_frame:
  "sc_out (scan_block b d w s) = sc_out s \<and> sc_delim (scan_block b d w s) = sc_delim s \<and>
   sc_start (scan_block b d w s) = sc_start s"
  by (auto simp: scan_block_def split: option.splits)

lemma scan_block_pos:
  assumes "sc_pos s \<le> length b"
  shows "sc_pos s \<le> sc_pos (scan_block b d w s) \<and> sc_pos (scan_block b d w s) \<le> length b"
proof -
  have "sc_pos s \<le> e \<and> e \<le> length b" if "next_word b (sc_pos s) = Some (x, e)" for x e
    using next_word_bounds [OF that] by simp
  with assms show ?thesis
    by (auto simp: scan_block_def split: option.splits)
qed

text \<open>The two ways the word arm ends.\<close>

definition directive_at :: "bytes \<Rightarrow> nat \<Rightarrow> bool" where
  "directive_at b i \<longleftrightarrow> eq_ignore_ascii_case (slice i (word_end b i) b) ''delimiter''"

lemma scan_word_directive:
  assumes "sc_fresh s" "directive_at b (sc_pos s)"
    and "rest_of_line b (word_end b (sc_pos s)) = (token, line_end)"
  shows "scan_word b d s =
    s\<lparr>sc_delim := (if token \<noteq> [] then token else sc_delim s), sc_pos := line_end,
      sc_start := line_end\<rparr>"
  using assms by (simp add: scan_word_def Let_def directive_at_def)

lemma scan_word_moves_on:
  assumes "\<not> (sc_fresh s \<and> directive_at b (sc_pos s))"
    and "sc_pos s < length b" "is_word_byte (b ! sc_pos s)"
  shows "moves_on b s (scan_word b d s)"
proof -
  let ?e = "word_end b (sc_pos s)"
  define s1 where "s1 = (if sc_fresh s
    then s\<lparr>sc_compound := routine_ddl_at b (sc_pos s), sc_fresh := False\<rparr> else s)"
  define t where "t = s1\<lparr>sc_pos := ?e\<rparr>"
  have e: "sc_pos s < ?e" "?e \<le> length b"
    using assms(2,3) by (auto intro: word_end_gt word_end_le)
  have eq: "scan_word b d s = scan_block b d (slice (sc_pos s) ?e b) t"
    using assms(1) by (auto simp: scan_word_def Let_def directive_at_def t_def s1_def)
  have t: "sc_out t = sc_out s" "sc_delim t = sc_delim s" "sc_start t = sc_start s" "sc_pos t = ?e"
    by (simp_all add: t_def s1_def)
  show ?thesis
    unfolding moves_on_def eq
    using scan_block_frame [of b d _ t] scan_block_pos [of t b d] t e
    by (metis less_le_trans)
qed

lemma scan_word_inv:
  assumes "scan_inv b s" "sc_pos s < length b" "is_word_byte (b ! sc_pos s)"
  shows "scan_inv b (scan_word b d s) \<and> sc_pos s < sc_pos (scan_word b d s)"
proof (cases "sc_fresh s \<and> directive_at b (sc_pos s)")
  case True
  obtain token line_end where r: "rest_of_line b (word_end b (sc_pos s)) = (token, line_end)"
    by fastforce
  have "word_end b (sc_pos s) \<le> line_end" "line_end \<le> length b"
    using rest_of_line_bounds [of "word_end b (sc_pos s)" b] assms(2) r word_end_le [of "sc_pos s" b]
    by auto
  moreover have "sc_pos s < word_end b (sc_pos s)" using assms(2,3) by (rule word_end_gt)
  moreover have "spans_ok 0 (sc_out s) line_end"
    using assms(1) calculation by (auto simp: scan_inv_def intro: spans_ok_mono)
  ultimately show ?thesis
    using True assms(1) by (simp add: scan_word_directive [OF _ _ r] scan_inv_def)
next
  case False
  from scan_word_moves_on [OF this assms(2,3)] assms(1) show ?thesis
    by (auto intro: scan_inv_moves_on simp: moves_on_def)
qed

lemma scan_step_separator:
  assumes "sc_depth s = 0" "prefix (sc_delim s) (drop (sc_pos s) b)"
  shows "scan_step b d s =
    s\<lparr>sc_out := sc_out s @ [(sc_start s, sc_pos s)], sc_pos := sc_pos s + length (sc_delim s),
      sc_start := sc_pos s + length (sc_delim s), sc_fresh := True, sc_compound := False\<rparr>"
  using assms by (simp add: scan_step_def Let_def)

text \<open>Every arm but the separator and the word arm moves on.\<close>

lemma scan_step_moves_on:
  assumes "\<not> (sc_depth s = 0 \<and> prefix (sc_delim s) (drop (sc_pos s) b))"
    and "sc_pos s < length b" "\<not> is_word_byte (b ! sc_pos s)"
  shows "moves_on b s (scan_step b d s)"
  using assms skip_quoted_gt [of "sc_pos s" b] skip_quoted_le [of b "sc_pos s"]
    dash_comment_advances [of d b "sc_pos s"] line_comment_end_le [of b]
    hash_comment_advances [of "sc_pos s" b]
    block_comment_advances [of "sc_pos s" b d] skip_block_comment_le [of "sc_pos s" b d]
    dollar_quote_end_bounds [of b "sc_pos s"]
  by (simp add: scan_step_def Let_def moves_on_def split: option.split)

lemma scan_step_word:
  assumes "\<not> (sc_depth s = 0 \<and> prefix (sc_delim s) (drop (sc_pos s) b))"
    and "is_word_byte (b ! sc_pos s)"
  shows "scan_step b d s = scan_word b d s"
proof -
  have "b ! sc_pos s \<notin> {CHR 0x27, CHR 0x22, CHR ''`'', CHR ''-'', CHR ''#'', CHR ''/'', CHR ''$''}"
    using assms(2) by (auto simp: byte_class)
  with assms show ?thesis by (auto simp: scan_step_def Let_def)
qed

lemma scan_step_inv:
  assumes "scan_inv b s" "sc_pos s < length b"
  shows "scan_inv b (scan_step b d s) \<and> sc_pos s < sc_pos (scan_step b d s)"
proof (cases "sc_depth s = 0 \<and> prefix (sc_delim s) (drop (sc_pos s) b)")
  case True
  then have "sc_pos s + length (sc_delim s) \<le> length b"
    using assms(2) by (auto dest!: prefix_length_le)
  moreover have "spans_ok 0 (sc_out s @ [(sc_start s, sc_pos s)]) (sc_pos s + length (sc_delim s))"
    using assms(1) by (auto simp: scan_inv_def intro: spans_ok_snoc)
  ultimately show ?thesis
    using True assms(1) by (simp add: scan_step_separator scan_inv_def)
next
  case False
  show ?thesis
  proof (cases "is_word_byte (b ! sc_pos s)")
    case True
    with False assms show ?thesis by (simp add: scan_step_word scan_word_inv)
  next
    case nw: False
    from scan_step_moves_on [OF False assms(2) nw] assms(1) show ?thesis
      by (auto intro: scan_inv_moves_on simp: moves_on_def)
  qed
qed

lemma scan_inv_init: "scan_inv b scan_init"
  by (simp add: scan_inv_def scan_init_def)

lemma scan_loop_terminates: "\<exists>s. scan_loop b d = Some s"
  unfolding scan_loop_def
proof (rule measure_while_option_Some [where P = "scan_inv b" and f = "\<lambda>s. length b - sc_pos s"])
  fix s assume "scan_inv b s" "sc_pos s < length b"
  then show "scan_inv b (scan_step b d s) \<and> length b - sc_pos (scan_step b d s) < length b - sc_pos s"
    using scan_step_inv [of b s d] by (simp add: diff_less_mono2)
qed (rule scan_inv_init)

text \<open>Loop rule: what every step keeps holds where the loop stops.\<close>

lemma scan_loop_rule:
  assumes "scan_loop b d = Some t" "P scan_init"
    and "\<And>s. scan_inv b s \<Longrightarrow> P s \<Longrightarrow> sc_pos s < length b \<Longrightarrow> P (scan_step b d s)"
  shows "scan_inv b t \<and> P t \<and> sc_pos t = length b"
proof -
  have "scan_inv b t \<and> P t"
    by (rule while_option_rule [where P = "\<lambda>s. scan_inv b s \<and> P s", OF _ assms(1) [unfolded scan_loop_def]])
      (use assms scan_step_inv scan_inv_init in auto)
  moreover have "\<not> sc_pos t < length b"
    using assms(1) unfolding scan_loop_def by (rule while_option_stop)
  ultimately show ?thesis by (auto simp: scan_inv_def)
qed

lemma statement_ranges_eq:
  obtains t where "scan_loop sql d = Some t"
    "statement_ranges sql d = sc_out t @ [(sc_start t, length sql)]"
  using scan_loop_terminates [of sql d] by (auto simp: statement_ranges_def)

text \<open>
  C1. The statement scanner always terminates, whatever the script and the dialect: the loop of
  \<^verbatim>\<open>statement_ranges\<close> reaches the end of the input, and the spans it returns are in order, do not
  overlap, lie inside the script, and the last one ends where the script does.
\<close>

theorem statement_ranges_ordered:
  "(\<exists>s. scan_loop sql d = Some s \<and> sc_pos s = length sql) \<and>
   spans_ok 0 (statement_ranges sql d) (length sql) \<and>
   statement_ranges sql d \<noteq> [] \<and> snd (last (statement_ranges sql d)) = length sql"
proof (rule statement_ranges_eq [of sql d])
  fix t assume t: "scan_loop sql d = Some t"
    "statement_ranges sql d = sc_out t @ [(sc_start t, length sql)]"
  have inv: "scan_inv sql t" "sc_pos t = length sql"
    using scan_loop_rule [OF t(1), of "\<lambda>_. True"] by auto
  then have "spans_ok 0 (sc_out t @ [(sc_start t, length sql)]) (length sql)"
    by (intro spans_ok_snoc) (auto simp: scan_inv_def)
  with t inv show ?thesis by simp
qed

section \<open>Nothing is lost between the statements\<close>

definition no_directive :: "bytes \<Rightarrow> bool" where
  "no_directive b \<longleftrightarrow> list_all (\<lambda>i. \<not> directive_at b i) [0..<length b]"

definition covers :: "bytes \<Rightarrow> scan \<Rightarrow> bool" where
  "covers b s \<longleftrightarrow> sc_delim s = '';'' \<and>
     concat (map (\<lambda>(i, j). slice i j b @ '';'') (sc_out s)) = take (sc_start s) b"

lemma prefix_semicolon: "prefix '';'' (drop i b) \<longleftrightarrow> i < length b \<and> b ! i = CHR '';''"
  by (cases "i < length b") (auto simp: Cons_nth_drop_Suc [symmetric])

lemma slice_semicolon:
  "i \<le> j \<Longrightarrow> j < length b \<Longrightarrow> b ! j = CHR '';'' \<Longrightarrow> take i b @ slice i j b @ '';'' = take (j + 1) b"
  using slice_append [of 0 i j b] slice_append [of 0 j "j + 1" b]
  by (simp add: slice_def take_Suc_conv_app_nth)

lemma covers_moves_on: "covers b s \<Longrightarrow> moves_on b s t \<Longrightarrow> covers b t"
  by (simp add: covers_def moves_on_def)

lemma scan_step_covers:
  assumes "no_directive b" "scan_inv b s" "covers b s" "sc_pos s < length b"
  shows "covers b (scan_step b d s)"
proof (cases "sc_depth s = 0 \<and> prefix (sc_delim s) (drop (sc_pos s) b)")
  case True
  then have semi: "sc_delim s = '';''" "b ! sc_pos s = CHR '';''"
    using assms(3) by (auto simp: covers_def prefix_semicolon)
  have "take (sc_start s) b @ slice (sc_start s) (sc_pos s) b @ '';'' = take (sc_pos s + 1) b"
    using assms(2,4) semi(2) by (intro slice_semicolon) (auto simp: scan_inv_def)
  with True assms(3) semi show ?thesis by (simp add: scan_step_separator covers_def)
next
  case False
  have "\<not> directive_at b (sc_pos s)"
    using assms(1,4) by (simp add: no_directive_def list_all_iff)
  with False assms(4) have "moves_on b s (scan_step b d s)"
    by (cases "is_word_byte (b ! sc_pos s)")
      (simp_all add: scan_step_word scan_word_moves_on scan_step_moves_on)
  with assms(3) show ?thesis by (rule covers_moves_on)
qed

text \<open>
  C2. Splitting loses nothing: on a script with no \<^verbatim>\<open>DELIMITER\<close> directive, the text of the spans
  joined with \<^verbatim>\<open>;\<close> is the script, so no byte of it escapes the statements the gates look at.
\<close>

theorem statement_ranges_join:
  assumes "no_directive sql"
  shows "join_with '';'' (map (\<lambda>(i, j). slice i j sql) (statement_ranges sql d)) = sql"
proof (rule statement_ranges_eq [of sql d])
  fix t assume t: "scan_loop sql d = Some t"
    "statement_ranges sql d = sc_out t @ [(sc_start t, length sql)]"
  have "scan_inv sql t \<and> covers sql t \<and> sc_pos t = length sql"
    by (rule scan_loop_rule [OF t(1)])
      (simp_all add: covers_def scan_init_def scan_step_covers [unfolded covers_def] assms)
  then have c: "concat (map (\<lambda>(i, j). slice i j sql @ '';'') (sc_out t)) = take (sc_start t) sql"
    "sc_start t \<le> length sql" by (auto simp: covers_def scan_inv_def)
  have "(\<lambda>x. x @ '';'') \<circ> (\<lambda>(i, j). slice i j sql) = (\<lambda>(i, j). slice i j sql @ '';'')"
    by (auto simp: fun_eq_iff)
  with c show ?thesis
    by (simp add: t(2) join_with_snoc) (simp add: slice_def)
qed

theorem statement_ranges_join_witness:
  "no_directive ''SELECT 1; DROP TABLE t'' \<and>
   join_with '';'' (map (\<lambda>(i, j). slice i j ''SELECT 1; DROP TABLE t'')
     (statement_ranges ''SELECT 1; DROP TABLE t'' PostgresD)) = ''SELECT 1; DROP TABLE t''"
proof -
  have h: "no_directive ''SELECT 1; DROP TABLE t''" by code_simp
  show ?thesis using h statement_ranges_join [OF h, of PostgresD] by (rule conjI)
qed

end
