(* ===== verification/Sql_Strip.thy ===== *)
theory Sql_Strip
  imports Sql_Lex
begin

text \<open>
  \<^verbatim>\<open>strip_noise\<close> of \<^verbatim>\<open>crates/red-core/src/sql.rs\<close>: the copy of a statement in which literals, quoted
  identifiers and comments are blanked, which every safety gate scans. The theorems are the ones
  its callers rely on: it keeps the byte length and every offset, it changes a byte only into a
  space, its UTF-8 fallback is never taken, and a literal quoted by doubling is blanked exactly.
\<close>

section \<open>Definitions\<close>

definition blank_byte :: "char \<Rightarrow> char" where
  "blank_byte c = (if c = CHR 0x0A then CHR 0x0A else CHR 0x20)"

definition blank_span :: "bytes \<Rightarrow> nat \<Rightarrow> nat \<Rightarrow> bytes" where
  "blank_span b from to = map blank_byte (slice from to b)"

lemma length_blank_span [simp]: "length (blank_span b from to) = min (to - from) (length b - from)"
  by (simp add: blank_span_def)

text \<open>
  \<^verbatim>\<open>strip_into(out, b, i..stop, dialect)\<close> as the bytes it appends to \<^verbatim>\<open>out\<close>. The recursion is the
  loop over \<^verbatim>\<open>i\<close> and, for a MySQL executable comment, the call on its body.
\<close>

definition exec_body :: "bytes \<Rightarrow> nat \<Rightarrow> nat \<Rightarrow> nat" where
  "exec_body b i close = min (exec_comment_body b i) close"

definition exec_body_end :: "bytes \<Rightarrow> nat \<Rightarrow> nat \<Rightarrow> nat" where
  "exec_body_end b body close =
     max (if suffix ''*/'' (take close b) then close - 2 else close) body"

lemma executable_comment_length: "executable_comment_at d b i \<Longrightarrow> i + 3 \<le> length b"
  by (auto simp: executable_comment_at_def dest: prefix_length_le)

lemma exec_close_gt:
  "executable_comment_at d b i \<Longrightarrow> i < stop \<Longrightarrow> i < min (skip_block_comment b i d) stop"
  using block_comment_advances [of i b d] executable_comment_length [of d b i] by simp

lemma exec_body_bounds: "i < close \<Longrightarrow> i < exec_body b i close \<and> exec_body b i close \<le> close"
  using skip_while_ge [of "i + 3" is_ascii_digit b]
  by (simp add: exec_body_def exec_comment_body_def less_le_trans [of i "i + 3"])

lemma exec_body_end_bounds:
  "body \<le> close \<Longrightarrow> body \<le> exec_body_end b body close \<and> exec_body_end b body close \<le> close"
  by (simp add: exec_body_end_def)

function strip_into :: "bytes \<Rightarrow> dialect \<Rightarrow> nat \<Rightarrow> nat \<Rightarrow> bytes" where
  "strip_into b d i stop =
     (if i < stop \<and> stop \<le> length b then
        let c = b ! i in
        if c = CHR 0x27 \<or> c = CHR 0x22 \<or> c = CHR ''`'' then
          let j = min (skip_quoted b i c (quote_escapes b i c d)) stop
          in blank_span b i j @ strip_into b d j stop
        else if c = CHR ''-'' \<and> dash_comment_at d b i then
          let j = min (line_comment_end b (i + 2)) stop
          in blank_span b i j @ strip_into b d j stop
        else if c = CHR ''#'' \<and> hash_comments d then
          let j = min (line_comment_end b (i + 1)) stop
          in blank_span b i j @ strip_into b d j stop
        else if c = CHR ''/'' \<and> executable_comment_at d b i then
          let close = min (skip_block_comment b i d) stop;
              body = exec_body b i close;
              body_end = exec_body_end b body close
          in blank_span b i body @ strip_into b d body body_end
             @ blank_span b body_end close @ strip_into b d close stop
        else if c = CHR ''/'' \<and> i + 1 < stop \<and> b ! (i + 1) = CHR ''*'' then
          let j = min (skip_block_comment b i d) stop
          in blank_span b i j @ strip_into b d j stop
        else if c = CHR ''$'' \<and> dollar_quotes d then
          (case dollar_quote_end b i of
             Some e \<Rightarrow> let j = min e stop in blank_span b i j @ strip_into b d j stop
           | None \<Rightarrow> CHR ''$'' # strip_into b d (i + 1) stop)
        else c # strip_into b d (i + 1) stop
      else [])"
  by pat_completeness auto
termination
proof (relation "measure (\<lambda>(b, d, i, stop). stop - i)", goal_cases)
  case 1 show ?case by simp
next
  case (2 b d i stop c j)
  then show ?case using skip_quoted_gt [of i b c] by (simp add: diff_less_mono2)
next
  case (3 b d i stop c j)
  then show ?case using dash_comment_advances [of d b i] by (simp add: diff_less_mono2)
next
  case (4 b d i stop c j)
  then show ?case using hash_comment_advances [of i b] by (simp add: diff_less_mono2)
next
  case (5 b d i stop c close body body_end)
  then have "i < close" "close \<le> stop" using exec_close_gt [of d b i stop] by auto
  moreover from \<open>i < close\<close> have "i < body" "body \<le> close"
    using exec_body_bounds [of i close b] 5 by auto
  moreover from \<open>body \<le> close\<close> have "body_end \<le> close"
    using exec_body_end_bounds [of body close b] 5 by auto
  ultimately have "body_end - body < stop - i" by linarith
  then show ?case by simp
next
  case (6 b d i stop c close body body_end)
  then show ?case using exec_close_gt [of d b i stop] by (simp add: diff_less_mono2)
next
  case (7 b d i stop c j)
  then show ?case using block_comment_advances [of i b d] by (simp add: diff_less_mono2)
next
  case (8 b d i stop c)
  then have "stop - (i + 1) < stop - i" by linarith
  then show ?case by simp
next
  case (9 b d i stop c e j)
  then show ?case using dollar_quote_end_bounds [of b i e] by (simp add: diff_less_mono2)
next
  case (10 b d i stop c)
  then have "stop - (i + 1) < stop - i" by linarith
  then show ?case by simp
qed

declare strip_into.simps [simp del]

text \<open>\<^verbatim>\<open>strip_noise\<close>, with the fallback its comment calls unreachable.\<close>

definition strip_noise :: "string \<Rightarrow> dialect \<Rightarrow> string" where
  "strip_noise sql d =
     (let out = strip_into sql d 0 (length sql)
      in if valid_utf8 out then out else sql)"

section \<open>The three arms of the loop\<close>

text \<open>
  Apart from the executable comment, an arm of the loop either blanks a span or copies a byte.
  \<open>noise_end\<close> is where the span at \<open>i\<close> ends, \<open>None\<close> when the byte is copied.
\<close>

definition noise_end :: "bytes \<Rightarrow> dialect \<Rightarrow> nat \<Rightarrow> nat \<Rightarrow> nat option" where
  "noise_end b d i stop =
     (let c = b ! i in
      if c = CHR 0x27 \<or> c = CHR 0x22 \<or> c = CHR ''`''
      then Some (skip_quoted b i c (quote_escapes b i c d))
      else if c = CHR ''-'' \<and> dash_comment_at d b i then Some (line_comment_end b (i + 2))
      else if c = CHR ''#'' \<and> hash_comments d then Some (line_comment_end b (i + 1))
      else if c = CHR ''/'' \<and> i + 1 < stop \<and> b ! (i + 1) = CHR ''*''
      then Some (skip_block_comment b i d)
      else if c = CHR ''$'' \<and> dollar_quotes d then dollar_quote_end b i
      else None)"

lemma noise_end_gt:
  "noise_end b d i stop = Some e \<Longrightarrow> i < stop \<Longrightarrow> stop \<le> length b \<Longrightarrow> i < e"
  using skip_quoted_gt [of i b] dash_comment_advances [of d b i] hash_comment_advances [of i b]
    block_comment_advances [of i b d] dollar_quote_end_bounds [of b i e]
  by (auto simp: noise_end_def Let_def split: if_splits)

lemma executable_comment_slash: "executable_comment_at d b i \<Longrightarrow> b ! i = CHR ''/''"
  by (auto simp: executable_comment_at_def prefix_def)
    (metis append_Cons drop_eq_Nil hd_drop_conv_nth leI list.distinct(1) list.sel(1))

lemma strip_into_stop: "\<not> (i < stop \<and> stop \<le> length b) \<Longrightarrow> strip_into b d i stop = []"
  by (subst strip_into.simps) (rule if_not_P)

lemma strip_into_exec:
  assumes "i < stop" "stop \<le> length b" "executable_comment_at d b i"
    and "close = min (skip_block_comment b i d) stop" "body = exec_body b i close"
    and "body_end = exec_body_end b body close"
  shows "strip_into b d i stop = blank_span b i body @ strip_into b d body body_end
           @ blank_span b body_end close @ strip_into b d close stop"
  using assms executable_comment_slash [OF assms(3)]
  by (subst strip_into.simps) (simp add: Let_def)

lemma strip_into_byte:
  assumes "i < stop" "stop \<le> length b" "\<not> executable_comment_at d b i"
  shows "strip_into b d i stop =
    (case noise_end b d i stop of
       Some e \<Rightarrow> blank_span b i (min e stop) @ strip_into b d (min e stop) stop
     | None \<Rightarrow> b ! i # strip_into b d (i + 1) stop)"
  using assms
  by (simp add: strip_into.simps [of b d i stop] noise_end_def Let_def del: One_nat_def Suc_eq_plus1
      split: option.split)

lemma strip_into_noise:
  assumes "i < stop" "stop \<le> length b" "\<not> executable_comment_at d b i"
    and "noise_end b d i stop = Some e"
  shows "strip_into b d i stop = blank_span b i (min e stop) @ strip_into b d (min e stop) stop"
  unfolding strip_into_byte [OF assms(1-3)] assms(4) by (rule option.case)

lemma strip_into_plain:
  assumes "i < stop" "stop \<le> length b" "\<not> executable_comment_at d b i"
    and "noise_end b d i stop = None"
  shows "strip_into b d i stop = b ! i # strip_into b d (i + 1) stop"
  unfolding strip_into_byte [OF assms(1-3)] assms(4) by (rule option.case)

text \<open>Induction over a run of the loop, one case per arm.\<close>

lemma strip_into_induct [case_names stop exec noise plain]:
  assumes stop: "\<And>i stop. \<not> (i < stop \<and> stop \<le> length b) \<Longrightarrow> P i stop"
    and exec: "\<And>i stop close body body_end. i < stop \<Longrightarrow> stop \<le> length b \<Longrightarrow>
      executable_comment_at d b i \<Longrightarrow> close = min (skip_block_comment b i d) stop \<Longrightarrow>
      body = exec_body b i close \<Longrightarrow> body_end = exec_body_end b body close \<Longrightarrow>
      i < body \<Longrightarrow> body \<le> body_end \<Longrightarrow> body_end \<le> close \<Longrightarrow> close \<le> stop \<Longrightarrow>
      P body body_end \<Longrightarrow> P close stop \<Longrightarrow> P i stop"
    and noise: "\<And>i stop e. i < stop \<Longrightarrow> stop \<le> length b \<Longrightarrow> \<not> executable_comment_at d b i \<Longrightarrow>
      noise_end b d i stop = Some e \<Longrightarrow> i < e \<Longrightarrow> P (min e stop) stop \<Longrightarrow> P i stop"
    and plain: "\<And>i stop. i < stop \<Longrightarrow> stop \<le> length b \<Longrightarrow> \<not> executable_comment_at d b i \<Longrightarrow>
      noise_end b d i stop = None \<Longrightarrow> P (i + 1) stop \<Longrightarrow> P i stop"
  shows "P i stop"
proof (induction "stop - i" arbitrary: i stop rule: less_induct)
  case less
  show ?case
  proof (cases "i < stop \<and> stop \<le> length b")
    case False
    then show ?thesis by (rule stop)
  next
    case True
    then have lt: "i < stop" "stop \<le> length b" by auto
    show ?thesis
    proof (cases "executable_comment_at d b i")
      case x: True
      define close body body_end where "close = min (skip_block_comment b i d) stop"
        and "body = exec_body b i close" and "body_end = exec_body_end b body close"
      note defs = this
      have c: "i < close" "close \<le> stop" using exec_close_gt [OF x lt(1)] by (auto simp: defs)
      have bdy: "i < body" "body \<le> close" using exec_body_bounds [OF c(1)] by (auto simp: defs)
      have be: "body \<le> body_end" "body_end \<le> close"
        using exec_body_end_bounds [OF bdy(2)] by (auto simp: defs)
      show ?thesis
      proof (rule exec [OF lt x defs bdy(1) be c(2)])
        show "P body body_end" by (rule less) (use c bdy be in linarith)
        show "P close stop" by (rule less) (use c in linarith)
      qed
    next
      case nx: False
      show ?thesis
      proof (cases "noise_end b d i stop")
        case None
        show ?thesis by (rule plain [OF lt nx None]) (rule less, use lt in simp)
      next
        case (Some e)
        then have "i < e" using lt noise_end_gt by blast
        show ?thesis
          by (rule noise [OF lt nx Some \<open>i < e\<close>]) (rule less, use \<open>i < e\<close> lt in simp)
      qed
    qed
  qed
qed

section \<open>Offsets are preserved\<close>

lemma length_strip_into: "stop \<le> length b \<Longrightarrow> length (strip_into b d i stop) = stop - i"
proof (induction i stop rule: strip_into_induct [where b = b and d = d])
  case (stop i stop)
  then show ?case by (simp add: strip_into_stop)
next
  case (exec i stop close body body_end)
  have len: "body_end \<le> length b" "close \<le> length b"
    using exec(2,9,10) by linarith+
  show ?case
    unfolding strip_into_exec [OF exec(1-6)] length_append length_blank_span
      exec.IH(1) [OF len(1)] exec.IH(2) [OF exec(2)]
    using exec(2,7-10) by simp
next
  case (noise i stop e)
  then show ?case by (simp add: strip_into_noise)
next
  case (plain i stop)
  then show ?case by (simp add: strip_into_plain)
qed

text \<open>Every byte of the result is the byte of the source there, or a space where it was blanked.\<close>

definition blanked :: "char \<Rightarrow> char \<Rightarrow> bool" where
  "blanked c c' \<longleftrightarrow> c' = c \<or> c' = CHR 0x20 \<and> c \<noteq> CHR 0x0A"

lemma blanked_span: "list_all2 blanked (slice i j b) (blank_span b i j)"
  by (auto simp: list_all2_conv_all_nth blank_span_def blanked_def blank_byte_def)

lemma slice_split:
  "i \<le> j \<Longrightarrow> j \<le> k \<Longrightarrow> slice i k b = slice i j b @ slice j k b"
  by (simp add: slice_append)

lemma slice_Suc_left: "i < k \<Longrightarrow> k \<le> length b \<Longrightarrow> slice i k b = b ! i # slice (i + 1) k b"
  by (simp add: slice_def Cons_nth_drop_Suc [symmetric] take_Cons' Suc_diff_Suc)

lemma blanked_strip_into:
  "stop \<le> length b \<Longrightarrow> list_all2 blanked (slice i stop b) (strip_into b d i stop)"
proof (induction i stop rule: strip_into_induct [where b = b and d = d])
  case (stop i stop)
  then show ?case by (simp add: strip_into_stop)
next
  case (exec i stop close body body_end)
  have len: "body_end \<le> length b" "close \<le> length b"
    using exec(2,9,10) by linarith+
  from exec(7-10) have "slice i stop b =
      slice i body b @ slice body body_end b @ slice body_end close b @ slice close stop b"
    by (simp add: slice_append)
  then show ?case
    unfolding strip_into_exec [OF exec(1-6)]
    by (simp only:) (intro list_all2_appendI blanked_span exec.IH len exec(2))
next
  case (noise i stop e)
  then have "slice i stop b = slice i (min e stop) b @ slice (min e stop) stop b"
    by (simp add: slice_append)
  with noise show ?case by (simp add: strip_into_noise list_all2_appendI blanked_span)
next
  case (plain i stop)
  then show ?case by (simp add: strip_into_plain slice_Suc_left blanked_def)
qed

section \<open>The result is valid UTF-8\<close>

lemma ascii_literals [simp]:
  "is_ascii CHR 0x27" "is_ascii CHR 0x22" "is_ascii CHR 0x60" "is_ascii CHR 0x0A"
  "is_ascii CHR 0x20" "is_ascii CHR 0x2F" "is_ascii CHR 0x24" "is_ascii CHR 0x2D"
  "is_ascii CHR 0x23" "is_ascii CHR 0x2A" "is_ascii CHR 0x21" "is_ascii CHR 0x3B"
  by (simp_all add: is_ascii_def)

lemma ascii_digit [simp]: "is_ascii_digit c \<Longrightarrow> is_ascii c"
  by (simp add: byte_class)

lemma ascii_word_byte [simp]: "is_word_byte c \<Longrightarrow> is_ascii c"
  by (auto simp: byte_class)

lemma noise_start_ascii: "noise_end b d i stop = Some e \<Longrightarrow> is_ascii (b ! i)"
  by (auto simp: noise_end_def Let_def split: if_splits)

lemma noise_end_boundary:
  assumes "valid_utf8 b" "noise_end b d i stop = Some e" "i < stop" "stop \<le> length b"
  shows "is_char_boundary b e"
proof (cases "e = length b")
  case False
  have after: "is_char_boundary b (k + 1)" if "k < length b" "is_ascii (b ! k)" for k
    using assms(1) that by (rule char_boundary_after_ascii)
  from assms(2) consider
      (quote) x where "e = skip_quoted b i (b ! i) x"
    | (line) f where "e = line_comment_end b f"
    | (block) "e = skip_block_comment b i d"
    | (dollar) "dollar_quote_end b i = Some e"
    unfolding noise_end_def Let_def by (metis option.inject option.distinct(1))
  then show ?thesis
  proof cases
    case quote
    with False obtain k where "k < length b" "b ! k = b ! i" "e = k + 1"
      using skip_quoted_last [of b i "b ! i" x] by auto
    then show ?thesis using after [of k] noise_start_ascii [OF assms(2)] by simp
  next
    case line
    with False line_comment_end_last [of b f] show ?thesis by auto
  next
    case block
    with False obtain k where "k + 1 < length b" "b ! (k + 1) = CHR ''/''" "e = (k + 1) + 1"
      using skip_block_comment_last [of b i d] by auto
    then show ?thesis using after [of "k + 1"] by simp
  next
    case dollar
    with False assms(3,4) dollar_quote_end_last [of b i e] after show ?thesis by auto
  qed
qed simp

lemma char_boundary_min:
  "is_char_boundary b i \<Longrightarrow> is_char_boundary b j \<Longrightarrow> is_char_boundary b (min i j)"
  by (simp add: min_def)

lemma exec_comment_bytes:
  assumes "executable_comment_at d b i"
  shows "i + 2 < length b \<and> b ! (i + 2) = CHR ''!''"
proof -
  obtain r where r: "drop i b = CHR ''/'' # CHR ''*'' # CHR ''!'' # r"
    using assms by (auto simp: executable_comment_at_def prefix_def)
  then have "drop i b ! 2 = CHR ''!''" by simp
  moreover have len: "i + 2 < length b" using r executable_comment_length [OF assms] by simp
  ultimately show ?thesis by simp
qed

lemma exec_comment_body_boundary:
  assumes "valid_utf8 b" "executable_comment_at d b i"
  shows "is_char_boundary b (exec_comment_body b i)"
proof -
  let ?e = "exec_comment_body b i"
  have ge: "i + 3 \<le> ?e" by (simp add: exec_comment_body_def)
  have ex: "i + 2 < length b" "b ! (i + 2) = CHR ''!''" using exec_comment_bytes [OF assms(2)] by auto
  have "?e - 1 < length b \<and> is_ascii (b ! (?e - 1))"
  proof (cases "?e = i + 3")
    case False
    then have "i + 3 \<le> ?e - 1" "?e - 1 < ?e" using ge by linarith+
    then show ?thesis
      using skip_while_skipped [of "i + 3" "?e - 1" is_ascii_digit b]
      by (simp add: exec_comment_body_def)
  qed (use ex in simp)
  then have "is_char_boundary b (?e - 1 + 1)"
    using char_boundary_after_ascii [OF assms(1)] by blast
  then show ?thesis using ge by simp
qed

lemma exec_body_end_boundary:
  assumes "is_char_boundary b body" "is_char_boundary b close" "close \<le> length b"
  shows "is_char_boundary b (exec_body_end b body close)"
proof -
  have "is_char_boundary b (close - 2)" if "suffix ''*/'' (take close b)"
  proof -
    from that obtain xs where xs: "take close b = xs @ ''*/''" by (auto simp: suffix_def)
    then have l: "length xs = close - 2" "2 \<le> close"
      using assms(3) by (auto dest!: arg_cong [of _ _ length])
    then have "take close b ! (close - 2) = CHR ''*''"
      unfolding xs using l by (simp add: nth_append)
    then have "b ! (close - 2) = CHR ''*''" using l by simp
    then show ?thesis using l assms(3) by (intro char_boundary_ascii) auto
  qed
  then show ?thesis
    using assms by (simp add: exec_body_end_def max_def)
qed

lemma valid_blank_span [simp]: "valid_utf8 (blank_span b i j)"
  by (rule valid_utf8_ascii) (auto simp: blank_span_def blank_byte_def list_all_iff)

text \<open>
  A multi-byte character is copied byte by byte, so the induction carries the part of it that is
  already copied: the text from the last boundary \<open>k\<close> to \<open>i\<close>.
\<close>

lemma valid_strip_into:
  assumes b: "valid_utf8 b"
  shows "stop \<le> length b \<Longrightarrow> i \<le> stop \<Longrightarrow> is_char_boundary b stop \<Longrightarrow>
    k \<le> i \<Longrightarrow> is_char_boundary b k \<Longrightarrow> valid_utf8 (slice k i b @ strip_into b d i stop)"
proof (induction i stop arbitrary: k rule: strip_into_induct [where b = b and d = d])
  case (stop i stop)
  then show ?case using valid_utf8_slice [OF b, of k i] by (simp add: strip_into_stop)
next
  case (exec i stop close body body_end)
  have len: "body_end \<le> length b" "close \<le> length b"
    using exec(2,9,10) by linarith+
  have i: "is_char_boundary b i"
    using exec(1,2) executable_comment_slash [OF exec(3)] by (intro char_boundary_ascii) auto
  have cl: "is_char_boundary b close"
  proof -
    have "is_char_boundary b (skip_block_comment b i d)"
    proof (cases "skip_block_comment b i d = length b")
      case False
      then obtain m where "m + 1 < length b" "b ! (m + 1) = CHR ''/''"
          "skip_block_comment b i d = (m + 1) + 1"
        using skip_block_comment_last [of b i d] by auto
      then show ?thesis using char_boundary_after_ascii [OF b, of "m + 1"] by simp
    qed simp
    then show ?thesis unfolding exec(4) using exec.prems(3) by (rule char_boundary_min)
  qed
  have bd: "is_char_boundary b body"
    unfolding exec(5) exec_body_def
    by (rule char_boundary_min [OF exec_comment_body_boundary [OF b exec(3)] cl])
  have be: "is_char_boundary b body_end"
    unfolding exec(6) by (rule exec_body_end_boundary [OF bd cl len(2)])
  have "valid_utf8 (slice body body b @ strip_into b d body body_end)"
    by (rule exec.IH(1) [OF len(1) exec(8) be order_refl bd])
  moreover have "valid_utf8 (slice close close b @ strip_into b d close stop)"
    by (rule exec.IH(2) [OF exec(2,10) exec.prems(3) order_refl cl])
  moreover have "valid_utf8 (slice k i b)"
    using valid_utf8_slice [OF b exec.prems(5) i exec.prems(4)] exec(1,2) by simp
  ultimately show ?case
    unfolding strip_into_exec [OF exec(1-6)] by simp
next
  case (noise i stop e)
  have i: "is_char_boundary b i"
    using noise(1,2) noise_start_ascii [OF noise(4)] by (intro char_boundary_ascii) auto
  have e: "is_char_boundary b (min e stop)"
    using noise_end_boundary [OF b noise(4,1,2)] noise.prems(3) by (rule char_boundary_min)
  have "valid_utf8 (slice (min e stop) (min e stop) b @ strip_into b d (min e stop) stop)"
    by (rule noise.IH [OF noise(2) _ noise.prems(3) order_refl e]) simp
  moreover have "valid_utf8 (slice k i b)"
    using valid_utf8_slice [OF b noise.prems(5) i noise.prems(4)] noise(1,2) by simp
  ultimately show ?case
    unfolding strip_into_noise [OF noise(1-4)] by simp
next
  case (plain i stop)
  have "slice k (i + 1) b = slice k i b @ [b ! i]"
    using plain(1,2) plain.prems(4) slice_append [of k i "i + 1" b] slice_Suc_left [of i "i + 1" b]
    by simp
  moreover have "valid_utf8 (slice k (i + 1) b @ strip_into b d (i + 1) stop)"
    using plain by (intro plain.IH) auto
  ultimately show ?case unfolding strip_into_plain [OF plain(1-4)] by simp
qed

lemma strip_noise_eq:
  assumes "valid_utf8 sql"
  shows "strip_noise sql d = strip_into sql d 0 (length sql)"
  using valid_strip_into [OF assms, of "length sql" 0 0 d]
  by (simp add: strip_noise_def is_char_boundary_def)

lemma length_strip_noise [simp]: "length (strip_noise sql d) = length sql"
  by (simp add: strip_noise_def Let_def length_strip_into)

section \<open>Properties\<close>

lemma blanked_strip_noise: "list_all2 blanked sql (strip_noise sql d)"
proof -
  have "list_all2 blanked sql sql" by (auto simp: list_all2_conv_all_nth blanked_def)
  then show ?thesis
    using blanked_strip_into [of "length sql" sql 0 d] by (simp add: strip_noise_def Let_def)
qed

lemma strip_noise_nth:
  assumes "i < length sql" "strip_noise sql d ! i \<noteq> CHR 0x20"
  shows "strip_noise sql d ! i = sql ! i"
  using blanked_strip_noise [of sql d] assms by (auto simp: list_all2_conv_all_nth blanked_def)

text \<open>
  C4. \<^verbatim>\<open>strip_noise\<close> keeps offsets: its result has the byte length of the statement, and each byte of
  it is the byte of the statement at that offset or, where that is not a newline, a space. Callers
  slice the statement at offsets they found in the stripped copy.
\<close>

theorem strip_noise_offsets:
  "length (strip_noise sql d) = length sql \<and>
   (\<forall>i < length sql. strip_noise sql d ! i = sql ! i \<or>
      strip_noise sql d ! i = CHR 0x20 \<and> sql ! i \<noteq> CHR 0x0A)"
  using blanked_strip_noise [of sql d] by (auto simp: list_all2_conv_all_nth blanked_def)

lemma strip_noise_offsets_witness:
  "(1 :: nat) < length ''a -- b'' \<and> length (strip_noise ''a -- b'' PostgresD) = 6 \<and>
   (strip_noise ''a -- b'' PostgresD ! 1 = ''a -- b'' ! 1 \<or> strip_noise ''a -- b'' PostgresD ! 1 = CHR 0x20)"
  using strip_noise_offsets [of "''a -- b''" PostgresD] by auto

text \<open>
  The fallback of \<^verbatim>\<open>strip_noise\<close> to the unstripped text is dead code: on a Rust string, which is
  valid UTF-8, blanking never splits a character, so the bytes pushed are valid UTF-8.
\<close>

theorem strip_noise_fallback_unreachable:
  "valid_utf8 sql \<Longrightarrow>
     valid_utf8 (strip_into sql d 0 (length sql)) \<and>
     strip_noise sql d = strip_into sql d 0 (length sql)"
  using valid_strip_into [of sql "length sql" 0 0 d]
  by (simp add: strip_noise_def is_char_boundary_def)

lemma strip_noise_fallback_unreachable_witness:
  "valid_utf8 [CHR 0x27, CHR 0xC3, CHR 0xA9, CHR 0x27] \<and>
   strip_noise [CHR 0x27, CHR 0xC3, CHR 0xA9, CHR 0x27] PostgresD =
     strip_into [CHR 0x27, CHR 0xC3, CHR 0xA9, CHR 0x27] PostgresD 0
       (length [CHR 0x27, CHR 0xC3, CHR 0xA9, CHR 0x27])"
proof -
  have v: "valid_utf8 [CHR 0x27, CHR 0xC3, CHR 0xA9, CHR 0x27]" by code_simp
  from strip_noise_fallback_unreachable [OF v, of PostgresD] v show ?thesis by blast
qed

text \<open>A literal as SQL writes it: the quote character inside it is doubled.\<close>

fun double_quotes :: "char \<Rightarrow> string \<Rightarrow> string" where
  "double_quotes q [] = []"
| "double_quotes q (c # s) = (if c = q then [q, q] else [c]) @ double_quotes q s"

lemma skip_quoted_from_step:
  "j < length b \<Longrightarrow> b ! j \<noteq> q \<Longrightarrow> b ! j \<noteq> CHR 0x5C \<or> \<not> esc \<Longrightarrow>
     skip_quoted_from b q esc j = skip_quoted_from b q esc (j + 1)"
  by (subst skip_quoted_from.simps) auto

lemma skip_quoted_from_double:
  "j + 1 < length b \<Longrightarrow> b ! j = q \<Longrightarrow> b ! (j + 1) = q \<Longrightarrow>
     skip_quoted_from b q esc j = skip_quoted_from b q esc (j + 2)"
  by (subst skip_quoted_from.simps) auto

lemma skip_quoted_from_close:
  "j < length b \<Longrightarrow> b ! j = q \<Longrightarrow> \<not> (j + 1 < length b \<and> b ! (j + 1) = q) \<Longrightarrow>
     skip_quoted_from b q esc j = j + 1"
  by (subst skip_quoted_from.simps) auto

lemma skip_quoted_doubled:
  assumes r: "r = [] \<or> hd r \<noteq> q" and q: "q \<noteq> CHR 0x5C"
  shows "CHR 0x5C \<notin> set s \<or> \<not> esc \<Longrightarrow>
    skip_quoted_from (x @ double_quotes q s @ q # r) q esc (length x) =
      length x + length (double_quotes q s) + 1"
proof (induction s arbitrary: x)
  case Nil
  then show ?case
    using r by (cases r) (simp_all add: skip_quoted_from_close nth_append)
next
  case (Cons c s)
  let ?b = "x @ double_quotes q (c # s) @ q # r"
  show ?case
  proof (cases "c = q")
    case True
    then have "skip_quoted_from ?b q esc (length x) = skip_quoted_from ?b q esc (length x + 2)"
      by (intro skip_quoted_from_double) (simp_all add: nth_append)
    moreover have "CHR 0x5C \<notin> set s \<or> \<not> esc" using Cons.prems by auto
    ultimately show ?thesis using True Cons.IH [of "x @ [q, q]"] by simp
  next
    case False
    then have "skip_quoted_from ?b q esc (length x) = skip_quoted_from ?b q esc (length x + 1)"
      using Cons.prems by (intro skip_quoted_from_step) auto
    moreover have "CHR 0x5C \<notin> set s \<or> \<not> esc" using Cons.prems by auto
    ultimately show ?thesis using False Cons.IH [of "x @ [c]"] by simp
  qed
qed

text \<open>Bytes at which the scanner never opens a construct.\<close>

definition opener :: "char \<Rightarrow> bool" where
  "opener c \<longleftrightarrow> c \<in> set [CHR 0x27, CHR 0x22, CHR ''`'', CHR ''-'', CHR ''#'', CHR ''/'', CHR ''$'']"

lemma not_opener_plain:
  assumes "i < length b" "\<not> opener (b ! i)"
  shows "\<not> executable_comment_at d b i" "noise_end b d i stop = None"
proof -
  show "\<not> executable_comment_at d b i"
    using assms executable_comment_slash [of d b i] by (auto simp: opener_def)
  show "noise_end b d i stop = None"
    using assms(2) by (auto simp: noise_end_def Let_def opener_def)
qed

lemma strip_into_plain_prefix:
  "i \<le> length p \<Longrightarrow> (\<forall>c \<in> set p. \<not> opener c) \<Longrightarrow>
     strip_into (p @ b) d i (length (p @ b)) = drop i p @ strip_into (p @ b) d (length p) (length (p @ b))"
proof (induction "length p - i" arbitrary: i)
  case (Suc n)
  then have i: "i < length p" by simp
  have "\<not> opener ((p @ b) ! i)" using i Suc.prems by (simp add: nth_append)
  note plain = not_opener_plain [OF _ this]
  have "strip_into (p @ b) d i (length (p @ b)) =
      p ! i # strip_into (p @ b) d (i + 1) (length (p @ b))"
    using i plain by (subst strip_into_plain) (simp_all add: nth_append)
  moreover have "drop i p = p ! i # drop (i + 1) p" using i by (simp add: Cons_nth_drop_Suc)
  ultimately show ?case using Suc by (simp del: length_append)
qed simp

text \<open>
  What stands inside a literal is invisible to the gates: after text with no opening byte, a
  literal or quoted identifier whose inner quotes are doubled (and whose backslashes, if any, do not
  escape in the dialect) is blanked from its opening to its closing quote and not a byte further,
  whatever it contains, and the text before it is kept.
\<close>

theorem strip_noise_hides_literal:
  assumes "valid_utf8 (p @ q # double_quotes q s @ q # r)"
    and "q \<in> {CHR 0x27, CHR 0x22, CHR ''`''}"
    and "\<forall>c \<in> set p. \<not> opener c"
    and "r = [] \<or> hd r \<noteq> q"
    and "CHR 0x5C \<notin> set s \<or>
      \<not> quote_escapes (p @ q # double_quotes q s @ q # r) (length p) q d"
  shows "take (length p + length (double_quotes q s) + 2)
      (strip_noise (p @ q # double_quotes q s @ q # r) d) =
    p @ map blank_byte (q # double_quotes q s @ [q])"
proof -
  let ?b = "p @ q # double_quotes q s @ q # r"
  let ?j = "length p + length (double_quotes q s) + 2"
  have q: "?b ! length p = q" by simp
  have "skip_quoted ?b (length p) q (quote_escapes ?b (length p) q d) = ?j"
    using skip_quoted_doubled [OF assms(4), of s "quote_escapes ?b (length p) q d" "p @ [q]"] assms(2,5)
    by (auto simp: skip_quoted_def)
  then have e: "noise_end ?b d (length p) (length ?b) = Some ?j"
    using assms(2) by (simp add: noise_end_def q)
  have nx: "\<not> executable_comment_at d ?b (length p)"
    using executable_comment_slash [of d ?b "length p"] assms(2) by auto
  have sp: "blank_span ?b (length p) ?j = map blank_byte (q # double_quotes q s @ [q])"
    by (simp add: blank_span_def slice_def)
  have "strip_noise ?b d = p @ strip_into ?b d (length p) (length ?b)"
    using strip_into_plain_prefix [of 0 p "q # double_quotes q s @ q # r" d] assms(1,3)
    by (simp add: strip_noise_eq)
  also have "strip_into ?b d (length p) (length ?b) =
      map blank_byte (q # double_quotes q s @ [q]) @ strip_into ?b d ?j (length ?b)"
    using strip_into_noise [OF _ _ nx e] sp by simp
  finally show ?thesis by simp
qed

lemma strip_noise_hides_literal_witness:
  "take 18 (strip_noise (''update t set a='' @ CHR 0x27 # double_quotes CHR 0x27 ''x'' @ CHR 0x27 # '' '') MySqlD) =
     ''update t set a=   ''"
proof -
  have h: "valid_utf8 (''update t set a='' @ CHR 0x27 # double_quotes CHR 0x27 ''x'' @ CHR 0x27 # '' '')"
    by code_simp
  have pl: "\<forall>c \<in> set ''update t set a=''. \<not> opener c" by code_simp
  from strip_noise_hides_literal [OF h _ pl, of MySqlD] show ?thesis
    by (simp add: blank_byte_def numeral_eq_Suc)
qed

end
