(* ===== verification/Sql_Agree.thy ===== *)
theory Sql_Agree
  imports Sql_Split Sql_Strip
begin

text \<open>
  The two scanners of \<^verbatim>\<open>crates/red-core/src/sql.rs\<close> side by side: the module documentation requires
  that \<^verbatim>\<open>statement_ranges\<close> and \<^verbatim>\<open>strip_noise\<close> never disagree about where a literal or a comment
  ends. The contract the gates rest on is that a \<^verbatim>\<open>;\<close> is a statement boundary exactly when it
  survives stripping.
\<close>

section \<open>Stripping, one scanner step at a time\<close>

lemma word_byte_not_noise:
  "is_word_byte (b ! i) \<Longrightarrow> noise_end b d i stop = None \<and> \<not> executable_comment_at d b i"
proof -
  assume w: "is_word_byte (b ! i)"
  then have "b ! i \<notin> {CHR 0x27, CHR 0x22, CHR ''`'', CHR ''-'', CHR ''#'', CHR ''/'', CHR ''$''}"
    by (auto simp: byte_class)
  then show ?thesis
    using executable_comment_slash [of d b i] by (auto simp: noise_end_def Let_def)
qed

lemma strip_into_words:
  assumes "i \<le> e" "e \<le> stop" "stop \<le> length b"
    and "\<And>k. i \<le> k \<Longrightarrow> k < e \<Longrightarrow> is_word_byte (b ! k)"
  shows "strip_into b d i stop = slice i e b @ strip_into b d e stop"
  using assms
proof (induction "e - i" arbitrary: i)
  case 0
  then show ?case by simp
next
  case (Suc n)
  then have lt: "i < e" by simp
  have "strip_into b d i stop = b ! i # strip_into b d (i + 1) stop"
    using lt Suc.prems word_byte_not_noise [of b i d stop] by (intro strip_into_plain) auto
  also have "strip_into b d (i + 1) stop = slice (i + 1) e b @ strip_into b d e stop"
    using Suc.hyps(2) Suc.prems lt by (intro Suc.hyps(1)) auto
  also have "b ! i # slice (i + 1) e b @ strip_into b d e stop
      = slice i e b @ strip_into b d e stop"
    using lt Suc.prems by (simp add: slice_Suc_left [of i e])
  finally show ?case .
qed

lemma word_end_words: "i \<le> k \<Longrightarrow> k < word_end b i \<Longrightarrow> is_word_byte (b ! k)"
  unfolding word_end_def using skip_while_skipped by blast

text \<open>The offsets of the separators among the first \<open>i\<close> bytes of \<open>s\<close>.\<close>

definition semis :: "string \<Rightarrow> nat \<Rightarrow> nat list" where
  "semis s i = filter (\<lambda>k. s ! k = CHR '';'') [0..<i]"

lemma semis_extend:
  assumes "i \<le> j" "j \<le> length s" "CHR '';'' \<notin> set (slice i j s)"
  shows "semis s j = semis s i"
proof -
  have "[0..<j] = [0..<i] @ [i..<j]"
    using assms(1) by (metis le_add_diff_inverse le_add_same_cancel1 upt_add_eq_append zero_le)
  moreover have "s ! k \<noteq> CHR '';''" if "k \<in> set [i..<j]" for k
  proof -
    have "slice i j s ! (k - i) = s ! k" "k - i < length (slice i j s)"
      using that assms by (auto simp: nth_slice)
    then show ?thesis using assms(3) by (metis nth_mem)
  qed
  ultimately show ?thesis by (simp add: semis_def filter_empty_conv)
qed

lemma semis_Suc: "semis s (i + 1) = semis s i @ (if s ! i = CHR '';'' then [i] else [])"
  by (simp add: semis_def)

definition no_routine :: "bytes \<Rightarrow> bool" where
  "no_routine b \<longleftrightarrow> list_all (\<lambda>i. \<not> routine_ddl_at b i) [0..<length b]"

text \<open>What the splitter has done so far, read off the stripped copy.\<close>

definition in_step :: "bytes \<Rightarrow> dialect \<Rightarrow> scan \<Rightarrow> bool" where
  "in_step b d s \<longleftrightarrow>
     sc_depth s = 0 \<and> \<not> sc_compound s \<and> sc_delim s = '';'' \<and>
     drop (sc_pos s) (strip_into b d 0 (length b)) = strip_into b d (sc_pos s) (length b) \<and>
     map snd (sc_out s) = semis (strip_into b d 0 (length b)) (sc_pos s)"

lemma drop_strip_into:
  assumes "drop i S = xs @ strip_into b d j n" "length xs = j - i" "i \<le> j"
  shows "drop j S = strip_into b d j n \<and> slice i j S = xs"
proof -
  have "drop j S = drop (j - i) (drop i S)" using assms(3) by simp
  with assms show ?thesis by (simp add: slice_def)
qed

text \<open>A step that only moves on stays in step when what it passes holds no separator.\<close>

lemma in_step_advance:
  assumes "in_step b d s" "sc_pos s \<le> sc_pos t" "sc_pos t \<le> length b"
    and "sc_out t = sc_out s" "sc_depth t = 0" "\<not> sc_compound t" "sc_delim t = '';''"
    and "strip_into b d (sc_pos s) (length b) = xs @ strip_into b d (sc_pos t) (length b)"
    and "length xs = sc_pos t - sc_pos s" "CHR '';'' \<notin> set xs"
  shows "in_step b d t"
proof -
  let ?S = "strip_into b d 0 (length b)"
  have "drop (sc_pos s) ?S = xs @ strip_into b d (sc_pos t) (length b)"
    using assms(1,8) by (simp add: in_step_def)
  from drop_strip_into [OF this assms(9,2)]
  have t: "drop (sc_pos t) ?S = strip_into b d (sc_pos t) (length b)"
    "slice (sc_pos s) (sc_pos t) ?S = xs" by auto
  have "semis ?S (sc_pos t) = semis ?S (sc_pos s)"
    using assms(2,3,10) t(2) by (intro semis_extend) (simp_all add: length_strip_into)
  with assms t show ?thesis by (simp add: in_step_def)
qed

lemma semicolon_not_blank: "CHR '';'' \<notin> set (blank_span b i j)"
  by (auto simp: blank_span_def blank_byte_def)

lemma semicolon_not_word: "CHR '';'' \<notin> set (slice i (word_end b i) b)"
proof
  assume "CHR '';'' \<in> set (slice i (word_end b i) b)"
  then obtain k where k: "k < length (slice i (word_end b i) b)"
      "slice i (word_end b i) b ! k = CHR '';''"
    by (meson in_set_conv_nth)
  then have lt: "i + k < length b" "i + k < word_end b i" by auto
  then have "is_word_byte (b ! (i + k))" by (intro word_end_words [of i]) auto
  moreover have "slice i (word_end b i) b ! k = b ! (i + k)"
    using lt by (simp add: slice_def)
  ultimately have "is_word_byte CHR '';''" using k(2) by simp
  then show False by (simp add: byte_class)
qed

lemma strip_into_semicolon:
  assumes "i < length b" "b ! i = CHR '';''"
  shows "strip_into b d i (length b) = CHR '';'' # strip_into b d (i + 1) (length b)"
  using assms executable_comment_slash [of d b i]
  by (subst strip_into_plain) (auto simp: noise_end_def)

text \<open>The non-word arms of the two scanners move to the same offset.\<close>

lemma scan_step_noise_end:
  assumes "\<not> (sc_depth s = 0 \<and> prefix (sc_delim s) (drop (sc_pos s) b))"
    and "\<not> is_word_byte (b ! sc_pos s)"
  shows "sc_pos (scan_step b d s) =
      (case noise_end b d (sc_pos s) (length b) of Some e \<Rightarrow> e | None \<Rightarrow> sc_pos s + 1)"
    and "sc_depth (scan_step b d s) = sc_depth s"
    and "sc_compound (scan_step b d s) = sc_compound s"
  using assms by (auto simp: scan_step_def Let_def noise_end_def split: option.split)

lemma in_step_other:
  assumes "in_step b d s" "d \<noteq> MySqlD" "sc_pos s < length b"
    and ns: "\<not> (sc_depth s = 0 \<and> prefix (sc_delim s) (drop (sc_pos s) b))"
    and nw: "\<not> is_word_byte (b ! sc_pos s)"
  shows "in_step b d (scan_step b d s)"
proof -
  let ?i = "sc_pos s" and ?t = "scan_step b d s"
  note step = scan_step_noise_end [OF ns nw, of d]
  have mv: "moves_on b s ?t" using ns assms(3) nw by (rule scan_step_moves_on)
  have nx: "\<not> executable_comment_at d b ?i" using assms(2) by (simp add: executable_comment_at_def)
  have semi: "b ! ?i \<noteq> CHR '';''"
    using ns assms(1,3) by (auto simp: in_step_def prefix_semicolon)
  obtain xs where xs: "strip_into b d ?i (length b) = xs @ strip_into b d (sc_pos ?t) (length b)"
    "length xs = sc_pos ?t - ?i" "CHR '';'' \<notin> set xs"
  proof (cases "noise_end b d ?i (length b)")
    case None
    with strip_into_plain [OF assms(3) order_refl nx None] step(1) semi that [of "[b ! ?i]"]
    show ?thesis by simp
  next
    case (Some e)
    then have "sc_pos ?t = e" using step(1) by simp
    moreover from this have "min e (length b) = e" using mv by (simp add: moves_on_def)
    ultimately show ?thesis
      using strip_into_noise [OF assms(3) order_refl nx Some] mv semicolon_not_blank
        that [of "blank_span b ?i e"]
      by (simp add: moves_on_def)
  qed
  show ?thesis
    using assms(1) mv step(2,3) by (intro in_step_advance [OF assms(1) _ _ _ _ _ _ xs])
      (auto simp: moves_on_def in_step_def)
qed

lemma in_step_word:
  assumes "in_step b d s" "no_directive b" "no_routine b" "sc_pos s < length b"
    and "is_word_byte (b ! sc_pos s)"
  shows "in_step b d (scan_word b d s)"
proof -
  let ?i = "sc_pos s" and ?e = "word_end b (sc_pos s)"
  have "\<not> directive_at b ?i" "\<not> routine_ddl_at b ?i"
    using assms(2-4) by (simp_all add: no_directive_def no_routine_def list_all_iff)
  then have t: "sc_pos (scan_word b d s) = ?e" "sc_out (scan_word b d s) = sc_out s"
    "sc_depth (scan_word b d s) = 0" "\<not> sc_compound (scan_word b d s)"
    "sc_delim (scan_word b d s) = '';''"
    using assms(1)
    by (auto simp: scan_word_def Let_def directive_at_def scan_block_def in_step_def)
  have e: "?i \<le> ?e" "?e \<le> length b" using assms(4) by (auto intro: word_end_le)
  have "strip_into b d ?i (length b) = slice ?i ?e b @ strip_into b d ?e (length b)"
    using e by (intro strip_into_words) (auto intro: word_end_words)
  moreover have "length (slice ?i ?e b) = ?e - ?i" using e by simp
  ultimately show ?thesis
    using in_step_advance [OF assms(1), of "scan_word b d s" "slice ?i ?e b"] t e
      semicolon_not_word [of ?i b] by simp
qed

lemma scan_step_in_step:
  assumes "in_step b d s" "no_directive b" "no_routine b" "d \<noteq> MySqlD" "sc_pos s < length b"
  shows "in_step b d (scan_step b d s)"
proof (cases "sc_depth s = 0 \<and> prefix (sc_delim s) (drop (sc_pos s) b)")
  case True
  let ?i = "sc_pos s" and ?S = "strip_into b d 0 (length b)"
  have semi: "b ! ?i = CHR '';''" "sc_delim s = '';''"
    using True assms(1) by (auto simp: in_step_def prefix_semicolon)
  have S: "drop ?i ?S = [CHR '';''] @ strip_into b d (?i + 1) (length b)"
    using assms(1) strip_into_semicolon [OF assms(5) semi(1)] by (simp add: in_step_def)
  then have "drop (?i + 1) ?S = strip_into b d (?i + 1) (length b)"
    using drop_strip_into [OF S] by simp
  moreover have "?S ! ?i = CHR '';''"
    using S by (metis append_Cons hd_drop_conv_nth drop_eq_Nil list.distinct(1) list.sel(1) not_le)
  ultimately show ?thesis
    using True assms(1) semi
    by (simp add: scan_step_separator in_step_def semis_Suc [simplified])
next
  case False
  with assms show ?thesis
    by (cases "is_word_byte (b ! sc_pos s)")
      (simp_all add: scan_step_word in_step_word in_step_other)
qed

lemma in_step_init: "in_step b d scan_init"
  by (simp add: in_step_def scan_init_def semis_def)



end
