(* ===== verification/Sql_Risk.thy ===== *)
theory Sql_Risk
  imports Sql_Agree
begin

text \<open>
  The risk grading of \<^verbatim>\<open>crates/red-core/src/sql/risk.rs\<close>: levels, reasons, the target extractor
  and \<^verbatim>\<open>assess\<close>, the function the confirm gate calls.
\<close>

section \<open>Vocabulary\<close>

definition WRITE_TOKENS :: "string list" where
  "WRITE_TOKENS = [''insert'', ''update'', ''delete'', ''merge'', ''into'', ''nextval'', ''setval'']"

definition DANGEROUS_FNS :: "string list" where
  "DANGEROUS_FNS =
     [''lo_import'', ''lo_export'', ''pg_read_file'', ''pg_read_binary_file'', ''pg_ls_dir'',
      ''pg_stat_file'', ''pg_logical_emit_message'', ''dblink'', ''dblink_exec'', ''dblink_open'',
      ''dblink_send_query'', ''pg_file_write'', ''pg_file_unlink'', ''pg_file_rename'',
      ''load_file'', ''sys_exec'', ''sys_eval'']"

datatype risk_level = Safe | Write | Risky | Critical

text \<open>The derived \<^verbatim>\<open>Ord\<close>: the order of declaration.\<close>

fun level_rank :: "risk_level \<Rightarrow> nat" where
  "level_rank Safe = 0"
| "level_rank Write = 1"
| "level_rank Risky = 2"
| "level_rank Critical = 3"

instantiation risk_level :: linorder
begin

definition less_eq_risk_level :: "risk_level \<Rightarrow> risk_level \<Rightarrow> bool" where
  "less_eq_risk_level a b \<longleftrightarrow> level_rank a \<le> level_rank b"

definition less_risk_level :: "risk_level \<Rightarrow> risk_level \<Rightarrow> bool" where
  "less_risk_level a b \<longleftrightarrow> level_rank a < level_rank b"

instance
proof
  fix x y z :: risk_level
  show "(x < y) = (x \<le> y \<and> \<not> y \<le> x)"
    by (auto simp: less_eq_risk_level_def less_risk_level_def)
  show "x \<le> x" by (simp add: less_eq_risk_level_def)
  show "x \<le> y \<Longrightarrow> y \<le> z \<Longrightarrow> x \<le> z" by (simp add: less_eq_risk_level_def)
  show "x \<le> y \<Longrightarrow> y \<le> x \<Longrightarrow> x = y"
    by (cases x; cases y) (simp_all add: less_eq_risk_level_def)
  show "x \<le> y \<or> y \<le> x" by (auto simp: less_eq_risk_level_def)
qed

end

datatype mutate_verb = Update | Delete

datatype drop_kind = DropTable | DropDatabase | DropSchema | DropView | DropIndex | DropOther

datatype risk =
    WholeTable mutate_verb "string option"
  | AlwaysTrue mutate_verb "string option"
  | Drops drop_kind "string option"
  | Truncates "string option"
  | DropsColumn "string option"
  | PrivilegeChange
  | OpaqueExecution
  | Merge "string option"
  | DataModifyingCte
  | HiddenInBatch nat nat

record assessment =
  ra_level :: risk_level
  ra_risks :: "risk list"
  ra_table :: "string option"

section \<open>The target of a statement\<close>

datatype ref = Ident string | Dot | Other

text \<open>The end of a block comment here: no nesting, and past an unterminated one.\<close>

function ref_block_end :: "bytes \<Rightarrow> nat \<Rightarrow> nat" where
  "ref_block_end b i =
     (if i + 1 < length b \<and> \<not> (b ! i = CHR ''*'' \<and> b ! (i + 1) = CHR ''/'')
      then ref_block_end b (i + 1) else i)"
  by pat_completeness auto
termination
  by (relation "measure (\<lambda>(b, i). length b - i)") auto

declare ref_block_end.simps [simp del]

lemma ref_block_end_ge: "i \<le> ref_block_end b i"
  by (induction b i rule: ref_block_end.induct) (subst ref_block_end.simps, auto)

lemma past_close_less:
  assumes "i < length b"
  shows "length b - min (skip_while p b (i + 1) + 1) (length b) < length b - i"
  using skip_while_ge [of "i + 1" p b] assms by linarith

function lex_refs_from :: "bytes \<Rightarrow> nat \<Rightarrow> ref list" where
  "lex_refs_from b i =
     (if i < length b then
        let c = b ! i in
        if is_ascii_whitespace c then lex_refs_from b (i + 1)
        else if c = CHR ''-'' \<and> i + 1 < length b \<and> b ! (i + 1) = CHR ''-'' then
          lex_refs_from b (skip_while (\<lambda>x. x \<noteq> CHR 0x0A) b i)
        else if c = CHR ''/'' \<and> i + 1 < length b \<and> b ! (i + 1) = CHR ''*'' then
          lex_refs_from b (min (ref_block_end b (i + 2) + 2) (length b))
        else if c = CHR 0x27 then
          Other # lex_refs_from b (min (skip_while (\<lambda>x. x \<noteq> CHR 0x27) b (i + 1) + 1) (length b))
        else if c = CHR 0x22 \<or> c = CHR ''`'' \<or> c = CHR ''['' then
          let close = (if c = CHR ''['' then CHR '']'' else c);
              e = min (skip_while (\<lambda>x. x \<noteq> close) b (i + 1) + 1) (length b)
          in Ident (slice i e b) # lex_refs_from b e
        else if is_ascii_alphabetic c \<or> c = CHR ''_'' then
          let e = skip_while (\<lambda>x. is_ascii_alphanumeric x \<or> x = CHR ''_'') b i
          in Ident (slice i e b) # lex_refs_from b e
        else (if c = CHR ''.'' then Dot else Other) # lex_refs_from b (i + 1)
      else [])"
  by pat_completeness auto
termination
proof (relation "measure (\<lambda>(b, i). length b - i)", goal_cases)
  case (3 b i c)
  then have "i < skip_while (\<lambda>x. x \<noteq> CHR 0x0A) b i"
    by (intro skip_while_gt) auto
  with 3 show ?case by (simp add: diff_less_mono2)
next
  case (4 b i c)
  have "i + 2 \<le> ref_block_end b (i + 2)" by (rule ref_block_end_ge)
  with 4 show ?case by (simp add: diff_less_mono2)
next
  case (5 b i c)
  show ?case unfolding in_measure prod.case by (rule past_close_less [OF 5(1)])
next
  case (6 b i c close e)
  show ?case unfolding in_measure prod.case 6(9) by (rule past_close_less [OF 6(1)])
next
  case (7 b i c e)
  then have "i < skip_while (\<lambda>x. is_ascii_alphanumeric x \<or> x = CHR ''_'') b i"
    by (intro skip_while_gt) (auto simp: is_ascii_alphanumeric_def)
  with 7 show ?case by (simp add: diff_less_mono2)
qed (auto simp: diff_less_mono2)

declare lex_refs_from.simps [simp del]

definition lex_refs :: "string \<Rightarrow> ref list" where
  "lex_refs stmt = lex_refs_from stmt 0"

text \<open>\<^verbatim>\<open>read_ref\<close>: a name, then a dot and a name as long as there are dots.\<close>

fun read_ref_acc :: "string \<Rightarrow> ref list \<Rightarrow> string option" where
  "read_ref_acc acc (Ident w # Dot # r) = read_ref_acc (acc @ w @ ''.'') r"
| "read_ref_acc acc (Ident w # r) = Some (acc @ w)"
| "read_ref_acc acc _ = None"

definition read_ref :: "ref list \<Rightarrow> string option" where
  "read_ref tokens = read_ref_acc [] tokens"

definition ref_word :: "ref list \<Rightarrow> nat \<Rightarrow> string option" where
  "ref_word tokens n =
     (if n < length tokens then
        (case tokens ! n of Ident w \<Rightarrow> Some (to_ascii_lowercase w) | _ \<Rightarrow> None)
      else None)"

definition target_modifiers :: "string list" where
  "target_modifiers = [''table'', ''if'', ''exists'', ''only'', ''concurrently'']"

fun skip_modifiers :: "ref list \<Rightarrow> ref list" where
  "skip_modifiers (Ident w # r) =
     (if to_ascii_lowercase w \<in> set target_modifiers then skip_modifiers r else Ident w # r)"
| "skip_modifiers ts = ts"

text \<open>Where the name starts, by the verb.\<close>

definition target_at :: "ref list \<Rightarrow> nat option" where
  "target_at tokens =
     (case ref_word tokens 0 of
        None \<Rightarrow> None
      | Some v \<Rightarrow>
        if v = ''update'' \<or> v = ''truncate'' then Some 1
        else if v = ''insert'' \<or> v = ''delete'' \<or> v = ''merge'' then
          (if ref_word tokens 1 = Some ''into'' \<or> ref_word tokens 1 = Some ''from''
           then Some 2 else None)
        else if v = ''drop'' \<or> v = ''alter'' then Some 2
        else None)"

definition target_object :: "string \<Rightarrow> string option" where
  "target_object stmt =
     (let tokens = lex_refs stmt in
      case target_at tokens of
        None \<Rightarrow> None
      | Some n \<Rightarrow>
        if n \<le> length tokens then read_ref (skip_modifiers (drop n tokens)) else None)"

section \<open>Grading\<close>

text \<open>\<^verbatim>\<open>word_at(lower, n)\<close>.\<close>

definition word_at :: "string \<Rightarrow> nat \<Rightarrow> string" where
  "word_at lower n =
     (let ws = split_whitespace lower in if n < length ws then ws ! n else [])"

definition always_true_where :: "string \<Rightarrow> bool" where
  "always_true_where lower =
     (let tokens = split_whitespace lower;
          after = dropWhile (\<lambda>t. t \<noteq> ''where'') tokens
      in case after of
           [] \<Rightarrow> False
         | _ # rest \<Rightarrow>
           let predicate = concat rest
           in predicate = ''1=1'' \<or> predicate = ''true'' \<or> predicate = ''1<>0'' \<or> predicate = ''1!=0'')"

definition VERBS :: "string list" where
  "VERBS = [''select'', ''insert'', ''update'', ''delete'', ''merge'', ''replace'', ''with'',
     ''create'', ''drop'', ''alter'', ''truncate'', ''call'', ''values'']"

function inner_statement_from :: "bytes \<Rightarrow> nat \<Rightarrow> nat option" where
  "inner_statement_from b i =
     (if i < length b then
        if \<not> is_word_byte (b ! i) then inner_statement_from b (i + 1)
        else if list_ex (\<lambda>v. eq_ignore_ascii_case (slice i (word_end b i) b) v) VERBS then Some i
        else inner_statement_from b (word_end b i)
      else None)"
  by pat_completeness auto
termination
  by (relation "measure (\<lambda>(b, i). length b - i)")
    (auto intro!: diff_less_mono2 intro: word_end_gt)

declare inner_statement_from.simps [simp del]

definition inner_statement_at :: "string \<Rightarrow> nat option" where
  "inner_statement_at stripped = inner_statement_from stripped 0"

definition assess_lower :: "string \<Rightarrow> string" where
  "assess_lower stripped =
     to_ascii_lowercase (trim (trim_end_matches CHR '';'' (trim stripped)))"

lemma first_keyword_alpha:
  assumes "s \<noteq> []" "is_ascii_alphabetic (hd s)"
  shows "first_keyword s = takeWhile is_ascii_alphabetic s"
proof -
  obtain c r where s: "s = c # r" "is_ascii_alphabetic c" using assms by (cases s) auto
  then have g: "graphic_head s" by (auto simp: graphic_head_def byte_class)
  have "\<not> prefix ''--'' s" "\<not> prefix ''#'' s" "\<not> prefix ''/*'' s"
    using s by (auto simp: byte_class)
  then have "skip_leading_comments s = Some s"
    by (subst skip_leading_comments.simps) simp
  with g show ?thesis by (simp add: first_keyword_def)
qed

lemma assess_lower_head:
  assumes "s \<noteq> []" "is_ascii_alphabetic (hd s)"
  shows "assess_lower s \<noteq> [] \<and> hd (assess_lower s) = lower_byte (hd s)"
proof -
  have g: "graphic_head s" using assms by (auto simp: graphic_head_def byte_class)
  let ?t = "trim_end_matches CHR '';'' (trim s)"
  have t: "graphic_head (trim s)" "hd (trim s) = hd s"
    using graphic_head_trim [OF g] by simp_all
  then have "hd (trim s) \<noteq> CHR '';''" using assms by (auto simp: byte_class)
  from graphic_head_trim_end_matches [OF t(1) this] t(2)
  have "graphic_head ?t" "hd ?t = hd s" by simp_all
  from graphic_head_trim [OF this(1)] this(2)
  have "graphic_head (trim ?t)" "hd (trim ?t) = hd s" by simp_all
  then show ?thesis
    by (cases "trim ?t") (simp_all add: assess_lower_def graphic_head_def)
qed

lemma inner_statement_from_Some:
  "inner_statement_from b i = Some k \<Longrightarrow>
     i \<le> k \<and> k < length b \<and> is_word_byte (b ! k) \<and>
     (\<exists>v \<in> set VERBS. eq_ignore_ascii_case (slice k (word_end b k) b) v)"
proof (induction b i rule: inner_statement_from.induct)
  case (1 b i)
  show ?case
  proof (cases "i < length b")
    case False
    with "1.prems" show ?thesis by (simp add: inner_statement_from.simps [of b i])
  next
    case i: True
    show ?thesis
    proof (cases "is_word_byte (b ! i)")
      case False
      with i "1.prems" have "inner_statement_from b (i + 1) = Some k"
        by (simp add: inner_statement_from.simps [of b i])
      from "1.IH"(1) [OF i _ this] False show ?thesis by auto
    next
      case w: True
      show ?thesis
      proof (cases "list_ex (eq_ignore_ascii_case (slice i (word_end b i) b)) VERBS")
        case True
        with i w "1.prems" have "k = i"
          by (simp add: inner_statement_from.simps [of b i])
        with True i w show ?thesis by (auto simp: list_ex_iff)
      next
        case False
        with i w "1.prems" have "inner_statement_from b (word_end b i) = Some k"
          by (simp add: inner_statement_from.simps [of b i])
        from "1.IH"(2) [OF i _ _ this] w False word_end_gt [OF i w] show ?thesis by auto
      qed
    qed
  qed
qed

lemma VERBS_heads: "\<forall>v \<in> set VERBS. v \<noteq> [] \<and> lower_byte (hd v) \<in> set ''siudmrwcatv''"
  by code_simp

text \<open>No statement verb starts with an \<open>e\<close>: the scan always advances past \<^verbatim>\<open>explain\<close>.\<close>

lemma inner_statement_after_explain:
  assumes kw: "first_keyword (assess_lower s) = ''explain''"
    and at: "inner_statement_at s = Some k"
  shows "0 < k \<and> k < length s"
proof (rule ccontr)
  assume "\<not> ?thesis"
  with inner_statement_from_Some [OF at [unfolded inner_statement_at_def]]
  have "k = 0" by auto
  with inner_statement_from_Some [OF at [unfolded inner_statement_at_def]]
  obtain v where v: "v \<in> set VERBS" "eq_ignore_ascii_case (slice 0 (word_end s 0) s) v"
    and s: "s \<noteq> []" "is_word_byte (s ! 0)" by auto
  then obtain c r where c: "slice 0 (word_end s 0) s = c # r"
    using word_end_gt [of 0 s] by (cases "slice 0 (word_end s 0) s") (auto simp: slice_def)
  then have hd: "hd s = c" using s by (cases s) (auto simp: slice_def take_Cons split: nat.splits)
  have lc: "lower_byte c \<in> set ''siudmrwcatv''"
  proof -
    have "to_ascii_lowercase v = lower_byte c # to_ascii_lowercase r"
      using v(2) unfolding c eq_ignore_ascii_case_def by simp
    then have "lower_byte (hd v) = lower_byte c" by (cases v) simp_all
    with VERBS_heads v(1) show ?thesis by metis
  qed
  then have "is_ascii_alphabetic (lower_byte c)" by (auto simp: byte_class)
  then have "is_ascii_alphabetic (hd s)" by (simp add: hd)
  from assess_lower_head [OF s(1) this] hd
  have l: "assess_lower s \<noteq> []" "hd (assess_lower s) = lower_byte c" by simp_all
  with \<open>is_ascii_alphabetic (lower_byte c)\<close> kw have
    "takeWhile is_ascii_alphabetic (assess_lower s) = ''explain''"
    by (simp add: first_keyword_alpha)
  then have "hd (assess_lower s) = CHR ''e''"
    using l(1) by (cases "assess_lower s") (auto split: if_splits)
  with l(2) lc have "CHR ''e'' \<in> set ''siudmrwcatv''" by metis
  then show False by simp
qed

text \<open>\<^verbatim>\<open>bare_name\<close>: the part after the last dot, less the quotes around it.\<close>

definition rsplit_last :: "char \<Rightarrow> string \<Rightarrow> string" where
  "rsplit_last c s = rev (takeWhile (\<lambda>x. x \<noteq> c) (rev s))"

definition trim_matches :: "char list \<Rightarrow> string \<Rightarrow> string" where
  "trim_matches cs s =
     rev (dropWhile (\<lambda>x. x \<in> set cs) (rev (dropWhile (\<lambda>x. x \<in> set cs) s)))"

definition bare_name :: "string \<Rightarrow> string" where
  "bare_name reference =
     trim_matches [CHR 0x22, CHR ''`'', CHR ''['', CHR '']''] (rsplit_last CHR ''.'' reference)"

text \<open>
  \<^verbatim>\<open>confirm_target\<close>: the name of the first risk that carries one, else the target of the statement.
  \<^verbatim>\<open>find_map\<close> moves past a \<^verbatim>\<open>Drops\<close> or \<^verbatim>\<open>Truncates\<close> whose own name is missing.
\<close>

fun risk_name :: "risk \<Rightarrow> string option" where
  "risk_name (Drops _ n) = n"
| "risk_name (Truncates t) = t"
| "risk_name _ = None"

fun find_map :: "('a \<Rightarrow> 'b option) \<Rightarrow> 'a list \<Rightarrow> 'b option" where
  "find_map f [] = None"
| "find_map f (x # xs) = (case f x of None \<Rightarrow> find_map f xs | Some y \<Rightarrow> Some y)"

definition confirm_target :: "assessment \<Rightarrow> string option" where
  "confirm_target a =
     map_option bare_name
       (case find_map risk_name (ra_risks a) of
          Some n \<Rightarrow> Some n
        | None \<Rightarrow> ra_table a)"

text \<open>The arms of \<^verbatim>\<open>assess_one\<close> other than \<^verbatim>\<open>explain\<close>.\<close>

definition CTE_WRITES :: "string list" where
  "CTE_WRITES = [''insert'', ''update'', ''delete'', ''merge'']"

definition drop_object :: "string \<Rightarrow> drop_kind" where
  "drop_object w =
     (if w = ''table'' then DropTable
      else if w = ''database'' then DropDatabase
      else if w = ''schema'' then DropSchema
      else if w = ''view'' then DropView
      else if w = ''index'' then DropIndex
      else DropOther)"

fun drop_level :: "drop_kind \<Rightarrow> risk_level" where
  "drop_level DropTable = Critical"
| "drop_level DropDatabase = Critical"
| "drop_level DropSchema = Critical"
| "drop_level DropView = Risky"
| "drop_level DropIndex = Risky"
| "drop_level DropOther = Risky"

definition mutate_risk :: "string \<Rightarrow> string \<Rightarrow> mutate_verb \<Rightarrow> risk_level \<times> risk list" where
  "mutate_risk stmt lower verb =
     (if \<not> has_word lower ''where'' then (Risky, [WholeTable verb (target_object stmt)])
      else if always_true_where lower then (Risky, [AlwaysTrue verb (target_object stmt)])
      else (Write, []))"

definition assess_keyword :: "string \<Rightarrow> string \<Rightarrow> string \<Rightarrow> risk_level \<times> risk list" where
  "assess_keyword stmt lower kw =
     (if kw = ''select'' \<or> kw = ''values'' \<or> kw = ''pragma'' then (Safe, [])
      else if kw = ''with'' then
        (if list_ex (has_word lower) CTE_WRITES then (Risky, [DataModifyingCte]) else (Safe, []))
      else if kw = ''insert'' \<or> kw = ''replace'' then (Write, [])
      else if kw = ''update'' then mutate_risk stmt lower Update
      else if kw = ''delete'' then mutate_risk stmt lower Delete
      else if kw = ''merge'' then (Risky, [Merge (target_object stmt)])
      else if kw = ''truncate'' then (Critical, [Truncates (target_object stmt)])
      else if kw = ''drop'' then
        (let object = drop_object (word_at lower 1)
         in (drop_level object, [Drops object (target_object stmt)]))
      else if kw = ''alter'' then
        (if has_word lower ''drop'' then (Risky, [DropsColumn (target_object stmt)])
         else (Write, []))
      else if kw = ''create'' then
        (if word_at lower 1 = ''user'' \<or> word_at lower 1 = ''role''
         then (Risky, [PrivilegeChange]) else (Write, []))
      else if kw = ''grant'' \<or> kw = ''revoke'' then (Risky, [PrivilegeChange])
      else if kw = ''call'' \<or> kw = ''do'' \<or> kw = ''exec'' \<or> kw = ''execute''
        then (Risky, [OpaqueExecution])
      else (Write, []))"

text \<open>
  \<^verbatim>\<open>assess_one\<close> with \<^verbatim>\<open>explain_risk\<close> unfolded into it. The recursion ends because the offset of the
  inner statement is positive (\<open>inner_statement_after_explain\<close>).
\<close>

function assess_one :: "string \<Rightarrow> string \<Rightarrow> dialect \<Rightarrow> risk_level \<times> risk list" where
  "assess_one stmt stripped d =
     (let lower = assess_lower stripped; kw = first_keyword lower in
      if kw = ''explain'' then
        (if \<not> has_word lower ''analyze'' then (Safe, [])
         else (case inner_statement_at stripped of
                 Some at \<Rightarrow> assess_one (drop at stmt) (drop at stripped) d
               | None \<Rightarrow> (Write, [])))
      else assess_keyword stmt lower kw)"
  by pat_completeness auto
termination
proof (relation "measure (\<lambda>(stmt, stripped, d). length stripped)", goal_cases)
  case (2 stmt stripped d lower kw at)
  then have "0 < at \<and> at < length stripped"
    by (intro inner_statement_after_explain) simp_all
  then show ?case unfolding in_measure prod.case length_drop by linarith
qed simp

declare assess_one.simps [simp del]

definition runnable :: "string \<Rightarrow> dialect \<Rightarrow> (string \<times> string) list" where
  "runnable sql d =
     filter (\<lambda>(_, stripped). first_keyword stripped \<noteq> [])
       (map (\<lambda>stmt. (stmt, strip_noise stmt d)) (split_statements sql d))"

text \<open>The loop of \<^verbatim>\<open>assess\<close>, from statement number \<open>index\<close>.\<close>

fun assess_loop ::
  "dialect \<Rightarrow> nat \<Rightarrow> nat \<Rightarrow> (string \<times> string) list \<Rightarrow> risk_level \<Rightarrow> risk list
     \<Rightarrow> risk_level \<times> risk list" where
  "assess_loop d n index [] lvl acc = (lvl, acc)"
| "assess_loop d n index ((stmt, stripped) # rest) lvl acc =
     (let (stmt_level, stmt_risks) = assess_one stmt stripped d;
          acc = (if 1 < n \<and> Risky \<le> stmt_level then acc @ [HiddenInBatch index n] else acc)
      in assess_loop d n (index + 1) rest (max lvl stmt_level) (acc @ stmt_risks))"

definition assess :: "string \<Rightarrow> dialect \<Rightarrow> assessment" where
  "assess sql d =
     (let statements = runnable sql d;
          (lvl, rs) = assess_loop d (length statements) 0 statements Safe [];
          tbl = (case statements of [(only, _)] \<Rightarrow> target_object only | _ \<Rightarrow> None)
      in \<lparr>ra_level = lvl, ra_risks = rs, ra_table = tbl\<rparr>)"

section \<open>The grade of a batch\<close>

lemma assess_loop_level:
  "fst (assess_loop d n i stmts lvl acc) =
     fold max (map (\<lambda>(s, t). fst (assess_one s t d)) stmts) lvl"
  by (induction d n i stmts lvl acc rule: assess_loop.induct)
    (auto simp: Let_def max.commute split: prod.split)

definition stmt_report :: "dialect \<Rightarrow> nat \<Rightarrow> nat \<times> string \<times> string \<Rightarrow> risk list" where
  "stmt_report d n = (\<lambda>(i, s, t).
     (if 1 < n \<and> Risky \<le> fst (assess_one s t d) then [HiddenInBatch i n] else [])
       @ snd (assess_one s t d))"

lemma assess_loop_risks:
  "snd (assess_loop d n i stmts lvl acc) = acc @ concat (map (stmt_report d n) (enumerate i stmts))"
  by (induction d n i stmts lvl acc rule: assess_loop.induct)
    (auto simp: Let_def stmt_report_def split: prod.split)

lemma assess_level_eq:
  "ra_level (assess sql d) = fst (assess_loop d (length (runnable sql d)) 0 (runnable sql d) Safe [])"
  by (simp add: assess_def Let_def case_prod_unfold)

lemma assess_risks_eq:
  "ra_risks (assess sql d) =
     concat (map (stmt_report d (length (runnable sql d))) (enumerate 0 (runnable sql d)))"
  using assess_loop_risks [of d "length (runnable sql d)" 0 "runnable sql d" Safe "[]"]
  by (simp add: assess_def Let_def case_prod_unfold)

lemma assess_level_Max:
  "ra_level (assess sql d) =
     Max (insert Safe ((\<lambda>st. fst (assess_one (fst st) (snd st) d)) ` set (runnable sql d)))"
proof -
  let ?xs = "map (\<lambda>(s, t). fst (assess_one s t d)) (runnable sql d)"
  have "ra_level (assess sql d) = fold max ?xs Safe"
    by (simp add: assess_level_eq assess_loop_level)
  also have "\<dots> = Max (set (Safe # ?xs))" by (rule Max.set_eq_fold [symmetric])
  finally show ?thesis by (simp add: case_prod_unfold)
qed

lemma assess_level_ge_iff:
  "l \<noteq> Safe \<Longrightarrow> l \<le> ra_level (assess sql d) \<longleftrightarrow>
     (\<exists>st \<in> set (runnable sql d). l \<le> fst (assess_one (fst st) (snd st) d))"
proof -
  assume "l \<noteq> Safe"
  then have "\<not> l \<le> Safe" by (cases l) (simp_all add: less_eq_risk_level_def)
  then show ?thesis by (simp add: assess_level_Max Max_ge_iff)
qed

text \<open>
  The grade of a batch is the highest grade of its runnable statements (\<^verbatim>\<open>Safe\<close> when there is
  none): a leading read never masks a later \<^verbatim>\<open>DROP\<close>.
\<close>

theorem assess_level_is_max:
  "ra_level (assess sql d) =
     Max (insert Safe {fst (assess_one s t d) | s t. (s, t) \<in> set (runnable sql d)})"
proof -
  have "{fst (assess_one s t d) | s t. (s, t) \<in> set (runnable sql d)} =
      (\<lambda>st. fst (assess_one (fst st) (snd st) d)) ` set (runnable sql d)"
    by force
  then show ?thesis by (simp add: assess_level_Max)
qed

text \<open>A statement has reasons exactly when it is graded \<^verbatim>\<open>Risky\<close> or above.\<close>

lemma level_le_simps [simp]:
  "Risky \<le> Risky" "Risky \<le> Critical" "\<not> Risky \<le> Safe" "\<not> Risky \<le> Write"
  by (simp_all add: less_eq_risk_level_def)

lemma drop_level_ge [simp]: "Risky \<le> drop_level k"
  by (cases k) simp_all

lemma ex_enumerate:
  "(\<exists>x \<in> set (enumerate 0 xs). fst x = k \<and> Q (snd x)) \<longleftrightarrow> k < length xs \<and> Q (xs ! k)"
proof
  assume "\<exists>x \<in> set (enumerate 0 xs). fst x = k \<and> Q (snd x)"
  then show "k < length xs \<and> Q (xs ! k)" by (auto simp: in_set_enumerate_eq)
next
  assume "k < length xs \<and> Q (xs ! k)"
  then have "(k, xs ! k) \<in> set (enumerate 0 xs)" "Q (snd (k, xs ! k))"
    by (simp_all add: in_set_enumerate_eq)
  then show "\<exists>x \<in> set (enumerate 0 xs). fst x = k \<and> Q (snd x)" by force
qed

definition graded :: "risk_level \<times> risk list \<Rightarrow> bool" where
  "graded g \<longleftrightarrow> (Risky \<le> fst g \<longleftrightarrow> snd g \<noteq> []) \<and> (\<forall>k n. HiddenInBatch k n \<notin> set (snd g))"

lemma graded_simps [simp]:
  "graded (Safe, [])" "graded (Write, [])" "graded (drop_level k, [Drops j t])"
  "(\<And>k n. r \<noteq> HiddenInBatch k n) \<Longrightarrow> Risky \<le> l \<Longrightarrow> graded (l, [r])"
  by (auto simp: graded_def)

lemma graded_if: "graded x \<Longrightarrow> graded y \<Longrightarrow> graded (if c then x else y)"
  by simp

lemma graded_assess_keyword: "graded (assess_keyword stmt lower kw)"
  unfolding assess_keyword_def mutate_risk_def Let_def
  by (intro graded_if) simp_all

lemma assess_one_induct [case_names plan opaque inner keyword]:
  assumes plan: "\<And>s t d. first_keyword (assess_lower t) = ''explain'' \<Longrightarrow>
      \<not> has_word (assess_lower t) ''analyze'' \<Longrightarrow> P s t d (Safe, [])"
    and opaque: "\<And>s t d. first_keyword (assess_lower t) = ''explain'' \<Longrightarrow>
      inner_statement_at t = None \<Longrightarrow> P s t d (Write, [])"
    and inner: "\<And>s t d at. first_keyword (assess_lower t) = ''explain'' \<Longrightarrow>
      has_word (assess_lower t) ''analyze'' \<Longrightarrow> inner_statement_at t = Some at \<Longrightarrow>
      P (drop at s) (drop at t) d (assess_one (drop at s) (drop at t) d) \<Longrightarrow>
      P s t d (assess_one (drop at s) (drop at t) d)"
    and keyword: "\<And>s t d. first_keyword (assess_lower t) \<noteq> ''explain'' \<Longrightarrow>
      P s t d (assess_keyword s (assess_lower t) (first_keyword (assess_lower t)))"
  shows "P s t d (assess_one s t d)"
proof (induction s t d rule: assess_one.induct)
  case (1 s t d)
  show ?case
  proof (cases "first_keyword (assess_lower t) = ''explain''")
    case kw: True
    show ?thesis
    proof (cases "has_word (assess_lower t) ''analyze''")
      case True
      then show ?thesis
        using kw 1 opaque [OF kw] inner [OF kw True]
        by (cases "inner_statement_at t")
          (simp_all add: assess_one.simps [of s t d] Let_def)
    qed (use kw plan in \<open>simp add: assess_one.simps [of s t d]\<close>)
  qed (use keyword in \<open>simp add: assess_one.simps [of s t d] Let_def\<close>)
qed

lemma graded_assess_one: "graded (assess_one s t d)"
  by (induction s t d rule: assess_one_induct) (simp_all add: graded_assess_keyword)

lemmas assess_one_reasons = graded_assess_one [unfolded graded_def, THEN conjunct1]
  and assess_one_not_hidden = graded_assess_one [unfolded graded_def, THEN conjunct2, rule_format]

text \<open>
  The confirm gate always has something to show: a batch is graded \<^verbatim>\<open>Risky\<close> or above exactly when
  it comes with at least one reason.
\<close>

theorem assess_reasons: "Risky \<le> ra_level (assess sql d) \<longleftrightarrow> ra_risks (assess sql d) \<noteq> []"
proof -
  let ?r = "runnable sql d"
  have "ra_risks (assess sql d) \<noteq> [] \<longleftrightarrow> (\<exists>(s, t) \<in> set ?r. snd (assess_one s t d) \<noteq> [])"
  proof -
    have "ra_risks (assess sql d) \<noteq> [] \<longleftrightarrow>
        (\<exists>x \<in> set (enumerate 0 ?r). stmt_report d (length ?r) x \<noteq> [])"
      by (auto simp: assess_risks_eq)
    also have "\<dots> \<longleftrightarrow> (\<exists>x \<in> set (enumerate 0 ?r). snd (assess_one (fst (snd x)) (snd (snd x)) d) \<noteq> [])"
      by (intro bex_cong) (auto simp: stmt_report_def assess_one_reasons split: prod.splits)
    also have "\<dots> \<longleftrightarrow> (\<exists>y \<in> snd ` set (enumerate 0 ?r). snd (assess_one (fst y) (snd y) d) \<noteq> [])"
      by simp
    also have "snd ` set (enumerate 0 ?r) = set ?r"
      by (simp flip: set_map)
    finally show ?thesis by (simp add: case_prod_unfold)
  qed
  also have "\<dots> \<longleftrightarrow> Risky \<le> ra_level (assess sql d)"
    by (simp add: assess_level_ge_iff assess_one_reasons case_prod_unfold)
  finally show ?thesis ..
qed

text \<open>
  A batch points at its dangerous members and at nothing else: \<^verbatim>\<open>HiddenInBatch\<close> carries the
  0-based position of a runnable statement graded \<^verbatim>\<open>Risky\<close> or above and the number of runnable
  statements, for every such statement of a batch of at least two, and is absent for a single one.
\<close>

theorem assess_hidden_positions:
  "HiddenInBatch k n \<in> set (ra_risks (assess sql d)) \<longleftrightarrow>
     n = length (runnable sql d) \<and> 1 < n \<and> k < n \<and>
     (case runnable sql d ! k of (s, t) \<Rightarrow> Risky \<le> fst (assess_one s t d))"
proof -
  let ?r = "runnable sql d"
  have report: "HiddenInBatch k n \<in> set (stmt_report d m x) \<longleftrightarrow>
      fst x = k \<and> m = n \<and> 1 < m \<and> Risky \<le> fst (assess_one (fst (snd x)) (snd (snd x)) d)" for m x
    by (cases x) (auto simp: stmt_report_def assess_one_not_hidden)
  have "HiddenInBatch k n \<in> set (ra_risks (assess sql d)) \<longleftrightarrow>
      length ?r = n \<and> 1 < n \<and>
      (\<exists>x \<in> set (enumerate 0 ?r). fst x = k \<and> Risky \<le> fst (assess_one (fst (snd x)) (snd (snd x)) d))"
    unfolding assess_risks_eq set_concat set_map UN_simps UN_iff report by (simp, blast)
  also have "\<dots> \<longleftrightarrow> length ?r = n \<and> 1 < n \<and> k < length ?r \<and>
      Risky \<le> fst (assess_one (fst (?r ! k)) (snd (?r ! k)) d)"
    by (simp add: ex_enumerate [of ?r k "\<lambda>y. Risky \<le> fst (assess_one (fst y) (snd y) d)"])
  finally show ?thesis by (auto simp: case_prod_unfold)
qed

lemma assess_level_ge:
  "(s, t) \<in> set (runnable sql d) \<Longrightarrow> fst (assess_one s t d) \<le> ra_level (assess sql d)"
  by (force simp: assess_level_Max intro: Max_ge)

text \<open>
  C5. Wherever it stands in a script, a statement that empties or removes a whole table or namespace
  raises the grade of the script to \<^verbatim>\<open>Critical\<close>, and an \<^verbatim>\<open>UPDATE\<close> or \<^verbatim>\<open>DELETE\<close> whose stripped text has no
  \<^verbatim>\<open>WHERE\<close> word raises it to \<^verbatim>\<open>Risky\<close> at least.
\<close>

theorem assess_catches_destruction:
  assumes mem: "(s, t) \<in> set (runnable sql d)"
    and kw: "first_keyword (assess_lower t) = kw"
  shows "(kw = ''truncate'' \<or>
        kw = ''drop'' \<and> word_at (assess_lower t) 1 \<in> {''table'', ''database'', ''schema''}
        \<longrightarrow> ra_level (assess sql d) = Critical) \<and>
      (kw \<in> {''update'', ''delete''} \<and> \<not> has_word (assess_lower t) ''where''
        \<longrightarrow> Risky \<le> ra_level (assess sql d))"
proof -
  have top: "x = Critical" if "Critical \<le> x" for x
    using that by (cases x) (simp_all add: less_eq_risk_level_def)
  have one: "assess_one s t d = assess_keyword s (assess_lower t) kw" if "kw \<noteq> ''explain''"
    using that kw by (simp add: assess_one.simps [of s t d] Let_def)
  note ge = assess_level_ge [OF mem]
  have "fst (assess_one s t d) = Critical"
    if "kw = ''truncate'' \<or>
      kw = ''drop'' \<and> word_at (assess_lower t) 1 \<in> {''table'', ''database'', ''schema''}"
    using that by (auto simp: one assess_keyword_def drop_object_def Let_def)
  moreover have "fst (assess_one s t d) = Risky"
    if "kw \<in> {''update'', ''delete''} \<and> \<not> has_word (assess_lower t) ''where''"
    using that by (auto simp: one assess_keyword_def mutate_risk_def)
  ultimately show ?thesis using ge top by metis
qed

text \<open>The hypotheses hold at the second statement of a two-statement script.\<close>

lemma assess_catches_destruction_witness:
  "first_keyword (assess_lower ''drop table t'') = ''drop'' \<and>
   ra_level (assess ''select 1;drop table t'' PostgresD) = Critical"
proof -
  have mem: "(''drop table t'', ''drop table t'') \<in> set (runnable ''select 1;drop table t'' PostgresD)"
    by code_simp
  have kw: "first_keyword (assess_lower ''drop table t'') = ''drop''" by code_simp
  have w: "word_at (assess_lower ''drop table t'') 1 = ''table''" by code_simp
  from assess_catches_destruction [OF mem kw] kw w show ?thesis by simp
qed

end
