(* ===== verification/Sql_Risk_Laws.thy ===== *)
theory Sql_Risk_Laws
  imports Sql_Risk
begin

text \<open>
  Laws of the risk grading that concern concrete statement shapes: \<^verbatim>\<open>EXPLAIN ANALYZE\<close> takes the
  grade of the statement it runs, and the target extractor gives back the name that was written.
\<close>

section \<open>Trimming a concatenation\<close>

lemma ws_prefix_multibyte:
  "ws_prefix s = k \<Longrightarrow> 0 < j \<Longrightarrow> j < k \<Longrightarrow> k \<le> length s \<and> 128 \<le> byte (s ! j)"
  by (auto simp: ws_prefix.simps nth_Cons' split: list.splits if_splits)

lemma ws_suffix_at:
  assumes "graphic_head t" "0 < k"
  shows "k \<le> length (p @ t) \<and> ws_prefix (drop (length (p @ t) - k) (p @ t)) = k \<longleftrightarrow>
    k \<le> length t \<and> ws_prefix (drop (length t - k) t) = k"
proof (cases "k \<le> length t")
  case True
  then have "drop (length (p @ t) - k) (p @ t) = drop (length t - k) t" by simp
  with True show ?thesis by simp
next
  case False
  let ?s = "drop (length (p @ t) - k) (p @ t)"
  have "\<not> (k \<le> length (p @ t) \<and> ws_prefix ?s = k)"
  proof
    assume a: "k \<le> length (p @ t) \<and> ws_prefix ?s = k"
    have t: "t \<noteq> []" "byte (hd t) < 128" using assms(1) by (auto simp: graphic_head_def)
    have j: "0 < k - length t" "k - length t < k" using False t(1) by auto
    have "?s ! (k - length t) = (p @ t) ! (length (p @ t) - k + (k - length t))"
      using a by (intro nth_drop) simp
    also have "length (p @ t) - k + (k - length t) = length p" using a False by simp
    also have "(p @ t) ! length p = hd t" using t(1) by (simp add: nth_append hd_conv_nth)
    finally show False
      using ws_prefix_multibyte [of ?s k "k - length t"] a j t(2) by simp
  qed
  with False show ?thesis by simp
qed

lemma ws_suffix_append: "graphic_head t \<Longrightarrow> ws_suffix (p @ t) = ws_suffix t"
  using ws_suffix_at [of t 1 p] ws_suffix_at [of t 2 p] ws_suffix_at [of t 3 p]
  by (simp only: ws_suffix_def Let_def zero_less_one zero_less_numeral simp_thms)

lemma trim_end_append: "graphic_head t \<Longrightarrow> trim_end (p @ t) = p @ trim_end t"
proof (induction t rule: trim_end.induct)
  case (1 t)
  show ?case
  proof (cases "ws_suffix t = 0")
    case True
    with "1.prems" show ?thesis by (simp add: trim_end.simps [of t] trim_end.simps [of "p @ t"] ws_suffix_append)
  next
    case False
    let ?t = "take (length t - ws_suffix t) t"
    have lt: "ws_suffix t < length t" by (rule ws_suffix_graphic [OF "1.prems"])
    then have g: "graphic_head ?t" using "1.prems" by (simp add: graphic_head_take)
    have "trim_end (p @ t) = trim_end (p @ ?t)"
      using False lt "1.prems" by (simp add: trim_end.simps [of "p @ t"] ws_suffix_append)
    also have "\<dots> = p @ trim_end t"
      using "1.IH" [OF False g] False by (simp add: trim_end.simps [of t])
    finally show ?thesis .
  qed
qed

lemma graphic_head_append: "graphic_head p \<Longrightarrow> graphic_head (p @ t)"
  by (auto simp: graphic_head_def)

lemma trim_append: "graphic_head p \<Longrightarrow> graphic_head t \<Longrightarrow> trim (p @ t) = p @ trim t"
  by (simp add: trim_def graphic_head_append trim_end_append)

lemma trim_end_matches_append:
  "t \<noteq> [] \<Longrightarrow> hd t \<noteq> c \<Longrightarrow> trim_end_matches c (p @ t) = p @ trim_end_matches c t"
  by (cases t) (simp_all add: trim_end_matches_def dropWhile_append3 dropWhile_append1 dropWhile_append)

lemma assess_lower_append:
  assumes "graphic_head p" "graphic_head t" "hd t \<noteq> CHR '';''"
  shows "assess_lower (p @ t) = to_ascii_lowercase p @ assess_lower t"
proof -
  have t: "graphic_head (trim t)" "hd (trim t) \<noteq> CHR '';''" "trim t \<noteq> []"
    using graphic_head_trim [OF assms(2)] assms(3) by (auto simp: graphic_head_def)
  have "graphic_head (trim_end_matches CHR '';'' (trim t))"
    using graphic_head_trim_end_matches [OF t(1,2)] by simp
  with assms t show ?thesis
    by (simp add: assess_lower_def trim_append trim_end_matches_append)
qed

section \<open>Scanning behind a prefix\<close>

lemma skip_while_shift: "skip_while f (p @ t) (length p + i) = length p + skip_while f t i"
  by (simp add: skip_while_takeWhile)

lemma word_end_shift: "word_end (p @ t) (length p + i) = length p + word_end t i"
  by (simp add: word_end_def skip_while_shift)

lemma slice_shift: "slice (length p + i) (length p + j) (p @ t) = slice i j t"
  by (simp add: slice_def)

lemma inner_statement_shift:
  "inner_statement_from (p @ t) (length p + i) = map_option ((+) (length p)) (inner_statement_from t i)"
proof (induction t i rule: inner_statement_from.induct)
  case (1 t i)
  have r: "inner_statement_from (p @ t) (length p + i) =
     (if i < length t then
        if \<not> is_word_byte (t ! i) then inner_statement_from (p @ t) (length p + (i + 1))
        else if list_ex (\<lambda>v. eq_ignore_ascii_case (slice i (word_end t i) t) v) VERBS
          then Some (length p + i)
        else inner_statement_from (p @ t) (length p + word_end t i)
      else None)"
    by (subst inner_statement_from.simps) (simp add: word_end_shift slice_shift)
  show ?case
    unfolding r using 1 by (simp add: inner_statement_from.simps [of t i])
qed

section \<open>EXPLAIN ANALYZE\<close>

lemma explain_analyze_scan:
  "inner_statement_at (''EXPLAIN ANALYZE '' @ t) = map_option ((+) 16) (inner_statement_at t)"
proof -
  let ?b = "''EXPLAIN ANALYZE '' @ t"
  have nv: "\<not> list_ex (eq_ignore_ascii_case ''EXPLAIN'') VERBS"
    "\<not> list_ex (eq_ignore_ascii_case ''ANALYZE'') VERBS"
    by (simp_all add: VERBS_def eq_ignore_ascii_case_def)
  have w: "word_end ?b 0 = 7" "word_end ?b 8 = 15"
    by (simp_all add: word_end_def skip_while_takeWhile byte_class)
  have "inner_statement_from ?b 0 = inner_statement_from ?b 7"
    using nv w by (subst inner_statement_from.simps) (simp add: byte_class slice_def)
  also have "\<dots> = inner_statement_from ?b 8"
    by (subst inner_statement_from.simps) (simp add: byte_class)
  also have "\<dots> = inner_statement_from ?b 15"
    using nv w by (subst inner_statement_from.simps) (simp add: byte_class slice_def)
  also have "\<dots> = inner_statement_from ?b 16"
    by (subst inner_statement_from.simps) (simp add: byte_class)
  also have "\<dots> = map_option ((+) 16) (inner_statement_from t 0)"
    using inner_statement_shift [of "''EXPLAIN ANALYZE ''" t 0] by (simp add: numeral_eq_Suc)
  finally show ?thesis by (simp add: inner_statement_at_def)
qed

text \<open>
  \<^verbatim>\<open>EXPLAIN ANALYZE\<close> runs the statement it is given, so it is graded as that statement: for every
  statement whose stripped text starts with one of the verbs \<^verbatim>\<open>inner_statement_at\<close> knows, the prefix
  changes neither the level nor the reasons.
\<close>

theorem explain_analyze_grades_inner:
  assumes "inner_statement_at t = Some 0"
  shows "assess_one (''EXPLAIN ANALYZE '' @ s) (''EXPLAIN ANALYZE '' @ t) d = assess_one s t d"
proof -
  have "t \<noteq> []" "is_word_byte (t ! 0)"
    using inner_statement_from_Some [of t 0 0] assms by (auto simp: inner_statement_at_def)
  then have t: "graphic_head t" "hd t \<noteq> CHR '';''"
    by (cases t; auto simp: graphic_head_def byte_class)+
  have "graphic_head ''EXPLAIN ANALYZE ''" by (simp add: graphic_head_def)
  moreover have "to_ascii_lowercase ''EXPLAIN ANALYZE '' = ''explain analyze ''" by simp
  ultimately have l: "assess_lower (''EXPLAIN ANALYZE '' @ t) = ''explain analyze '' @ assess_lower t"
    using assess_lower_append [OF _ t, of "''EXPLAIN ANALYZE ''"] by simp
  have kw: "first_keyword (''explain analyze '' @ assess_lower t) = ''explain''"
    by (subst first_keyword_alpha) (simp_all add: byte_class)
  have an: "has_word (''explain analyze '' @ assess_lower t) ''analyze''"
    by (simp add: has_word_def byte_class)
  show ?thesis
    using l kw an assms explain_analyze_scan [of t]
    by (subst assess_one.simps) simp
qed

lemma explain_analyze_grades_inner_witness:
  "inner_statement_at ''DELETE FROM t'' = Some 0 \<and>
   assess_one (''EXPLAIN ANALYZE '' @ ''DELETE FROM t'') (''EXPLAIN ANALYZE '' @ ''DELETE FROM t'') PostgresD
     = (Risky, [WholeTable Delete (Some ''t'')])"
proof -
  have a: "inner_statement_at ''DELETE FROM t'' = Some 0" by code_simp
  have "assess_one ''DELETE FROM t'' ''DELETE FROM t'' PostgresD = (Risky, [WholeTable Delete (Some ''t'')])"
    by code_simp
  with explain_analyze_grades_inner [OF a, of "''DELETE FROM t''" PostgresD] a show ?thesis
    by (simp only: simp_thms)
qed

text \<open>The British spelling, which PostgreSQL also accepts, is not seen: the statement is graded \<^verbatim>\<open>Safe\<close>.\<close>

lemma explain_analyse_graded_safe:
  "assess_one ''EXPLAIN ANALYSE DELETE FROM t'' ''EXPLAIN ANALYSE DELETE FROM t'' PostgresD = (Safe, [])"
proof -
  have l: "assess_lower ''EXPLAIN ANALYSE DELETE FROM t'' = ''explain analyse delete from t''"
    by code_simp
  have kw: "first_keyword ''explain analyse delete from t'' = ''explain''"
    by (subst first_keyword_alpha) (simp_all add: byte_class)
  have "\<not> has_word ''explain analyse delete from t'' ''analyze''"
    by (simp add: has_word_def byte_class)
  with kw show ?thesis by (subst assess_one.simps) (simp add: l)
qed

section \<open>The target of a statement\<close>

text \<open>An unquoted identifier as the extractor reads it, and how it lexes at an offset.\<close>

definition ident_byte :: "char \<Rightarrow> bool" where
  "ident_byte c \<longleftrightarrow> is_ascii_alphanumeric c \<or> c = CHR ''_''"

definition is_ident :: "string \<Rightarrow> bool" where
  "is_ident w \<longleftrightarrow> w \<noteq> [] \<and> (is_ascii_alphabetic (hd w) \<or> hd w = CHR ''_'') \<and> list_all ident_byte w"

lemma lex_at_space:
  "i < length b \<Longrightarrow> is_ascii_whitespace (b ! i) \<Longrightarrow> lex_refs_from b i = lex_refs_from b (i + 1)"
  by (subst lex_refs_from.simps) simp

lemma lex_at_dot: "i < length b \<Longrightarrow> b ! i = CHR ''.'' \<Longrightarrow> lex_refs_from b i = Dot # lex_refs_from b (i + 1)"
  by (subst lex_refs_from.simps) (simp add: byte_class)

lemma lex_at_end: "length b \<le> i \<Longrightarrow> lex_refs_from b i = []"
  by (subst lex_refs_from.simps) simp

lemma takeWhile_ident:
  "list_all f w \<Longrightarrow> r = [] \<or> \<not> f (hd r) \<Longrightarrow> takeWhile f (w @ r) = w"
  by (cases r) (auto simp: list_all_iff takeWhile_append2)

lemma lex_at_ident:
  assumes "drop i b = w @ r" "is_ident w" "r = [] \<or> \<not> ident_byte (hd r)"
  shows "lex_refs_from b i = Ident w # lex_refs_from b (i + length w)"
proof -
  have i: "i < length b"
    using assms(1,2) by (metis append_is_Nil_conv drop_all is_ident_def leI)
  have c: "b ! i = hd w"
    using assms(1,2) i by (metis append_is_Nil_conv hd_append2 hd_drop_conv_nth is_ident_def)
  have k: "is_ascii_alphabetic (b ! i) \<or> b ! i = CHR ''_''" using c assms(2) by (simp add: is_ident_def)
  then have n: "\<not> is_ascii_whitespace (b ! i)" "b ! i \<noteq> CHR ''-''" "b ! i \<noteq> CHR ''/''"
    "b ! i \<noteq> CHR 0x27" "b ! i \<noteq> CHR 0x22" "b ! i \<noteq> CHR ''`''" "b ! i \<noteq> CHR ''[''"
    by (auto simp: byte_class)
  have "skip_while (\<lambda>x. is_ascii_alphanumeric x \<or> x = CHR ''_'') b i = i + length w"
    using takeWhile_ident [of ident_byte w r] assms
    by (simp add: skip_while_takeWhile is_ident_def ident_byte_def [abs_def])
  moreover have "slice i (i + length w) b = w" using assms(1) by (simp add: slice_def)
  ultimately show ?thesis
    using i k n by (subst lex_refs_from.simps) (simp add: Let_def)
qed

lemma drop_advance: "drop i b = w @ r \<Longrightarrow> drop (i + length w) b = r"
  by (metis append_eq_conv_conj drop_drop add.commute)

text \<open>What may follow the name: nothing, or a space and a word.\<close>

definition name_tail :: "string \<Rightarrow> bool" where
  "name_tail r \<longleftrightarrow> r = [] \<or> (\<exists>x r'. r = CHR '' '' # x # r' \<and> is_ascii_alphabetic x)"

lemma name_tail_not_dot:
  assumes "drop i b = r" "name_tail r"
  shows "\<nexists>ts. lex_refs_from b i = Dot # ts"
proof (cases "r = []")
  case True
  with assms(1) show ?thesis by (simp add: lex_at_end)
next
  case False
  with assms(2) obtain x r' where r: "r = CHR '' '' # x # r'" "is_ascii_alphabetic x"
    by (auto simp: name_tail_def)
  let ?w = "takeWhile ident_byte (x # r')"
  have len: "i < length b" using assms(1) r(1) by (metis drop_all leI list.distinct(1))
  have bi: "b ! i = CHR '' ''" using assms(1) r(1) len by (metis hd_drop_conv_nth list.sel(1))
  have d: "drop (i + 1) b = x # r'" using assms(1) r(1) by (simp add: drop_Suc drop_tl)
  have "lex_refs_from b (i + 1) = Ident ?w # lex_refs_from b (i + 1 + length ?w)"
  proof (rule lex_at_ident)
    show "drop (i + 1) b = ?w @ dropWhile ident_byte (x # r')" using d by simp
    show "is_ident ?w"
      using r(2) by (auto simp: is_ident_def ident_byte_def is_ascii_alphanumeric_def list_all_iff
          dest: set_takeWhileD)
    show "dropWhile ident_byte (x # r') = [] \<or> \<not> ident_byte (hd (dropWhile ident_byte (x # r')))"
      using hd_dropWhile by blast
  qed
  with bi len show ?thesis by (simp add: lex_at_space byte_class)
qed

fun dotted :: "string list \<Rightarrow> string" where
  "dotted [] = []"
| "dotted [w] = w"
| "dotted (w # ws) = w @ CHR ''.'' # dotted ws"

lemma read_ref_dotted:
  "drop i b = dotted ws @ r \<Longrightarrow> ws \<noteq> [] \<Longrightarrow> list_all is_ident ws \<Longrightarrow> name_tail r \<Longrightarrow>
     read_ref_acc acc (lex_refs_from b i) = Some (acc @ dotted ws)"
proof (induction ws arbitrary: i acc rule: dotted.induct)
  case (2 w)
  have nt: "r = [] \<or> \<not> ident_byte (hd r)"
    using "2.prems"(4) by (auto simp: name_tail_def ident_byte_def byte_class)
  have l: "lex_refs_from b i = Ident w # lex_refs_from b (i + length w)"
    using "2.prems" nt by (intro lex_at_ident) simp_all
  have "\<nexists>ts. lex_refs_from b (i + length w) = Dot # ts"
    using "2.prems" drop_advance [of i b w r] by (intro name_tail_not_dot) simp_all
  then show ?case
    unfolding l by (cases "lex_refs_from b (i + length w)"; cases "hd (lex_refs_from b (i + length w))") auto
next
  case (3 w v vs)
  have l: "lex_refs_from b i = Ident w # lex_refs_from b (i + length w)"
  proof (rule lex_at_ident)
    show "drop i b = w @ CHR ''.'' # dotted (v # vs) @ r" using "3.prems"(1) by simp
    show "is_ident w" using "3.prems"(3) by simp
    show "CHR ''.'' # dotted (v # vs) @ r = [] \<or> \<not> ident_byte (hd (CHR ''.'' # dotted (v # vs) @ r))"
      by (simp add: ident_byte_def byte_class del: dotted.simps)
  qed
  have d: "drop (i + length w) b = CHR ''.'' # dotted (v # vs) @ r"
    using "3.prems"(1) drop_advance [of i b w] by simp
  then have len: "i + length w < length b" by (metis drop_all leI list.distinct(1))
  have "b ! (i + length w) = CHR ''.''" using d len by (metis hd_drop_conv_nth list.sel(1))
  with len have l2: "lex_refs_from b (i + length w) = Dot # lex_refs_from b (i + length w + 1)"
    by (rule lex_at_dot)
  have "drop (i + length w + 1) b = dotted (v # vs) @ r"
    using d by (simp add: drop_Suc drop_tl)
  with "3.IH" "3.prems" show ?case unfolding l l2 by simp
qed simp

fun phrase :: "string list \<Rightarrow> string" where
  "phrase [] = []"
| "phrase (w # ws) = w @ CHR '' '' # phrase ws"

lemma lex_phrase:
  "drop i b = phrase kws @ r \<Longrightarrow> list_all is_ident kws \<Longrightarrow>
     lex_refs_from b i = map Ident kws @ lex_refs_from b (i + length (phrase kws))"
proof (induction kws arbitrary: i)
  case (Cons w ws)
  let ?k = "i + length w"
  have "lex_refs_from b i = Ident w # lex_refs_from b ?k"
    using Cons.prems by (intro lex_at_ident [where r = "CHR '' '' # phrase ws @ r"])
      (simp_all add: ident_byte_def byte_class)
  moreover have d: "drop ?k b = CHR '' '' # phrase ws @ r"
    using Cons.prems(1) drop_advance [of i b w] by simp
  moreover have len: "?k < length b" using d by (metis drop_all leI list.distinct(1))
  moreover have "b ! ?k = CHR '' ''" using d len by (metis hd_drop_conv_nth list.sel(1))
  moreover have "drop (?k + 1) b = phrase ws @ r" using d by (simp add: drop_Suc drop_tl)
  ultimately show ?case
    using Cons.IH [of "?k + 1"] Cons.prems(2)
    by (simp add: lex_at_space [of ?k] byte_class add.assoc)
qed simp

lemma lex_dotted_head:
  assumes "drop i b = dotted (w # ws) @ r" "is_ident w" "name_tail r"
  shows "\<exists>ts. lex_refs_from b i = Ident w # ts"
proof -
  let ?r = "case ws of [] \<Rightarrow> r | v # vs \<Rightarrow> CHR ''.'' # dotted (v # vs) @ r"
  have "drop i b = w @ ?r" using assms(1) by (cases ws) simp_all
  moreover have "?r = [] \<or> \<not> ident_byte (hd ?r)"
    using assms(3) by (cases ws) (auto simp: name_tail_def ident_byte_def byte_class simp del: dotted.simps)
  ultimately show ?thesis using lex_at_ident assms(2) by blast
qed

definition target_phrases :: "string list list" where
  "target_phrases =
     [[''UPDATE''], [''DELETE'', ''FROM''], [''INSERT'', ''INTO''], [''MERGE'', ''INTO''],
      [''TRUNCATE'', ''TABLE''], [''DROP'', ''TABLE''], [''DROP'', ''TABLE'', ''IF'', ''EXISTS''],
      [''DROP'', ''INDEX'', ''CONCURRENTLY''], [''ALTER'', ''TABLE'']]"

definition phrase_start :: "string list \<Rightarrow> nat" where
  "phrase_start kws = (if hd kws = ''UPDATE'' \<or> hd kws = ''TRUNCATE'' then 1 else 2)"

lemma target_phrase_tokens:
  assumes "kws \<in> set target_phrases" "to_ascii_lowercase w \<notin> set target_modifiers"
  shows "target_at (map Ident kws @ Ident w # ts) = Some (phrase_start kws)"
    and "phrase_start kws \<le> length kws"
    and "skip_modifiers (drop (phrase_start kws) (map Ident kws @ Ident w # ts)) = Ident w # ts"
proof -
  have mods: "''table'' \<in> set target_modifiers" "''if'' \<in> set target_modifiers"
    "''exists'' \<in> set target_modifiers" "''concurrently'' \<in> set target_modifiers"
    by (simp_all add: target_modifiers_def)
  have "list_all (\<lambda>kws. target_at (map Ident kws @ Ident w # ts) = Some (phrase_start kws)) target_phrases"
    by (simp add: target_phrases_def target_at_def ref_word_def phrase_start_def)
  moreover have "list_all (\<lambda>kws. phrase_start kws \<le> length kws) target_phrases"
    by (simp add: target_phrases_def phrase_start_def)
  moreover have "list_all (\<lambda>kws. skip_modifiers (drop (phrase_start kws) (map Ident kws @ Ident w # ts))
      = Ident w # ts) target_phrases"
    using assms(2) by (simp add: target_phrases_def phrase_start_def mods)
  ultimately show "target_at (map Ident kws @ Ident w # ts) = Some (phrase_start kws)"
    "phrase_start kws \<le> length kws"
    "skip_modifiers (drop (phrase_start kws) (map Ident kws @ Ident w # ts)) = Ident w # ts"
    using assms(1) by (simp_all add: list_all_iff)
qed

lemma target_phrases_ident: "kws \<in> set target_phrases \<Longrightarrow> list_all is_ident kws"
  by (auto simp: target_phrases_def is_ident_def ident_byte_def byte_class)

text \<open>
  The target shown to the user is the name as written: after any of the usual verb phrases
  (\<^verbatim>\<open>UPDATE\<close>, \<^verbatim>\<open>DELETE FROM\<close>, \<^verbatim>\<open>INSERT INTO\<close>, \<^verbatim>\<open>DROP TABLE IF EXISTS\<close>, ...) a possibly qualified name of
  unquoted identifiers, whose first part is not itself one of the modifiers, is given back verbatim.
\<close>

theorem target_object_verbatim:
  assumes "kws \<in> set target_phrases"
    and "list_all is_ident (w # ws)" "to_ascii_lowercase w \<notin> set target_modifiers"
    and "name_tail r"
  shows "target_object (phrase kws @ dotted (w # ws) @ r) = Some (dotted (w # ws))"
proof -
  let ?b = "phrase kws @ dotted (w # ws) @ r"
  let ?i = "length (phrase kws)"
  have d: "drop ?i ?b = dotted (w # ws) @ r" by simp
  obtain ts where ts: "lex_refs_from ?b ?i = Ident w # ts"
    using lex_dotted_head [OF d] assms(2,4) by auto
  then have l: "lex_refs ?b = map Ident kws @ Ident w # ts"
    using lex_phrase [of 0 ?b kws "dotted (w # ws) @ r"] target_phrases_ident [OF assms(1)]
    by (simp add: lex_refs_def del: dotted.simps)
  have rr: "read_ref (Ident w # ts) = Some (dotted (w # ws))"
    using read_ref_dotted [OF d _ assms(2,4), of "[]"] ts by (simp add: read_ref_def del: dotted.simps)
  show ?thesis
    using target_phrase_tokens [OF assms(1,3)] l rr by (simp add: target_object_def)
qed

lemma target_object_verbatim_witness:
  "target_object (phrase [''DELETE'', ''FROM''] @ dotted [''public'', ''orders''] @ '' WHERE id = 1'')
     = Some ''public.orders''"
proof -
  have h: "[''DELETE'', ''FROM''] \<in> set target_phrases" "list_all is_ident [''public'', ''orders'']"
    "to_ascii_lowercase ''public'' \<notin> set target_modifiers" "name_tail '' WHERE id = 1''"
    by (simp_all add: target_phrases_def is_ident_def ident_byte_def byte_class target_modifiers_def
        name_tail_def)
  from target_object_verbatim [of "[''DELETE'', ''FROM'']" "''public''" "[''orders'']" "'' WHERE id = 1''"] h
  show ?thesis by simp
qed

text \<open>
  A dot inside a quoted name is taken for a qualifier, so the name to type is not the one a person
  would call the table.
\<close>

lemma bare_name_quoted_dot: "bare_name (CHR 0x22 # ''a.b'' @ [CHR 0x22]) = ''b''"
  by code_simp

end
