(* ===== verification/Sql_Target.thy ===== *)
theory Sql_Target
  imports Sql_Risk
begin

text \<open>
  What a statement would touch: \<^verbatim>\<open>write_target\<close> of \<^verbatim>\<open>crates/red-core/src/sql/target.rs\<close> (the table and the
  predicate of an \<^verbatim>\<open>UPDATE\<close> or \<^verbatim>\<open>DELETE\<close>) and \<^verbatim>\<open>count_preflight\<close> of
  \<^verbatim>\<open>crates/red-core/src/sql/preflight.rs\<close> (the query that counts the affected rows). Both find a
  keyword in the stripped copy and slice the original there. The theorems give the specification of
  the top-level keyword search, its agreement with the second copy of it in \<^verbatim>\<open>preflight.rs\<close>, and that
  what is sliced out of the original is the text behind its own \<^verbatim>\<open>WHERE\<close>.
\<close>

section \<open>target.rs\<close>

record write_target_t =
  wt_table :: string
  wt_predicate :: string

definition clause_tail :: "string \<Rightarrow> string" where
  \<comment> \<open>\<^verbatim>\<open>.trim().trim_end_matches(';').trim()\<close>\<close>
  "clause_tail s = trim (trim_end_matches CHR '';'' (trim s))"

text \<open>The checks that decline a statement with a second relation in play.\<close>

definition single_relation :: "string \<Rightarrow> string \<Rightarrow> nat \<Rightarrow> bool" where
  "single_relation verb lower where_at =
     (let head = take where_at lower in
      top_level_word head ''join'' = None \<and> top_level_word head ''using'' = None \<and>
      (if verb = ''update'' then
         (case top_level_word head ''set'' of
            None \<Rightarrow> False
          | Some set_at \<Rightarrow>
            top_level_word head ''from'' = None \<and> \<not> has_top_level_comma (take set_at lower))
       else \<not> has_top_level_comma head))"

definition min_list_option :: "nat list \<Rightarrow> nat option" where
  "min_list_option xs = (if xs = [] then None else Some (foldr min xs (hd xs)))"

definition clause_end :: "string list \<Rightarrow> string \<Rightarrow> nat \<Rightarrow> nat option" where
  \<comment> \<open>\<^verbatim>\<open>.filter_map(top_level_word).filter(|at| *at > from).min()\<close>\<close>
  "clause_end words lower from =
     min_list_option (filter (\<lambda>at. from < at) (List.map_filter (top_level_word lower) words))"

definition write_target :: "string \<Rightarrow> dialect \<Rightarrow> write_target_t option" where
  "write_target sql d =
     (let stripped = strip_noise sql d;
          verb = to_ascii_lowercase (first_keyword stripped);
          lower = to_ascii_lowercase stripped in
      if verb \<noteq> ''update'' \<and> verb \<noteq> ''delete'' then None
      else (case top_level_word lower ''where'' of
        None \<Rightarrow> None
      | Some where_at \<Rightarrow>
        if \<not> single_relation verb lower where_at then None
        else if (case top_level_word lower ''limit'' of None \<Rightarrow> False | Some at \<Rightarrow> where_at < at) then None
        else
          let end = (case clause_end [''returning'', ''order''] lower where_at of
                       Some e \<Rightarrow> e | None \<Rightarrow> min (length sql) (length lower))
          in (case str_get sql (where_at + 5) end of
                None \<Rightarrow> None
              | Some s \<Rightarrow>
                let predicate = clause_tail s in
                if predicate = [] then None
                else (case target_object sql of
                        None \<Rightarrow> None
                      | Some t \<Rightarrow> Some \<lparr>wt_table = t, wt_predicate = predicate\<rparr>))))"

section \<open>preflight.rs\<close>

text \<open>The copy of \<^verbatim>\<open>top_level_word\<close> in this file, with its own inner loop.\<close>

function pf_top_level_word_from :: "bytes \<Rightarrow> string \<Rightarrow> int \<Rightarrow> nat \<Rightarrow> nat option" where
  "pf_top_level_word_from b w depth at =
     (if at < length b then
        let c = b ! at in
        if c = CHR ''('' then pf_top_level_word_from b w (depth + 1) (at + 1)
        else if c = CHR '')'' then pf_top_level_word_from b w (depth - 1) (at + 1)
        else if is_ascii_alphanumeric c \<or> c = CHR ''_'' then
          let e = skip_while (\<lambda>x. is_ascii_alphanumeric x \<or> x = CHR ''_'') b at in
          if depth = 0 \<and> slice at e b = w then Some at
          else pf_top_level_word_from b w depth e
        else pf_top_level_word_from b w depth (at + 1)
      else None)"
  by pat_completeness auto
termination
  by (relation "measure (\<lambda>(b, w, depth, i). length b - i)")
    (auto intro!: diff_less_mono2 skip_while_gt)

declare pf_top_level_word_from.simps [simp del]

definition pf_top_level_word :: "string \<Rightarrow> string \<Rightarrow> nat option" where
  "pf_top_level_word lower w = pf_top_level_word_from lower w 0 0"

fun top_level_comma_from :: "int \<Rightarrow> nat \<Rightarrow> bytes \<Rightarrow> nat option" where
  "top_level_comma_from depth at [] = None"
| "top_level_comma_from depth at (c # r) =
     (if c = CHR ''('' then top_level_comma_from (depth + 1) (at + 1) r
      else if c = CHR '')'' then top_level_comma_from (depth - 1) (at + 1) r
      else if c = CHR '','' \<and> depth = 0 then Some at
      else top_level_comma_from depth (at + 1) r)"

definition top_level_comma :: "string \<Rightarrow> nat option" where
  "top_level_comma lower = top_level_comma_from 0 0 lower"

definition where_tail :: "string \<Rightarrow> string \<Rightarrow> string option" where
  "where_tail stmt lower =
     (case pf_top_level_word lower ''where'' of
        None \<Rightarrow> None
      | Some at \<Rightarrow> Some (trim_end (trim_end_matches CHR '';'' (trim_end (drop at stmt)))))"

definition select_over :: "string \<Rightarrow> string option \<Rightarrow> string" where
  "select_over tbl tail =
     (case tail of
        Some t \<Rightarrow> ''SELECT 1 FROM '' @ tbl @ '' '' @ t
      | None \<Rightarrow> ''SELECT 1 FROM '' @ tbl)"

definition preflight_one :: "string \<Rightarrow> string \<Rightarrow> string \<Rightarrow> string option" where
  \<comment> \<open>the \<^verbatim>\<open>match first_keyword(&lower)\<close>\<close>
  "preflight_one stmt lower tbl =
     (let kw = first_keyword lower in
      if kw = ''update'' then
        (if pf_top_level_word lower ''from'' \<noteq> None then None
         else (case pf_top_level_word lower ''set'' of
                 None \<Rightarrow> None
               | Some set_at \<Rightarrow>
                 if (case top_level_comma lower of None \<Rightarrow> False | Some comma \<Rightarrow> comma < set_at) then None
                 else Some (select_over tbl (where_tail stmt lower))))
      else if kw = ''delete'' then Some (select_over tbl (where_tail stmt lower))
      else if kw = ''truncate'' then
        (if top_level_comma lower = None then Some (select_over tbl None) else None)
      else if kw = ''drop'' then
        (if word_at lower 1 = ''table'' \<and> top_level_comma lower = None
         then Some (select_over tbl None) else None)
      else None)"

definition count_preflight :: "string \<Rightarrow> dialect \<Rightarrow> string option" where
  "count_preflight sql d =
     (case runnable sql d of
        [(stmt, stripped)] \<Rightarrow>
          (let lower = to_ascii_lowercase stripped in
           if list_ex (\<lambda>w. pf_top_level_word lower w \<noteq> None) [''returning'', ''using'', ''join''] then None
           else (case target_object stmt of
                   None \<Rightarrow> None
                 | Some tbl \<Rightarrow> preflight_one stmt lower tbl))
      | _ \<Rightarrow> None)"

section \<open>The top-level keyword search\<close>

text \<open>The parenthesis depth after a prefix, and what a match at an offset is.\<close>

definition paren_depth :: "bytes \<Rightarrow> int" where
  "paren_depth s = int (count_list s CHR ''('') - int (count_list s CHR '')'')"

definition word_start :: "bytes \<Rightarrow> nat \<Rightarrow> bool" where
  "word_start b i \<longleftrightarrow>
     i < length b \<and> is_word_byte (b ! i) \<and> (i = 0 \<or> \<not> is_word_byte (b ! (i - 1)))"

definition top_level_match :: "bytes \<Rightarrow> string \<Rightarrow> nat \<Rightarrow> bool" where
  "top_level_match b w i \<longleftrightarrow>
     word_start b i \<and> slice i (word_end b i) b = w \<and> paren_depth (take i b) = 0"

lemma paren_depth_Suc:
  "i < length b \<Longrightarrow> paren_depth (take (Suc i) b) = paren_depth (take i b) +
     (if b ! i = CHR ''('' then 1 else if b ! i = CHR '')'' then - 1 else 0)"
  by (simp add: paren_depth_def take_Suc_conv_app_nth)

lemma paren_depth_word:
  assumes "i \<le> k" "k \<le> word_end b i"
  shows "paren_depth (take k b) = paren_depth (take i b)"
  using assms
proof (induction k)
  case (Suc k)
  show ?case
  proof (cases "i = Suc k")
    case False
    with Suc.prems have "k < length b" "is_word_byte (b ! k)"
      using skip_while_skipped [of i k is_word_byte b] by (auto simp: word_end_def)
    with Suc False show ?thesis by (auto simp: paren_depth_Suc byte_class)
  qed simp
qed simp

definition between_words :: "bytes \<Rightarrow> nat \<Rightarrow> bool" where
  "between_words b i \<longleftrightarrow>
     i = 0 \<or> \<not> is_word_byte (b ! (i - 1)) \<or> \<not> (i < length b \<and> is_word_byte (b ! i))"

lemma between_words_end: "between_words b (word_end b i)"
  using skip_while_stop [of is_word_byte b i] by (auto simp: between_words_def word_end_def)

lemma word_start_inside:
  assumes "i < j" "j < word_end b i"
  shows "\<not> word_start b j"
proof -
  have "is_word_byte (b ! (j - 1))"
    using skip_while_skipped [of i "j - 1" is_word_byte b] assms by (simp add: word_end_def)
  with assms show ?thesis by (simp add: word_start_def)
qed

definition first_match :: "bytes \<Rightarrow> string \<Rightarrow> nat \<Rightarrow> nat \<Rightarrow> bool" where
  "first_match b w i k \<longleftrightarrow>
     i \<le> k \<and> top_level_match b w k \<and> (\<forall>j. i \<le> j \<longrightarrow> j < k \<longrightarrow> \<not> top_level_match b w j)"

lemma first_match_skip:
  assumes "i \<le> i'" "\<And>j. i \<le> j \<Longrightarrow> j < i' \<Longrightarrow> \<not> top_level_match b w j"
  shows "first_match b w i k = first_match b w i' k"
proof
  assume "first_match b w i k"
  with assms show "first_match b w i' k"
    unfolding first_match_def by (metis le_trans not_le)
next
  assume "first_match b w i' k"
  with assms show "first_match b w i k"
    unfolding first_match_def by (metis le_trans not_le)
qed

lemma top_level_word_from_iff:
  "depth = paren_depth (take i b) \<Longrightarrow> between_words b i \<Longrightarrow>
     top_level_word_from b w depth i = Some k \<longleftrightarrow> first_match b w i k"
proof (induction b w depth i rule: top_level_word_from.induct)
  case (1 b w depth i)
  show ?case
  proof (cases "i < length b")
    case False
    then have "\<not> top_level_match b w k" if "i \<le> k" for k
      using that by (simp add: top_level_match_def word_start_def)
    with False show ?thesis
      by (subst top_level_word_from.simps) (auto simp: first_match_def)
  next
    case i: True
    show ?thesis
    proof (cases "is_word_byte (b ! i)")
      case False
      have "between_words b (i + 1)" using False by (simp add: between_words_def)
      moreover have "first_match b w i k = first_match b w (i + 1) k"
      proof (rule first_match_skip)
        fix j assume "i \<le> j" "j < i + 1"
        then have "j = i" by simp
        with False show "\<not> top_level_match b w j" by (simp add: top_level_match_def word_start_def)
      qed simp
      ultimately show ?thesis
        using 1 i False paren_depth_Suc [OF i] by (subst top_level_word_from.simps) auto
    next
      case w: True
      then have np: "b ! i \<noteq> CHR ''(''" "b ! i \<noteq> CHR '')''" by (auto simp: byte_class)
      have st: "word_start b i" using i w "1.prems"(2) by (auto simp: word_start_def between_words_def)
      show ?thesis
      proof (cases "depth = 0 \<and> slice i (word_end b i) b = w")
        case True
        then have "top_level_match b w i" using st "1.prems" by (simp add: top_level_match_def)
        moreover have "top_level_word_from b w depth i = Some i"
          using i w np True by (subst top_level_word_from.simps) simp
        ultimately show ?thesis
          unfolding first_match_def by (metis le_refl linorder_neqE_nat not_le option.inject)
      next
        case False
        have "first_match b w i k = first_match b w (word_end b i) k"
        proof (rule first_match_skip)
          fix j assume j: "i \<le> j" "j < word_end b i"
          show "\<not> top_level_match b w j"
          proof (cases "j = i")
            case True
            with False "1.prems" show ?thesis by (auto simp: top_level_match_def)
          next
            case False
            with j word_start_inside [of i j b] show ?thesis by (simp add: top_level_match_def)
          qed
        qed simp
        moreover have "top_level_word_from b w depth i = top_level_word_from b w depth (word_end b i)"
          using i w np False by (subst top_level_word_from.simps) auto
        moreover have "depth = paren_depth (take (word_end b i) b)"
          using "1.prems"(1) paren_depth_word [of i "word_end b i" b] by simp
        ultimately show ?thesis
          using "1.IH"(3) [OF i np w False _ between_words_end] by simp
      qed
    qed
  qed
qed

text \<open>
  \<^verbatim>\<open>top_level_word\<close> finds exactly the first whole-word occurrence at parenthesis depth 0: the
  keyword of the statement itself and never one inside a subquery or inside a longer word.
\<close>

theorem top_level_word_spec:
  "top_level_word b w = Some k \<longleftrightarrow>
     top_level_match b w k \<and> (\<forall>j. j < k \<longrightarrow> \<not> top_level_match b w j)"
  using top_level_word_from_iff [of 0 0 b w k]
  by (simp add: top_level_word_def paren_depth_def between_words_def first_match_def)

lemma top_level_word_spec_witness:
  "top_level_match ''a (where b) where c'' ''where'' 12 \<and> \<not> top_level_match ''a (where b) where c'' ''where'' 3"
proof -
  have "top_level_word ''a (where b) where c'' ''where'' = Some 12" by code_simp
  with top_level_word_spec [of "''a (where b) where c''" "''where''" 12] show ?thesis by simp
qed

lemma top_level_word_Some:
  assumes "top_level_word b w = Some k"
  shows "top_level_match b w k \<and> k + length w \<le> length b \<and> slice k (k + length w) b = w"
proof -
  have m: "top_level_match b w k"
    using top_level_word_from_iff [of 0 0 b w k] assms
    by (simp add: top_level_word_def paren_depth_def between_words_def first_match_def)
  then have sl: "slice k (word_end b k) b = w" "k < length b"
    by (auto simp: top_level_match_def word_start_def)
  have "word_end b k \<le> length b" using sl(2) by (simp add: word_end_le)
  then have "length w = word_end b k - k" using arg_cong [OF sl(1), of length] by simp
  moreover have "k \<le> word_end b k" by simp
  ultimately have e: "word_end b k = k + length w" by linarith
  show ?thesis using m sl(1) \<open>word_end b k \<le> length b\<close> unfolding e by simp
qed

section \<open>The two copies agree\<close>

lemma word_byte_fun: "(\<lambda>x. is_ascii_alphanumeric x \<or> x = CHR ''_'') = is_word_byte"
  by (auto simp: is_word_byte_def fun_eq_iff)

lemma pf_top_level_word_from_eq: "pf_top_level_word_from b w depth i = top_level_word_from b w depth i"
proof (induction b w depth i rule: top_level_word_from.induct)
  case (1 b w depth i)
  then show ?case
    by (simp add: pf_top_level_word_from.simps [of b w depth i] top_level_word_from.simps [of b w depth i]
        word_byte_fun word_end_def is_word_byte_def disj_commute Let_def)
qed

lemma pf_top_level_word_eq: "pf_top_level_word = top_level_word"
  by (simp add: fun_eq_iff pf_top_level_word_def top_level_word_def pf_top_level_word_from_eq)

lemma top_level_comma_from_iff:
  "(top_level_comma_from depth i s \<noteq> None) = has_top_level_comma_from depth s"
  by (induction depth i s rule: top_level_comma_from.induct) simp_all

text \<open>
  The private copies of the keyword search and of the comma search in \<^verbatim>\<open>preflight.rs\<close> agree with
  the shared ones of \<^verbatim>\<open>sql.rs\<close> on every input, so the row-count preflight and the write preview
  decline and slice at the same places.
\<close>

theorem preflight_scanners_agree:
  "pf_top_level_word lower w = top_level_word lower w \<and>
   (top_level_comma lower \<noteq> None) = has_top_level_comma lower"
  by (simp add: pf_top_level_word_eq top_level_comma_def has_top_level_comma_def top_level_comma_from_iff
      del: not_None_eq)

section \<open>What is sliced out of the statement\<close>

lemma keyword_in_original:
  assumes "top_level_word (to_ascii_lowercase (strip_noise sql d)) w = Some k" "CHR 0x20 \<notin> set w"
  shows "k + length w \<le> length sql \<and> to_ascii_lowercase (slice k (k + length w) sql) = w"
proof -
  let ?l = "to_ascii_lowercase (strip_noise sql d)"
  have k: "k + length w \<le> length sql" "slice k (k + length w) ?l = w"
    using top_level_word_Some [OF assms(1)] by simp_all
  have "to_ascii_lowercase (slice k (k + length w) sql) = w"
  proof (rule nth_equalityI)
    show "length (to_ascii_lowercase (slice k (k + length w) sql)) = length w" using k(1) by simp
    fix i assume "i < length (to_ascii_lowercase (slice k (k + length w) sql))"
    then have i: "i < length w" using k(1) by simp
    have wi: "w ! i = lower_byte (strip_noise sql d ! (k + i))"
      using arg_cong [OF k(2), of "\<lambda>x. x ! i"] i k(1) by (simp add: nth_slice)
    have "w ! i \<noteq> CHR 0x20" using assms(2) i nth_mem by metis
    then have "strip_noise sql d ! (k + i) \<noteq> CHR 0x20" unfolding wi by (auto simp: lower_byte_def byte_class)
    then have "strip_noise sql d ! (k + i) = sql ! (k + i)"
      using i k(1) by (intro strip_noise_nth) simp_all
    with wi i k(1) show "to_ascii_lowercase (slice k (k + length w) sql) ! i = w ! i"
      by (simp add: nth_slice)
  qed
  with k show ?thesis by simp
qed

lemma where_in_original:
  assumes "top_level_word (to_ascii_lowercase (strip_noise sql d)) ''where'' = Some k"
  shows "to_ascii_lowercase (slice k (k + 5) sql) = ''where''"
proof -
  have n: "length ''where'' = 5" by simp
  from keyword_in_original [OF assms] show ?thesis unfolding n by (simp only: list.simps char.simps) simp
qed

text \<open>
  A write preview describes the statement that will run: when \<^verbatim>\<open>write_target\<close> answers, the
  statement is an \<^verbatim>\<open>UPDATE\<close> or \<^verbatim>\<open>DELETE\<close>, the predicate is the trimmed text of the original statement
  (its literals intact) right behind a \<^verbatim>\<open>WHERE\<close> that stands at top level and outside every literal
  and comment, it is not empty, no top-level \<^verbatim>\<open>LIMIT\<close> follows it, and the table is the statement's own
  target.
\<close>

theorem write_target_slices_original:
  assumes "write_target sql d = Some wt"
  shows "to_ascii_lowercase (first_keyword (strip_noise sql d)) \<in> {''update'', ''delete''} \<and>
    target_object sql = Some (wt_table wt) \<and> wt_predicate wt \<noteq> [] \<and>
    (\<exists>k e. top_level_match (to_ascii_lowercase (strip_noise sql d)) ''where'' k \<and>
       to_ascii_lowercase (slice k (k + 5) sql) = ''where'' \<and>
       k + 5 \<le> e \<and> e \<le> length sql \<and>
       wt_predicate wt = clause_tail (slice (k + 5) e sql) \<and>
       (\<forall>m. top_level_word (to_ascii_lowercase (strip_noise sql d)) ''limit'' = Some m \<longrightarrow> m \<le> k))"
proof -
  let ?l = "to_ascii_lowercase (strip_noise sql d)"
  from assms obtain k e t s where
      verb: "to_ascii_lowercase (first_keyword (strip_noise sql d)) \<in> {''update'', ''delete''}"
    and k: "top_level_word ?l ''where'' = Some k"
    and lim: "\<not> (case top_level_word ?l ''limit'' of None \<Rightarrow> False | Some m \<Rightarrow> k < m)"
    and s: "str_get sql (k + 5) e = Some s" "clause_tail s \<noteq> []" "target_object sql = Some t"
    and wt: "wt = \<lparr>wt_table = t, wt_predicate = clause_tail s\<rparr>"
    by (auto simp: write_target_def Let_def split: option.splits if_splits)
  have "to_ascii_lowercase (slice k (k + 5) sql) = ''where''"
    by (rule where_in_original [OF k])
  moreover have "top_level_match ?l ''where'' k" using top_level_word_Some [OF k] by simp
  moreover have "k + 5 \<le> e" "e \<le> length sql" "s = slice (k + 5) e sql"
    using s(1) by (auto simp: str_get_def split: if_splits)
  moreover have "\<forall>m. top_level_word ?l ''limit'' = Some m \<longrightarrow> m \<le> k" using lim by auto
  ultimately show ?thesis using verb s wt by auto
qed

lemma write_target_slices_original_witness:
  "\<exists>wt. write_target ''delete from t where a=1'' SqliteD = Some wt \<and> wt_table wt = ''t''"
proof -
  have s: "strip_noise ''delete from t where a=1'' SqliteD = ''delete from t where a=1''" by code_simp
  have t: "target_object ''delete from t where a=1'' = Some ''t''" by code_simp
  have "write_target ''delete from t where a=1'' SqliteD \<noteq> None"
    unfolding write_target_def s t by code_simp
  then obtain wt where wt: "write_target ''delete from t where a=1'' SqliteD = Some wt" by blast
  with write_target_slices_original [OF wt] t show ?thesis by simp
qed

text \<open>
  C6. The preflight counts what the statement will touch: it answers for a script with exactly one
  runnable statement, and its query selects from that statement's own target, either without a filter,
  where the statement has no top-level \<^verbatim>\<open>WHERE\<close> or takes the whole table, or with the tail of the
  original statement from its own top-level \<^verbatim>\<open>WHERE\<close> on.
\<close>

theorem count_preflight_slices_original:
  assumes "count_preflight sql d = Some q"
  shows "\<exists>stmt tbl. runnable sql d = [(stmt, strip_noise stmt d)] \<and> target_object stmt = Some tbl \<and>
    (q = ''SELECT 1 FROM '' @ tbl \<and>
       (top_level_word (to_ascii_lowercase (strip_noise stmt d)) ''where'' = None \<or>
        first_keyword (to_ascii_lowercase (strip_noise stmt d)) \<in> {''truncate'', ''drop''})
     \<or> (\<exists>k. top_level_match (to_ascii_lowercase (strip_noise stmt d)) ''where'' k \<and>
          to_ascii_lowercase (slice k (k + 5) stmt) = ''where'' \<and>
          q = ''SELECT 1 FROM '' @ tbl @ '' '' @
            trim_end (trim_end_matches CHR '';'' (trim_end (drop k stmt)))))"
proof -
  from assms obtain stmt stripped tbl where
      r: "runnable sql d = [(stmt, stripped)]" and t: "target_object stmt = Some tbl"
    and q: "preflight_one stmt (to_ascii_lowercase stripped) tbl = Some q"
    by (auto simp: count_preflight_def Let_def split: list.splits option.splits if_splits)
  have "(stmt, stripped) \<in> set (runnable sql d)" using r by simp
  then have st: "stripped = strip_noise stmt d" by (auto simp: runnable_def)
  let ?l = "to_ascii_lowercase (strip_noise stmt d)"
  from q consider
      (whole) "q = select_over tbl None" "first_keyword ?l \<in> {''truncate'', ''drop''}"
    | (tail) "q = select_over tbl (where_tail stmt ?l)"
    unfolding st by (auto simp: preflight_one_def Let_def split: if_splits option.splits)
  then show ?thesis
  proof cases
    case whole
    with r t st show ?thesis by (auto simp: select_over_def)
  next
    case tail
    show ?thesis
    proof (cases "top_level_word ?l ''where''")
      case None
      with tail r t st show ?thesis
        by (auto simp: select_over_def where_tail_def pf_top_level_word_eq)
    next
      case (Some k)
      then have "q = ''SELECT 1 FROM '' @ tbl @ '' '' @
          trim_end (trim_end_matches CHR '';'' (trim_end (drop k stmt)))"
        using tail by (simp add: select_over_def where_tail_def pf_top_level_word_eq)
      with r t st where_in_original [OF Some] top_level_word_Some [OF Some] show ?thesis by blast
    qed
  qed
qed

lemma count_preflight_slices_original_witness:
  "\<exists>q stmt. count_preflight ''delete from t'' SqliteD = Some q \<and> runnable ''delete from t'' SqliteD = [(stmt, strip_noise stmt SqliteD)]"
proof -
  have r: "runnable ''delete from t'' SqliteD = [(''delete from t'', ''delete from t'')]" by code_simp
  have "count_preflight ''delete from t'' SqliteD \<noteq> None"
    unfolding count_preflight_def r by code_simp
  then obtain q where q: "count_preflight ''delete from t'' SqliteD = Some q" by blast
  with count_preflight_slices_original [OF q] show ?thesis by blast
qed

text \<open>
  \<^verbatim>\<open>write_target\<close> does not check that there is one statement: the second one becomes part of the
  predicate.
\<close>

lemma write_target_accepts_batch:
  "write_target ''delete from t where a;drop table u'' SqliteD =
     Some \<lparr>wt_table = ''t'', wt_predicate = ''a;drop table u''\<rparr>"
proof -
  have s: "strip_noise ''delete from t where a;drop table u'' SqliteD = ''delete from t where a;drop table u''"
    by code_simp
  have t: "target_object ''delete from t where a;drop table u'' = Some ''t''" by code_simp
  show ?thesis unfolding write_target_def s t by code_simp
qed

end
