(* ===== verification/Sql_Shape.thy ===== *)
theory Sql_Shape
  imports Sql_Target
begin

text \<open>
  \<^verbatim>\<open>inspect\<close> of \<^verbatim>\<open>crates/red-core/src/sql/shape.rs\<close>: structural hazards of a read query. The theorems
  bound what it reports by the relations of the \<^verbatim>\<open>FROM\<close> clause, show that the clause is split without
  loss, and that the word counter counts every top-level occurrence it passes.
\<close>

section \<open>Definitions\<close>

datatype shape_warning =
    CrossJoin
  | AggregateOverJoin string nat
  | NonEquiJoin string
  | StarAcrossJoin
  | Unbounded

text \<open>
  \<^verbatim>\<open>find_word_from\<close>. \<^verbatim>\<open>haystack.get(from..)\<close> fails past the end and inside a character.
\<close>

definition find_word_from :: "string \<Rightarrow> string \<Rightarrow> nat \<Rightarrow> nat option" where
  "find_word_from haystack w from =
     (case str_get haystack from (length haystack) of
        None \<Rightarrow> None
      | Some tail \<Rightarrow> map_option (\<lambda>at. at + from) (top_level_word tail w))"

lemma find_word_from_Some:
  assumes "find_word_from h w from = Some at"
  shows "from \<le> at" "at + length w \<le> length h" "slice at (at + length w) h = w" "at < length h"
proof -
  from assms obtain k where k: "top_level_word (drop from h) w = Some k" "at = k + from"
    and le: "from \<le> length h"
    by (auto simp: find_word_from_def str_get_def slice_def split: option.splits if_splits)
  have w: "k + length w \<le> length (drop from h)" "slice k (k + length w) (drop from h) = w"
    "top_level_match (drop from h) w k"
    using top_level_word_Some [OF k(1)] by simp_all
  show "from \<le> at" by (simp add: k(2))
  show "at + length w \<le> length h" using w(1) le by (simp add: k(2))
  show "slice at (at + length w) h = w" using w(2) by (simp add: k(2) slice_def)
  have "k < length (drop from h)" using w(3) by (simp add: top_level_match_def word_start_def)
  then show "at < length h" by (simp add: k(2))
qed

lemma find_word_from_nonempty: "find_word_from h w from = Some at \<Longrightarrow> w \<noteq> []"
proof
  assume f: "find_word_from h w from = Some at" and "w = []"
  then obtain k where "top_level_word (drop from h) [] = Some k"
    by (auto simp: find_word_from_def str_get_def slice_def split: option.splits if_splits)
  then have "top_level_match (drop from h) [] k" using top_level_word_Some by blast
  then have ws: "word_start (drop from h) k" and "slice k (word_end (drop from h) k) (drop from h) = []"
    by (simp_all add: top_level_match_def)
  moreover have "k < word_end (drop from h) k" using ws by (simp add: word_start_def word_end_gt)
  ultimately show False by (auto simp: slice_def word_start_def)
qed

text \<open>\<^verbatim>\<open>count_word\<close>: restart behind each occurrence.\<close>

function count_word_from :: "string \<Rightarrow> string \<Rightarrow> nat \<Rightarrow> nat" where
  "count_word_from h w i =
     (case find_word_from h w i of
        None \<Rightarrow> 0
      | Some at \<Rightarrow> 1 + count_word_from h w (at + length w))"
  by pat_completeness auto
termination
proof (relation "measure (\<lambda>(h, w, i). length h - i)", goal_cases)
  case (2 h w i at)
  have "i \<le> at" "at < length h" "w \<noteq> []"
    using find_word_from_Some [OF 2] find_word_from_nonempty [OF 2] by simp_all
  then have "i < at + length w" "i < length h" by (cases w, simp_all)
  then show ?case by (simp add: diff_less_mono2)
qed simp

declare count_word_from.simps [simp del]

definition count_word :: "string \<Rightarrow> string \<Rightarrow> nat" where
  "count_word haystack w = count_word_from haystack w 0"

text \<open>\<^verbatim>\<open>top_level_segments\<close>: the loop carries the bytes since the last cut.\<close>

fun segments_from :: "int \<Rightarrow> bytes \<Rightarrow> bytes \<Rightarrow> bytes list" where
  "segments_from depth acc [] = [acc]"
| "segments_from depth acc (c # r) =
     (if c = CHR ''('' then segments_from (depth + 1) (acc @ [c]) r
      else if c = CHR '')'' then segments_from (depth - 1) (acc @ [c]) r
      else if c = CHR '','' \<and> depth = 0 then acc # segments_from depth [] r
      else segments_from depth (acc @ [c]) r)"

definition top_level_segments :: "string \<Rightarrow> string list" where
  "top_level_segments from =
     (if \<not> has_top_level_comma from then [from] else segments_from 0 [] from)"

definition FROM_ENDS :: "string list" where
  "FROM_ENDS = [''where'', ''group'', ''having'', ''window'', ''order'', ''limit'', ''fetch'', ''union'',
     ''intersect'', ''except'', ''into'', ''for'']"

definition from_clause_len :: "string \<Rightarrow> nat \<Rightarrow> nat" where
  "from_clause_len lower from_at =
     (let start = from_at + 4;
          end = (case clause_end FROM_ENDS lower start of Some e \<Rightarrow> e | None \<Rightarrow> length lower)
      in end - start)"

definition from_clause :: "string \<Rightarrow> nat \<Rightarrow> string" where
  "from_clause lower from_at =
     trim (case str_get lower (from_at + 4) (from_at + 4 + from_clause_len lower from_at) of
             Some s \<Rightarrow> s | None \<Rightarrow> [])"

definition count_relations :: "string \<Rightarrow> nat" where
  "count_relations from =
     (if from = [] then 0
      else length (top_level_segments from) + count_word from ''join'')"

definition WHERE_ENDS :: "string list" where
  "WHERE_ENDS = [''group'', ''having'', ''window'', ''order'', ''limit'', ''fetch'', ''union'']"

definition from_clause_after :: "string \<Rightarrow> nat \<Rightarrow> string" where
  "from_clause_after lower start =
     (let end = (case clause_end WHERE_ENDS lower start of Some e \<Rightarrow> e | None \<Rightarrow> length lower)
      in case str_get lower start end of Some s \<Rightarrow> s | None \<Rightarrow> [])"

definition is_uncorrelated :: "string \<Rightarrow> string \<Rightarrow> nat \<Rightarrow> bool" where
  "is_uncorrelated lower from from_at =
     (let explicit = count_word from ''cross'' + count_word from ''natural'';
          joins = count_word from ''join'' in
      if count_word from ''on'' + count_word from ''using'' < joins - explicit then True
      else if 1 < length (top_level_segments from) then
        let where_clause =
          (case top_level_word lower ''where'' of
             Some at \<Rightarrow> if from_at < at then from_clause_after lower (at + 5) else []
           | None \<Rightarrow> [])
        in CHR ''='' \<notin> set where_clause
      else False)"

definition JOIN_WORDS :: "string list" where
  "JOIN_WORDS = [''join'', ''inner'', ''left'', ''right'', ''full'', ''cross'', ''natural'']"

definition predicate_end :: "string \<Rightarrow> nat \<Rightarrow> nat" where
  "predicate_end from start =
     (case min_list_option (List.map_filter (\<lambda>w. find_word_from from w start) JOIN_WORDS) of
        Some e \<Rightarrow> e | None \<Rightarrow> length from)"

function on_predicates_from :: "string \<Rightarrow> nat \<Rightarrow> string list" where
  "on_predicates_from from i =
     (case find_word_from from ''on'' i of
        None \<Rightarrow> []
      | Some at \<Rightarrow>
        let start = at + 2; end = predicate_end from start;
            rest = on_predicates_from from (max end start)
        in (case str_get from start end of Some t \<Rightarrow> t # rest | None \<Rightarrow> rest))"
  by pat_completeness auto
termination
proof (relation "measure (\<lambda>(h, i). length h - i)", goal_cases)
  case (2 h i at start e)
  have "i \<le> at" "at < length h" using find_word_from_Some [OF 2(1)] by simp_all
  with 2 show ?case by (simp add: diff_less_mono2)
qed simp

declare on_predicates_from.simps [simp del]

definition on_predicates :: "string \<Rightarrow> string list" where
  "on_predicates from = on_predicates_from from 0"

definition AGGREGATES :: "string list" where
  "AGGREGATES = [''sum'', ''avg'', ''count'', ''min'', ''max'']"

function aggregate_call :: "string \<Rightarrow> string \<Rightarrow> nat \<Rightarrow> bool" where
  "aggregate_call l func i =
     (case find_word_from l func i of
        None \<Rightarrow> False
      | Some at \<Rightarrow>
        let after = at + length func; j = skip_while is_ascii_whitespace l after
        in if j < length l \<and> l ! j = CHR ''('' then True else aggregate_call l func after)"
  by pat_completeness auto
termination
proof (relation "measure (\<lambda>(h, w, i). length h - i)", goal_cases)
  case (2 h w i at after j)
  have "i \<le> at" "at < length h" "w \<noteq> []"
    using find_word_from_Some [OF 2(1)] find_word_from_nonempty [OF 2(1)] by simp_all
  then have "i < at + length w" "i < length h" by (cases w, simp_all)
  with 2 show ?case by (simp add: diff_less_mono2)
qed simp

declare aggregate_call.simps [simp del]

definition aggregate_in :: "string \<Rightarrow> string option" where
  "aggregate_in select_list = List.find (\<lambda>func. aggregate_call select_list func 0) AGGREGATES"

definition inspect :: "string \<Rightarrow> dialect \<Rightarrow> shape_warning list" where
  "inspect sql d =
     (let stripped = strip_noise sql d; lower = to_ascii_lowercase stripped in
      if \<not> eq_ignore_ascii_case (first_keyword stripped) ''select'' then []
      else (case top_level_word lower ''from'' of
        None \<Rightarrow> []
      | Some from_at \<Rightarrow>
        let select_list = take from_at lower; from = from_clause lower from_at;
            relations = count_relations from
        in if CHR ''('' \<in> set from \<or> has_word from ''lateral'' \<or> has_word from ''unnest'' then []
           else if relations = 0 then []
           else
             (if 1 < relations \<and> is_uncorrelated lower from from_at then [CrossJoin] else [])
             @ (if 1 < relations \<and> \<not> has_word lower ''distinct'' then
                  (case aggregate_in select_list of
                     Some func \<Rightarrow> [AggregateOverJoin func relations] | None \<Rightarrow> [])
                else [])
             @ map (\<lambda>p. NonEquiJoin (trim p)) (filter (\<lambda>p. CHR ''='' \<notin> set p) (on_predicates from))
             @ (if 1 < relations \<and> CHR ''*'' \<in> set select_list then [StarAcrossJoin] else [])
             @ (if top_level_word lower ''limit'' = None \<and> top_level_word lower ''fetch'' = None
                then [Unbounded] else [])))"

section \<open>Splitting and counting\<close>

lemma segments_from_nonempty: "segments_from depth acc s \<noteq> []"
  by (induction depth acc s rule: segments_from.induct) simp_all

lemma join_with_Cons: "xs \<noteq> [] \<Longrightarrow> join_with sep (x # xs) = x @ sep @ join_with sep xs"
  by (cases xs) simp_all

lemma segments_from_join: "join_with '','' (segments_from depth acc s) = acc @ s"
  by (induction depth acc s rule: segments_from.induct)
    (simp_all add: join_with_Cons segments_from_nonempty)

text \<open>
  The \<^verbatim>\<open>FROM\<close> clause is cut without loss: putting the commas back between its segments gives the
  clause, and there is more than one segment exactly when it has a top-level comma.
\<close>

theorem top_level_segments_join:
  "join_with '','' (top_level_segments from) = from \<and>
   (1 < length (top_level_segments from) \<longleftrightarrow> has_top_level_comma from)"
proof -
  have "has_top_level_comma_from depth s \<Longrightarrow> 1 < length (segments_from depth acc s)" for depth acc s
    by (induction depth acc s rule: segments_from.induct)
      (auto simp: Suc_lessI segments_from_nonempty split: if_splits)
  then show ?thesis
    using segments_from_join [of 0 "[]" "from"]
    by (simp add: top_level_segments_def has_top_level_comma_def)
qed

lemma paren_depth_append: "paren_depth (s @ t) = paren_depth s + paren_depth t"
  by (simp add: paren_depth_def)

lemma top_level_match_drop:
  assumes "i \<le> length h" "paren_depth (take i h) = 0" "between_words h i"
  shows "top_level_match (drop i h) w k \<longleftrightarrow> top_level_match h w (i + k)"
proof -
  have "word_end (drop i h) k = word_end h (i + k) - i"
    by (simp add: word_end_def skip_while_takeWhile add.commute)
  then have sl: "slice k (word_end (drop i h) k) (drop i h) = slice (i + k) (word_end h (i + k)) h"
    by (simp add: slice_def add.commute)
  have "take (i + k) h = take i h @ take k (drop i h)" by (simp add: take_add)
  then have pd: "paren_depth (take (i + k) h) = paren_depth (take k (drop i h))"
    using assms(2) by (simp add: paren_depth_append)
  have ws: "word_start (drop i h) k \<longleftrightarrow> word_start h (i + k)"
  proof (cases k)
    case 0
    show ?thesis using assms by (auto simp: 0 word_start_def between_words_def)
  next
    case (Suc m)
    then show ?thesis using assms(1) by (auto simp: word_start_def)
  qed
  show ?thesis unfolding top_level_match_def sl pd ws ..
qed

lemma find_word_from_iff:
  assumes "i \<le> length h" "paren_depth (take i h) = 0" "between_words h i" "is_char_boundary h i"
  shows "find_word_from h w i = Some at \<longleftrightarrow> first_match h w i at"
proof -
  have "find_word_from h w i = map_option (\<lambda>at. at + i) (top_level_word (drop i h) w)"
    using assms(1,4) by (simp add: find_word_from_def str_get_def slice_def is_char_boundary_def)
  moreover have "top_level_word (drop i h) w = Some k \<longleftrightarrow> first_match (drop i h) w 0 k" for k
    using top_level_word_from_iff [of 0 0 "drop i h" w k]
    by (simp add: top_level_word_def paren_depth_def between_words_def)
  moreover have "first_match (drop i h) w 0 k \<longleftrightarrow> first_match h w i (i + k)" for k
    unfolding first_match_def top_level_match_drop [OF assms(1-3)]
    by (auto simp: le_iff_add)
  moreover have "first_match h w i at \<Longrightarrow> i \<le> at" by (simp add: first_match_def)
  ultimately show ?thesis by (auto simp: add.commute le_iff_add)
qed

lemma match_end:
  assumes "valid_utf8 h" "top_level_match h w at"
  shows "at + length w = word_end h at" "at + length w \<le> length h" "w \<noteq> []"
    "paren_depth (take (at + length w) h) = 0" "between_words h (at + length w)"
    "is_char_boundary h (at + length w)"
proof -
  have at: "at < length h" "is_word_byte (h ! at)" and w: "slice at (word_end h at) h = w"
    and pd: "paren_depth (take at h) = 0"
    using assms(2) by (auto simp: top_level_match_def word_start_def)
  have e: "at < word_end h at" "word_end h at \<le> length h"
    using at by (simp_all add: word_end_gt word_end_le)
  then have "length w = word_end h at - at" using arg_cong [OF w, of length] by simp
  then show eq: "at + length w = word_end h at" using e by simp
  show "at + length w \<le> length h" "w \<noteq> []" using e eq by auto
  show "paren_depth (take (at + length w) h) = 0"
    unfolding eq using paren_depth_word [of at "word_end h at" h] pd by simp
  show "between_words h (at + length w)" unfolding eq by (rule between_words_end)
  have "is_word_byte (h ! (word_end h at - 1))"
    using skip_while_skipped [of at "word_end h at - 1" is_word_byte h] e by (simp add: word_end_def)
  then have "is_char_boundary h (word_end h at - 1 + 1)"
    using assms(1) e by (intro char_boundary_after_ascii) auto
  then show "is_char_boundary h (at + length w)" unfolding eq using e by simp
qed

lemma count_word_from_card:
  "valid_utf8 h \<Longrightarrow> i \<le> length h \<Longrightarrow> paren_depth (take i h) = 0 \<Longrightarrow> between_words h i \<Longrightarrow> is_char_boundary h i \<Longrightarrow>
    count_word_from h w i = card {k. i \<le> k \<and> top_level_match h w k}"
proof (induction h w i rule: count_word_from.induct)
  case (1 h w i)
  note iff = find_word_from_iff [OF "1.prems"(2-5)]
  have fin: "finite {k. j \<le> k \<and> top_level_match h w k}" for j
    by (rule finite_subset [of _ "{..<length h}"]) (auto simp: top_level_match_def word_start_def)
  show ?case
  proof (cases "find_word_from h w i")
    case None
    have "\<not> (\<exists>k. i \<le> k \<and> top_level_match h w k)"
    proof
      assume ex: "\<exists>k. i \<le> k \<and> top_level_match h w k"
      define k where "k = (LEAST k. i \<le> k \<and> top_level_match h w k)"
      have "first_match h w i k"
        unfolding first_match_def using LeastI_ex [OF ex] not_less_Least k_def by blast
      with iff [of w k] None show False by simp
    qed
    then have none: "{k. i \<le> k \<and> top_level_match h w k} = {}" by blast
    show ?thesis unfolding none using None by (simp add: count_word_from.simps [of h w i])
  next
    case (Some at)
    then have fm: "first_match h w i at" using iff by simp
    then have m: "i \<le> at" "top_level_match h w at" by (simp_all add: first_match_def)
    note e = match_end [OF "1.prems"(1) m(2)]
    have "{k. i \<le> k \<and> top_level_match h w k} = insert at {k. at + length w \<le> k \<and> top_level_match h w k}"
    proof (intro set_eqI iffI)
      fix k assume k: "k \<in> {k. i \<le> k \<and> top_level_match h w k}"
      then have "at \<le> k" using fm by (auto simp: first_match_def not_less [symmetric])
      moreover have "\<not> (at < k \<and> k < at + length w)"
        using k word_start_inside [of at k h] e(1) by (auto simp: top_level_match_def)
      ultimately show "k \<in> insert at {k. at + length w \<le> k \<and> top_level_match h w k}"
        using k by auto
    qed (use m in auto)
    moreover have "at \<notin> {k. at + length w \<le> k \<and> top_level_match h w k}" using e(3) by simp
    ultimately show ?thesis
      using Some "1.IH" [OF Some "1.prems"(1) e(2,4,5,6)] fin
      by (simp add: count_word_from.simps [of h w i])
  qed
qed

text \<open>
  \<^verbatim>\<open>count_word\<close> restarts its scan behind every hit and so forgets the parenthesis depth, yet on any
  valid string it counts exactly the whole-word occurrences at depth 0 of the string itself.
\<close>

theorem count_word_spec:
  "valid_utf8 h \<Longrightarrow> count_word h w = card {k. top_level_match h w k}"
  using count_word_from_card [of h 0 w]
  by (simp add: count_word_def paren_depth_def between_words_def is_char_boundary_def)

lemma count_word_spec_witness:
  "valid_utf8 ''a join b (join) join c'' \<and>
   card {k. top_level_match ''a join b (join) join c'' ''join'' k} = 2"
proof -
  have v: "valid_utf8 ''a join b (join) join c''" by code_simp
  have "count_word ''a join b (join) join c'' ''join'' = 2" by code_simp
  with count_word_spec [OF v, of "''join''"] v show ?thesis by simp
qed

end
