(* ===== verification/Ai_Gate.thy ===== *)
theory Ai_Gate
  imports Sql_Risk
begin

text \<open>
  The access gate of the assistant: the tiers, policy and limits of \<^verbatim>\<open>crates/red-core/src/lib.rs\<close> and
  the tool and statement gates of \<^verbatim>\<open>crates/red-service/src/ai/gate.rs\<close>. The ladder of tiers is an
  instance of the locale \<open>capability_ladder\<close>. The JSON input of a tool is a value of the \<^verbatim>\<open>serde_json\<close>
  package; its accessors are the argument \<open>J\<close>.
\<close>

section \<open>Tiers and policy\<close>

datatype ai_tier = TierOff | TierSchema | TierRead | TierWrite

definition SCHEMA_TOOLS :: "string list" where
  "SCHEMA_TOOLS =
     [''list_schema'', ''describe_table'', ''relationship_map'', ''object_ddl'',
      ''search_query_history'', ''list_saved_queries'', ''read_saved_query'',
      ''kv_recent_keys'', ''kv_server_info'', ''kv_scan_keys'', ''kv_key_info'',
      ''kv_key_schema'', ''doc_server_info'', ''list_collections'',
      ''describe_collection'']"

definition READ_TOOLS :: "string list" where
  "READ_TOOLS =
     [''list_schema'', ''describe_table'', ''relationship_map'', ''object_ddl'',
      ''search_query_history'', ''list_saved_queries'', ''read_saved_query'',
      ''kv_recent_keys'', ''run_select'', ''fetch_more'', ''search_data'', ''explain'',
      ''profile_table'', ''health_report'', ''server_sessions'', ''diff_schema'',
      ''diff_data'', ''suggest_index'', ''export_result'', ''generate_report'',
      ''open_query'', ''save_query'', ''save_knowledge'', ''spawn_subagent'',
      ''kv_server_info'', ''kv_scan_keys'', ''kv_key_info'', ''kv_key_schema'',
      ''kv_get_value'', ''kv_read_collection'', ''kv_json_get'', ''kv_json_shape'',
      ''kv_stream_groups'', ''kv_biggest_keys'', ''kv_analyze'', ''kv_slowlog'',
      ''kv_client_list'', ''kv_config_get'', ''kv_keyspace_notifications'',
      ''doc_server_info'', ''list_collections'', ''describe_collection'',
      ''doc_reference_map'', ''profile_collection'', ''sample_documents'',
      ''get_document'', ''find'', ''aggregate'', ''count'', ''distinct'',
      ''explain_query'', ''index_advice'', ''audit_collection'', ''doc_current_op'']"

definition WRITE_TOOLS :: "string list" where
  "WRITE_TOOLS =
     [''propose_write'', ''propose_changeset'', ''kill_session'', ''create_index'',
      ''kv_set'', ''kv_json_set'', ''kv_expire'', ''kv_delete'', ''kv_rename'',
      ''kv_copy_key'', ''kv_config_set'', ''kv_client_kill'', ''kv_command'',
      ''propose_doc_write'', ''propose_index'', ''propose_collection_op'',
      ''doc_kill_op'']"

fun allows_tool :: "ai_tier \<Rightarrow> string \<Rightarrow> bool" where
  "allows_tool TierOff tool = False"
| "allows_tool TierSchema tool = (tool \<in> set SCHEMA_TOOLS)"
| "allows_tool TierRead tool = (tool \<in> set READ_TOOLS)"
| "allows_tool TierWrite tool = (tool \<in> set WRITE_TOOLS \<or> tool \<in> set READ_TOOLS)"

fun tier_label :: "ai_tier \<Rightarrow> string" where
  "tier_label TierOff = ''off''"
| "tier_label TierSchema = ''schema''"
| "tier_label TierRead = ''read''"
| "tier_label TierWrite = ''write''"

definition tier_parse :: "string \<Rightarrow> ai_tier" where
  "tier_parse s =
     (let t = to_ascii_lowercase (trim s) in
      if t = ''off'' then TierOff
      else if t = ''schema'' then TierSchema
      else if t = ''read'' then TierRead
      else if t = ''write'' then TierWrite
      else TierOff)"

record ai_limits =
  al_max_rows :: nat
  al_statement_timeout_ms :: nat
  al_max_result_bytes :: nat
  al_max_tool_calls :: nat
  al_max_output_tokens :: nat

definition default_limits :: ai_limits where
  "default_limits = \<lparr>al_max_rows = 1000, al_statement_timeout_ms = 15000,
     al_max_result_bytes = 256 * 1024, al_max_tool_calls = 100, al_max_output_tokens = 16384\<rparr>"

record ai_policy =
  ap_enabled :: bool
  ap_tier :: ai_tier
  ap_limits :: ai_limits
  ap_read_only :: bool
  ap_preview_writes :: bool
  ap_sandbox_timeout_secs :: nat

definition default_policy :: ai_policy where
  "default_policy = \<lparr>ap_enabled = True, ap_tier = TierRead, ap_limits = default_limits,
     ap_read_only = False, ap_preview_writes = True, ap_sandbox_timeout_secs = 120\<rparr>"

definition with_overrides :: "ai_policy \<Rightarrow> bool option \<Rightarrow> ai_tier option \<Rightarrow> ai_policy" where
  "with_overrides p enabled tier =
     p\<lparr>ap_enabled := (case enabled of Some e \<Rightarrow> e | None \<Rightarrow> ap_enabled p),
       ap_tier := (case tier of Some t \<Rightarrow> t | None \<Rightarrow> ap_tier p)\<rparr>"

section \<open>Which tools mutate\<close>

definition READ_ONLY_TOOLS :: "string list" where
  "READ_ONLY_TOOLS =
     [''list_schema'', ''describe_table'', ''relationship_map'', ''object_ddl'',
      ''profile_table'', ''run_select'', ''fetch_more'', ''search_data'', ''explain'',
      ''health_report'', ''server_sessions'', ''diff_schema'', ''diff_data'',
      ''suggest_index'', ''export_result'', ''generate_report'', ''open_query'',
      ''save_query'', ''save_knowledge'', ''search_query_history'',
      ''list_saved_queries'', ''read_saved_query'', ''kv_recent_keys'',
      ''kv_server_info'', ''kv_scan_keys'', ''kv_key_info'', ''kv_key_schema'',
      ''kv_get_value'', ''kv_read_collection'', ''kv_json_get'', ''kv_json_shape'',
      ''kv_stream_groups'', ''kv_biggest_keys'', ''kv_analyze'', ''kv_slowlog'',
      ''kv_client_list'', ''kv_config_get'', ''kv_keyspace_notifications'',
      ''doc_server_info'', ''list_collections'', ''describe_collection'',
      ''doc_reference_map'', ''profile_collection'', ''sample_documents'',
      ''get_document'', ''find'', ''aggregate'', ''count'', ''distinct'',
      ''explain_query'', ''index_advice'', ''audit_collection'', ''doc_current_op'']"

definition is_write_tool :: "string \<Rightarrow> bool" where
  "is_write_tool name \<longleftrightarrow> name \<notin> set READ_ONLY_TOOLS"

definition UI_ONLY_TOOLS :: "string list" where
  "UI_ONLY_TOOLS =
     [''open_query'', ''save_query'', ''generate_report'', ''save_knowledge'',
      ''export_result'']"

definition NOT_EVIDENCE :: "string list" where
  "NOT_EVIDENCE =
     [''open_query'', ''save_query'', ''save_knowledge'', ''generate_report'',
      ''export_result'', ''spawn_subagent'']"

definition is_source_tool :: "string \<Rightarrow> bool" where
  "is_source_tool name \<longleftrightarrow> \<not> is_write_tool name \<and> name \<notin> set NOT_EVIDENCE"

definition is_headless_tool :: "string \<Rightarrow> bool" where
  "is_headless_tool name \<longleftrightarrow> \<not> is_write_tool name \<and> name \<notin> set UI_ONLY_TOOLS"

text \<open>A tool definition; the schema of its input is a JSON value.\<close>

record 'j tool_def =
  td_name :: string
  td_description :: string
  td_input_schema :: 'j

definition gate_catalog :: "'j tool_def list \<Rightarrow> ai_policy \<Rightarrow> 'j tool_def list" where
  "gate_catalog tools policy =
     filter (\<lambda>t. allows_tool (ap_tier policy) (td_name t) \<and>
                 \<not> (ap_read_only policy \<and> is_write_tool (td_name t))) tools"

definition narrow_to_subagent :: "'j tool_def list \<Rightarrow> 'j tool_def list" where
  "narrow_to_subagent catalog =
     filter (\<lambda>t. td_name t \<noteq> ''spawn_subagent'' \<and> \<not> is_write_tool (td_name t)) catalog"

section \<open>Statement shapes\<close>

definition gate_trim :: "string \<Rightarrow> string" where
  \<comment> \<open>\<^verbatim>\<open>.trim().trim_end_matches(';').trim()\<close>\<close>
  "gate_trim s = trim (trim_end_matches CHR '';'' (trim s))"

definition is_read_only_select :: "string \<Rightarrow> dialect \<Rightarrow> bool" where
  "is_read_only_select sql d =
     (let trimmed = gate_trim (strip_noise sql d); lower = to_ascii_lowercase trimmed in
      if trimmed = [] then False
      else if CHR '';'' \<in> set trimmed then False
      else if \<not> (prefix ''select'' lower \<or> prefix ''with'' lower) then False
      else \<not> list_ex (has_word lower) (WRITE_TOKENS @ DANGEROUS_FNS))"

datatype write_shape_t = ShapeOk | ShapeNotWrite | ShapeBlocked string

definition EMPTY_MSG :: string where
  "EMPTY_MSG = ''the statement is empty''"

definition MULTI_MSG :: string where
  "MULTI_MSG = ''multiple statements are not allowed; submit one at a time''"

definition NO_WHERE_MSG :: string where
  "NO_WHERE_MSG = ''an UPDATE/DELETE without a WHERE clause is blocked; add a WHERE, or run a full-table change yourself in a query tab''"

definition DDL_MSG :: string where
  "DDL_MSG = ''only INSERT/UPDATE/DELETE are allowed here; DDL (DROP/TRUNCATE/ALTER/'' @
     [CHR 0xE2, CHR 0x80, CHR 0xA6] @ '') must be run manually in a query tab''"

definition first_word :: "string \<Rightarrow> string" where
  \<comment> \<open>\<^verbatim>\<open>split_whitespace().next().unwrap_or("")\<close>\<close>
  "first_word s = (case split_whitespace s of [] \<Rightarrow> [] | w # _ \<Rightarrow> w)"

definition write_shape :: "string \<Rightarrow> dialect \<Rightarrow> write_shape_t" where
  "write_shape sql d =
     (let trimmed = gate_trim (strip_noise sql d) in
      if trimmed = [] then ShapeBlocked EMPTY_MSG
      else if CHR '';'' \<in> set trimmed then ShapeBlocked MULTI_MSG
      else
        let lower = to_ascii_lowercase trimmed; first = first_word lower in
        if first = ''select'' \<or> first = ''with'' then ShapeNotWrite
        else if first = ''insert'' then ShapeOk
        else if first = ''update'' \<or> first = ''delete'' then
          (if has_word lower ''where'' then ShapeOk else ShapeBlocked NO_WHERE_MSG)
        else ShapeBlocked DDL_MSG)"

section \<open>Vetting a tool call\<close>

text \<open>The accessors of the JSON value a call carries.\<close>

record 'j json_ops =
  j_get :: "'j \<Rightarrow> string \<Rightarrow> 'j option"
  j_as_str :: "'j \<Rightarrow> string option"
  j_as_array :: "'j \<Rightarrow> 'j list option"
  j_as_bool :: "'j \<Rightarrow> bool option"
  j_as_i64 :: "'j \<Rightarrow> int option"

definition j_str :: "'j json_ops \<Rightarrow> 'j \<Rightarrow> string \<Rightarrow> string option" where
  \<comment> \<open>\<^verbatim>\<open>input.get(key).and_then(Json::as_str)\<close>\<close>
  "j_str J input key = Option.bind (j_get J input key) (j_as_str J)"

definition nonempty :: "string option \<Rightarrow> string option" where
  "nonempty x = Option.bind x (\<lambda>s. if s = [] then None else Some s)"

definition j_trimmed :: "'j json_ops \<Rightarrow> 'j \<Rightarrow> string \<Rightarrow> string option" where
  "j_trimmed J input key = nonempty (map_option trim (j_str J input key))"

definition j_str_list :: "'j json_ops \<Rightarrow> 'j \<Rightarrow> string \<Rightarrow> string list" where
  \<comment> \<open>the trimmed, non-empty strings of an array\<close>
  "j_str_list J input key =
     (case Option.bind (j_get J input key) (j_as_array J) of
        None \<Rightarrow> []
      | Some items \<Rightarrow> filter (\<lambda>s. s \<noteq> []) (map trim (List.map_filter (j_as_str J) items)))"

definition changeset_statements :: "'j json_ops \<Rightarrow> 'j \<Rightarrow> string list" where
  "changeset_statements J input = j_str_list J input ''statements''"

datatype write_assessment = NotWrite | Reject string | NeedsApproval string

definition NOT_DML_MSG :: string where
  "NOT_DML_MSG = '' is not an INSERT/UPDATE/DELETE; a changeset only modifies data''"

definition NO_STATEMENTS_MSG :: string where
  "NO_STATEMENTS_MSG = ''propose_changeset needs a non-empty `statements` array of INSERT/UPDATE/DELETE statements''"

text \<open>The loop over the statements: the first one that is not eligible rejects the changeset.\<close>

fun changeset_reject :: "dialect \<Rightarrow> nat \<Rightarrow> string list \<Rightarrow> string option" where
  "changeset_reject d i [] = None"
| "changeset_reject d i (stmt # rest) =
     (case write_shape stmt d of
        ShapeOk \<Rightarrow> changeset_reject d (i + 1) rest
      | ShapeNotWrite \<Rightarrow> Some (''statement '' @ show_nat (i + 1) @ NOT_DML_MSG)
      | ShapeBlocked why \<Rightarrow> Some (''statement '' @ show_nat (i + 1) @ '': '' @ why))"

definition numbered :: "string list \<Rightarrow> string" where
  "numbered stmts =
     join_with [CHR 0x0A] (map (\<lambda>(i, s). show_nat (i + 1) @ ''. '' @ s) (enumerate 0 stmts))"

definition assess_changeset :: "'j json_ops \<Rightarrow> 'j \<Rightarrow> dialect \<Rightarrow> write_assessment" where
  "assess_changeset J input d =
     (let statements = changeset_statements J input in
      if statements = [] then Reject NO_STATEMENTS_MSG
      else (case changeset_reject d 0 statements of
              Some why \<Rightarrow> Reject why
            | None \<Rightarrow> NeedsApproval (numbered statements)))"

datatype kill_mode_t = Cancel | Terminate

fun kill_verb :: "kill_mode_t \<Rightarrow> string" where
  "kill_verb Cancel = ''Cancel query''"
| "kill_verb Terminate = ''Terminate session''"

definition kill_mode :: "'j json_ops \<Rightarrow> 'j \<Rightarrow> string + kill_mode_t" where
  "kill_mode J input =
     (let m = (case j_str J input ''mode'' of Some s \<Rightarrow> s | None \<Rightarrow> ''cancel'') in
      if m = ''cancel'' then Inr Cancel
      else if m = ''terminate'' then Inr Terminate
      else Inl (''kill mode must be '' @ [CHR 0x22] @ ''cancel'' @ [CHR 0x22] @ '' or '' @ [CHR 0x22]
        @ ''terminate'' @ [CHR 0x22] @ '', not `'' @ m @ ''`''))"

definition truncate_summary :: "string \<Rightarrow> nat \<Rightarrow> string" where
  "truncate_summary s n =
     (if length (utf8_chars s) \<le> n then s
      else concat (take (n - 1) (utf8_chars s)) @ [CHR 0xE2, CHR 0x80, CHR 0xA6])"

definition NO_KEY_MSG :: string where
  "NO_KEY_MSG = ''kill_session needs the `key` of a session from server_sessions''"

definition ROLLBACK_NOTE :: string where
  "ROLLBACK_NOTE = [CHR 0x0A, CHR 0xE2, CHR 0x9A, CHR 0xA0]
     @ '' Terminating rolls back this session'' @ [CHR 0x27] @ ''s open transaction.''"

definition NO_STATEMENT_NOTE :: string where
  "NO_STATEMENT_NOTE = [CHR 0x0A] @ ''The agent did not say what this session is running; read server_sessions before allowing.''"

definition assess_kill_session :: "'j json_ops \<Rightarrow> 'j \<Rightarrow> write_assessment" where
  "assess_kill_session J input =
     (case j_trimmed J input ''key'' of
        None \<Rightarrow> Reject NO_KEY_MSG
      | Some key \<Rightarrow>
        (case kill_mode J input of
           Inl why \<Rightarrow> Reject why
         | Inr mode \<Rightarrow>
           let who = (case nonempty (j_str J input ''user'') of
                        Some u \<Rightarrow> '' (user '' @ u @ '')'' | None \<Rightarrow> []);
               op = kill_verb mode @ '' `'' @ key @ ''`'' @ who;
               op = (if mode = Terminate then op @ ROLLBACK_NOTE else op)
           in NeedsApproval (case j_trimmed J input ''statement'' of
                Some sql \<Rightarrow> op @ [CHR 0x0A] @ ''Running: '' @ truncate_summary sql 300
              | None \<Rightarrow> op @ NO_STATEMENT_NOTE)))"

definition qualified_name :: "string option \<Rightarrow> string \<Rightarrow> string" where
  "qualified_name schema tbl = (case nonempty schema of Some s \<Rightarrow> s @ ''.'' @ tbl | None \<Rightarrow> tbl)"

definition index_args ::
  "'j json_ops \<Rightarrow> 'j \<Rightarrow> string + (string option \<times> string) \<times> string \<times> string list \<times> bool" where
  "index_args J input =
     (case j_trimmed J input ''table'' of
        None \<Rightarrow> Inl ''create_index needs a `table`''
      | Some tbl \<Rightarrow>
        (case j_trimmed J input ''name'' of
           None \<Rightarrow> Inl ''create_index needs a `name` for the index''
         | Some name \<Rightarrow>
           let columns = j_str_list J input ''columns'' in
           if columns = [] then Inl ''create_index needs a non-empty `columns` array''
           else Inr ((j_trimmed J input ''schema'', tbl), name, columns,
             (case Option.bind (j_get J input ''unique'') (j_as_bool J) of Some u \<Rightarrow> u | None \<Rightarrow> False))))"

definition INDEX_NOTE :: string where
  "INDEX_NOTE = [CHR 0x0A] @ ''Building an index locks and loads the server for the duration; it is reversible with a DROP INDEX afterwards.''"

definition assess_create_index :: "'j json_ops \<Rightarrow> 'j \<Rightarrow> write_assessment" where
  "assess_create_index J input =
     (case index_args J input of
        Inl why \<Rightarrow> Reject why
      | Inr ((schema, tbl), index, columns, unique) \<Rightarrow>
        NeedsApproval (''CREATE'' @ (if unique then '' UNIQUE'' else []) @ '' INDEX '' @ index @ '' ON ''
          @ qualified_name schema tbl @ '' ('' @ join_with '', '' columns @ '')'' @ INDEX_NOTE))"

definition KV_WRITE_TOOLS :: "string list" where
  "KV_WRITE_TOOLS = [''kv_set'', ''kv_json_set'', ''kv_expire'', ''kv_delete'', ''kv_rename'', ''kv_copy_key'',
     ''kv_config_set'', ''kv_client_kill'', ''kv_command'']"

definition DOC_WRITE_TOOLS :: "string list" where
  "DOC_WRITE_TOOLS = [''propose_doc_write'', ''propose_index'', ''propose_collection_op'', ''doc_kill_op'']"

definition TIER_MSG :: string where
  "TIER_MSG = ''the write tool is not available at this access tier''"

definition READ_ONLY_MSG :: string where
  "READ_ONLY_MSG = ''this connection is read-only: writes are disabled. Tell the user; do not retry.''"

definition READ_MSG :: string where
  "READ_MSG = ''propose_write is only for INSERT/UPDATE/DELETE; use run_select to read''"

text \<open>
  \<^verbatim>\<open>assess_write\<close>. The assessors of the key-value and document seams, which it hands their own tools to,
  are the arguments \<open>kv_assess\<close> and \<open>doc_assess\<close>.
\<close>

definition assess_write ::
  "(string \<Rightarrow> 'j \<Rightarrow> write_assessment) \<Rightarrow> (string \<Rightarrow> 'j \<Rightarrow> write_assessment) \<Rightarrow> 'j json_ops
     \<Rightarrow> string \<Rightarrow> 'j \<Rightarrow> ai_policy \<Rightarrow> dialect \<Rightarrow> write_assessment" where
  "assess_write kv_assess doc_assess J name input policy d =
     (if \<not> is_write_tool name then NotWrite
      else if ap_tier policy \<noteq> TierWrite then Reject TIER_MSG
      else if ap_read_only policy then Reject READ_ONLY_MSG
      else if name \<in> set KV_WRITE_TOOLS then kv_assess name input
      else if name \<in> set DOC_WRITE_TOOLS then doc_assess name input
      else if name = ''propose_changeset'' then assess_changeset J input d
      else if name = ''kill_session'' then assess_kill_session J input
      else if name = ''create_index'' then assess_create_index J input
      else
        let sql = trim (case j_str J input ''sql'' of Some s \<Rightarrow> s | None \<Rightarrow> []) in
        (case write_shape sql d of
           ShapeOk \<Rightarrow> NeedsApproval sql
         | ShapeNotWrite \<Rightarrow> Reject READ_MSG
         | ShapeBlocked why \<Rightarrow> Reject why))"

text \<open>A concrete JSON value with its accessors, at which the parameter \<open>J\<close> is instantiated in examples.\<close>

datatype js = JsNull | JsBool bool | JsInt int | JsStr string | JsArr "js list" | JsObj "(string \<times> js) list"

definition js_ops :: "js json_ops" where
  "js_ops = \<lparr>
     j_get = (\<lambda>v k. case v of JsObj m \<Rightarrow> map_of m k | _ \<Rightarrow> None),
     j_as_str = (\<lambda>v. case v of JsStr s \<Rightarrow> Some s | _ \<Rightarrow> None),
     j_as_array = (\<lambda>v. case v of JsArr a \<Rightarrow> Some a | _ \<Rightarrow> None),
     j_as_bool = (\<lambda>v. case v of JsBool b \<Rightarrow> Some b | _ \<Rightarrow> None),
     j_as_i64 = (\<lambda>v. case v of JsInt i \<Rightarrow> Some i | _ \<Rightarrow> None)\<rparr>"

section \<open>The ladder of tiers\<close>

text \<open>An access ladder: a higher rung allows whatever a lower one allows.\<close>

locale capability_ladder =
  fixes allows :: "'t :: linorder \<Rightarrow> 'n \<Rightarrow> bool"
  assumes ladder: "t \<le> t' \<Longrightarrow> allows t n \<Longrightarrow> allows t' n"
begin

lemma offered_subset: "t \<le> t' \<Longrightarrow> {x \<in> A. allows t x} \<subseteq> {x \<in> A. allows t' x}"
  using ladder by blast

lemma offered_subseq: "t \<le> t' \<Longrightarrow> subseq (filter (allows t) xs) (filter (allows t') xs)"
proof -
  assume le: "t \<le> t'"
  then have "filter (allows t) xs = filter (allows t) (filter (allows t') xs)"
    using ladder by (auto intro: filter_cong)
  then show ?thesis by (metis subseq_filter_left)
qed

lemma offered_max: "allows t n \<Longrightarrow> allows t' n \<Longrightarrow> allows (max t t') n"
  by (simp add: max_def)

end

fun tier_rank :: "ai_tier \<Rightarrow> nat" where
  "tier_rank TierOff = 0"
| "tier_rank TierSchema = 1"
| "tier_rank TierRead = 2"
| "tier_rank TierWrite = 3"

instantiation ai_tier :: linorder
begin

definition less_eq_ai_tier :: "ai_tier \<Rightarrow> ai_tier \<Rightarrow> bool" where
  "less_eq_ai_tier a b \<longleftrightarrow> tier_rank a \<le> tier_rank b"

definition less_ai_tier :: "ai_tier \<Rightarrow> ai_tier \<Rightarrow> bool" where
  "less_ai_tier a b \<longleftrightarrow> tier_rank a < tier_rank b"

instance
proof
  fix x y z :: ai_tier
  show "(x < y) = (x \<le> y \<and> \<not> y \<le> x)"
    by (auto simp: less_eq_ai_tier_def less_ai_tier_def)
  show "x \<le> x" by (simp add: less_eq_ai_tier_def)
  show "x \<le> y \<Longrightarrow> y \<le> z \<Longrightarrow> x \<le> z" by (simp add: less_eq_ai_tier_def)
  show "x \<le> y \<Longrightarrow> y \<le> x \<Longrightarrow> x = y"
    by (cases x; cases y) (simp_all add: less_eq_ai_tier_def)
  show "x \<le> y \<or> y \<le> x" by (auto simp: less_eq_ai_tier_def)
qed

end

lemma schema_tools_readable: "set SCHEMA_TOOLS \<subseteq> set READ_TOOLS"
  by (simp add: SCHEMA_TOOLS_def READ_TOOLS_def)

interpretation tiers: capability_ladder allows_tool
proof
  fix t t' n
  show "t \<le> t' \<Longrightarrow> allows_tool t n \<Longrightarrow> allows_tool t' n"
    using schema_tools_readable by (cases t; cases t') (auto simp: less_eq_ai_tier_def)
qed

text \<open>
  The tiers are a least-privilege ladder: on connections with the same read-only posture, the
  catalog of a lower tier is a subsequence of the catalog of a higher one, so raising the tier only
  ever adds tools and never reorders or drops one.
\<close>

theorem gate_catalog_ladder:
  assumes "ap_tier p \<le> ap_tier p'" "ap_read_only p = ap_read_only p'"
  shows "subseq (gate_catalog tools p) (gate_catalog tools p')"
proof -
  let ?ok = "\<lambda>t :: 'a tool_def. \<not> (ap_read_only p' \<and> is_write_tool (td_name t))"
  have "gate_catalog tools q = filter (\<lambda>t. allows_tool (ap_tier q) (td_name t)) (filter ?ok tools)"
    if "ap_read_only q = ap_read_only p'" for q
    using that by (auto simp: gate_catalog_def intro: filter_cong)
  note eq = this [OF assms(2)] this [OF refl]
  have "filter (\<lambda>t. allows_tool (ap_tier p) (td_name t)) xs =
      filter (\<lambda>t. allows_tool (ap_tier p) (td_name t)) (filter (\<lambda>t. allows_tool (ap_tier p') (td_name t)) xs)"
    for xs :: "'a tool_def list"
    using tiers.ladder [OF assms(1)] by (auto intro: filter_cong)
  then show ?thesis unfolding eq by (metis subseq_filter_left)
qed

lemma gate_catalog_ladder_witness:
  "subseq
     (gate_catalog [\<lparr>td_name = ''run_select'', td_description = [], td_input_schema = ()\<rparr>]
        (default_policy\<lparr>ap_tier := TierSchema\<rparr>))
     (gate_catalog [\<lparr>td_name = ''run_select'', td_description = [], td_input_schema = ()\<rparr>] default_policy)"
  by (rule gate_catalog_ladder) (simp_all add: default_policy_def less_eq_ai_tier_def)

section \<open>Classification of the catalog\<close>

lemma read_tools_read_only: "set READ_TOOLS \<subseteq> insert ''spawn_subagent'' (set READ_ONLY_TOOLS)"
  by (simp add: READ_TOOLS_def READ_ONLY_TOOLS_def)

lemma write_tools_not_read_only: "set WRITE_TOOLS \<inter> set READ_ONLY_TOOLS = {}"
  by (simp add: WRITE_TOOLS_def READ_ONLY_TOOLS_def)

lemma allows_below_write: "tier \<noteq> TierWrite \<Longrightarrow> allows_tool tier n \<Longrightarrow> n \<in> set READ_TOOLS"
  using schema_tools_readable by (cases tier) auto

text \<open>
  The tier table and the write classification are kept in two files and agree: a tier below
  \<^verbatim>\<open>Write\<close> offers no mutating tool other than the delegation tool \<^verbatim>\<open>spawn_subagent\<close>, every tool the
  \<^verbatim>\<open>Write\<close> tier adds is classified as mutating, and a read-only connection offers no mutating tool at any
  tier.
\<close>

theorem catalog_write_classification:
  "(\<forall>t \<in> set (gate_catalog tools p). ap_tier p \<noteq> TierWrite \<longrightarrow>
      is_write_tool (td_name t) \<longrightarrow> td_name t = ''spawn_subagent'') \<and>
   (\<forall>t \<in> set (gate_catalog tools p). ap_read_only p \<longrightarrow> \<not> is_write_tool (td_name t)) \<and>
   (\<forall>n. allows_tool TierWrite n \<longrightarrow> \<not> allows_tool TierRead n \<longrightarrow> is_write_tool n)"
  using allows_below_write [of "ap_tier p"] read_tools_read_only write_tools_not_read_only
  unfolding gate_catalog_def is_write_tool_def by auto

lemma catalog_write_classification_witness:
  "\<not> is_write_tool (td_name (hd (gate_catalog [\<lparr>td_name = ''run_select'', td_description = [], td_input_schema = ()\<rparr>]
        (default_policy\<lparr>ap_read_only := True\<rparr>))))"
proof -
  let ?c = "gate_catalog [\<lparr>td_name = ''run_select'', td_description = [], td_input_schema = ()\<rparr>]
        (default_policy\<lparr>ap_read_only := True\<rparr>)"
  have "?c \<noteq> []"
    by (simp add: gate_catalog_def default_policy_def READ_TOOLS_def READ_ONLY_TOOLS_def is_write_tool_def)
  then have "hd ?c \<in> set ?c" by (rule hd_in_set)
  moreover have "ap_read_only (default_policy\<lparr>ap_read_only := True\<rparr>)" by simp
  ultimately show ?thesis using catalog_write_classification by blast
qed

text \<open>
  A delegated subagent is read-only and cannot recurse, whatever the tier of its parent: its
  catalog is a subsequence of the parent's, without \<^verbatim>\<open>spawn_subagent\<close> and without any tool that \<^verbatim>\<open>assess_write\<close>
  would treat as a write.
\<close>

theorem subagent_is_read_only:
  "subseq (narrow_to_subagent (gate_catalog tools p)) (gate_catalog tools p) \<and>
   (\<forall>t \<in> set (narrow_to_subagent (gate_catalog tools p)).
      td_name t \<noteq> ''spawn_subagent'' \<and> allows_tool TierRead (td_name t) \<and>
      assess_write kv dc J (td_name t) input p d = NotWrite)"
proof (intro conjI ballI)
  show "subseq (narrow_to_subagent (gate_catalog tools p)) (gate_catalog tools p)"
    by (simp add: narrow_to_subagent_def subseq_filter_left)
  fix t assume "t \<in> set (narrow_to_subagent (gate_catalog tools p))"
  then have t: "td_name t \<noteq> ''spawn_subagent''" "\<not> is_write_tool (td_name t)"
      "allows_tool (ap_tier p) (td_name t)"
    by (auto simp: narrow_to_subagent_def gate_catalog_def)
  then show "td_name t \<noteq> ''spawn_subagent''" "assess_write kv dc J (td_name t) input p d = NotWrite"
    by (simp_all add: assess_write_def)
  have "td_name t \<in> set READ_TOOLS"
    using t(2,3) allows_below_write [of "ap_tier p" "td_name t"] write_tools_not_read_only
    by (cases "ap_tier p") (auto simp: is_write_tool_def)
  then show "allows_tool TierRead (td_name t)" by simp
qed

lemma subagent_is_read_only_witness:
  "assess_write (\<lambda>_ _. Reject []) (\<lambda>_ _. Reject []) js_ops
     (td_name (hd (narrow_to_subagent (gate_catalog
        [\<lparr>td_name = ''run_select'', td_description = [], td_input_schema = ()\<rparr>] default_policy))))
     JsNull default_policy PostgresD = NotWrite"
proof -
  let ?c = "narrow_to_subagent (gate_catalog
        [\<lparr>td_name = ''run_select'', td_description = [], td_input_schema = ()\<rparr>] default_policy)"
  have "?c \<noteq> []"
    by (simp add: narrow_to_subagent_def gate_catalog_def default_policy_def READ_TOOLS_def
        READ_ONLY_TOOLS_def is_write_tool_def)
  then have h: "hd ?c \<in> set ?c" by (rule hd_in_set)
  show ?thesis
    by (rule subagent_is_read_only [THEN conjunct2, THEN bspec, OF h, THEN conjunct2, THEN conjunct2])
qed



section \<open>The statement gates against the risk grading\<close>

lemma assess_lower_gate: "assess_lower s = to_ascii_lowercase (gate_trim s)"
  by (simp add: assess_lower_def gate_trim_def)

lemma takeWhile_alpha_append:
  "list_all is_ascii_alphabetic p \<Longrightarrow>
     takeWhile is_ascii_alphabetic (p @ r) = p @ takeWhile is_ascii_alphabetic r"
  by (induction p) simp_all

lemma first_keyword_prefix:
  assumes "prefix p s" "p \<noteq> []" "list_all is_ascii_alphabetic p"
  shows "\<exists>x. first_keyword s = p @ x"
proof -
  obtain r where s: "s = p @ r" using assms(1) by (auto simp: prefix_def)
  then have "first_keyword s = takeWhile is_ascii_alphabetic s"
    using assms(2,3) by (intro first_keyword_alpha) (cases p; simp)+
  then show ?thesis using assms(3) by (auto simp: s takeWhile_alpha_append)
qed



lemma ws_prefix_not_alpha: "0 < ws_prefix (c # r) \<Longrightarrow> \<not> is_ascii_alphabetic c"
  using ws_prefix_graphic [of "c # r"] by (auto simp: graphic_head_def byte_class)

lemma ws_word_alpha:
  "list_all is_ascii_alphabetic (ws_word t) \<Longrightarrow> takeWhile is_ascii_alphabetic t = ws_word t"
  by (induction t) (auto simp: ws_prefix_not_alpha split: if_splits)

lemma first_word_keyword:
  assumes "first_word s = w" "w \<noteq> []" "list_all is_ascii_alphabetic w"
  shows "first_keyword s = w"
proof -
  let ?t = "trim_start s"
  have t: "?t \<noteq> []" and w: "ws_word ?t = w"
    using assms(1,2) by (auto simp: first_word_def split_whitespace.simps [of s] Let_def split: if_splits)
  have tw: "takeWhile is_ascii_alphabetic ?t = w" using ws_word_alpha [of ?t] w assms(3) by simp
  then have "is_ascii_alphabetic (hd ?t)" using assms(2) t by (cases ?t) (auto split: if_splits)
  then have "first_keyword ?t = w" using t tw by (simp add: first_keyword_alpha)
  moreover have "first_keyword s = first_keyword ?t"
    unfolding first_keyword_def by (simp add: trim_start.simps [of ?t])
  ultimately show ?thesis by simp
qed



section \<open>Changesets and tier names\<close>

lemma changeset_reject_None: "changeset_reject d i stmts = None \<longleftrightarrow> (\<forall>s \<in> set stmts. write_shape s d = ShapeOk)"
  by (induction d i stmts rule: changeset_reject.induct) (auto split: write_shape_t.splits)

text \<open>
  A changeset is all or nothing: it reaches the user exactly when it has at least one statement and
  every one of them passes the shape gate, and what is shown is the numbered list of all of them.
\<close>

theorem changeset_all_or_nothing:
  "assess_changeset J input d = NeedsApproval op \<longleftrightarrow>
     changeset_statements J input \<noteq> [] \<and>
     list_all (\<lambda>s. write_shape s d = ShapeOk) (changeset_statements J input) \<and>
     op = numbered (changeset_statements J input)"
  using changeset_reject_None [of d 0 "changeset_statements J input"]
  by (auto simp: assess_changeset_def Let_def list_all_iff split: option.splits)

lemma trim_graphic:
  assumes "graphic_head s" "ws_suffix s = 0"
  shows "trim s = s"
  using assms by (simp add: trim_def trim_end.simps [of s])

text \<open>
  Tier names round-trip, and a setting that is not a tier name fails closed: it gives \<^verbatim>\<open>Off\<close>, at which
  no tool is offered. The \<^verbatim>\<open>Write\<close> tier comes from the word \<^verbatim>\<open>write\<close> alone.
\<close>

theorem tier_parse_fails_closed:
  "tier_parse (tier_label t) = t \<and>
   (to_ascii_lowercase (trim s) \<noteq> tier_label (tier_parse s) \<longrightarrow> (\<forall>n. \<not> allows_tool (tier_parse s) n)) \<and>
   (tier_parse s = TierWrite \<longleftrightarrow> to_ascii_lowercase (trim s) = ''write'')"
proof (intro conjI)
  have "trim (tier_label t) = tier_label t"
    by (cases t) (intro trim_graphic; simp add: graphic_head_def ws_suffix_def ws_prefix.simps)+
  then show "tier_parse (tier_label t) = t" by (cases t) (simp_all add: tier_parse_def)
qed (auto simp: tier_parse_def Let_def)

lemma tier_parse_fails_closed_witness: "\<not> allows_tool (tier_parse ''readonly'') ''run_select''"
proof -
  have t: "to_ascii_lowercase (trim ''readonly'') \<noteq> tier_label (tier_parse ''readonly'')" by code_simp
  from tier_parse_fails_closed [of TierOff "''readonly''"] t show ?thesis by blast
qed

text \<open>
  A \<^verbatim>\<open>$\<close> inside a PostgreSQL identifier is read as the opening of a dollar quote, which hides the rest of
  the statement from the gate: this data-modifying CTE passes as a read.
\<close>

lemma dollar_identifier_passes_read_gate:
  "is_read_only_select ''with a$b$ as (delete from t returning 1) select 1'' PostgresD"
proof -
  let ?q = "''with a$b$ as (delete from t returning 1) select 1''"
  have s: "strip_noise ?q PostgresD = ''with a                                           ''"
    by code_simp
  have t: "gate_trim ''with a                                           '' = ''with a''" by code_simp
  show ?thesis
    unfolding is_read_only_select_def s t
    by (simp add: WRITE_TOKENS_def DANGEROUS_FNS_def has_word_def byte_class)
qed

end
