(* ===== verification/Pane_Tree.thy ===== *)
theory Pane_Tree
  imports Red_Prelude Complex_Main
begin

text \<open>
  The work-area layout of \<^verbatim>\<open>crates/red/src/panes/tree.rs\<close>: a tree of panes and splits with a focused and a
  possibly zoomed pane. Weights are \<^verbatim>\<open>f32\<close> in the source. Every arithmetic operation on them is a field
  of the record \<open>w_ops\<close>, so what is proved of the structure of the tree holds whatever rounding they
  have; the claims about weights are for the exact instance \<open>exact_ops\<close>.
\<close>

section \<open>Data\<close>

type_synonym pane_id = nat

datatype split_axis = Horizontal | Vertical

datatype drop_zone = Center | Left | Right | Top | Bottom

fun zone_split :: "drop_zone \<Rightarrow> (split_axis \<times> bool) option" where
  "zone_split Center = None"
| "zone_split Left = Some (Horizontal, True)"
| "zone_split Right = Some (Horizontal, False)"
| "zone_split Top = Some (Vertical, True)"
| "zone_split Bottom = Some (Vertical, False)"

text \<open>The operations on weights: \<^verbatim>\<open>total.is_finite() && total > f32::EPSILON\<close> is \<open>w_usable\<close>.\<close>

record 'w w_ops =
  w_half :: 'w
  w_zero :: 'w
  w_add :: "'w \<Rightarrow> 'w \<Rightarrow> 'w"
  w_sub :: "'w \<Rightarrow> 'w \<Rightarrow> 'w"
  w_mul :: "'w \<Rightarrow> 'w \<Rightarrow> 'w"
  w_div :: "'w \<Rightarrow> 'w \<Rightarrow> 'w"
  w_two :: 'w
  w_max :: "'w \<Rightarrow> 'w \<Rightarrow> 'w"
  w_min :: "'w \<Rightarrow> 'w \<Rightarrow> 'w"
  w_le :: "'w \<Rightarrow> 'w \<Rightarrow> bool"
  w_usable :: "'w \<Rightarrow> bool"
  w_even :: "nat \<Rightarrow> 'w" \<comment> \<open>\<^verbatim>\<open>1. / len as f32\<close>\<close>

definition w_lt :: "'w w_ops \<Rightarrow> 'w \<Rightarrow> 'w \<Rightarrow> bool" where
  "w_lt W a b \<longleftrightarrow> w_le W a b \<and> \<not> w_le W b a"

text \<open>Exact arithmetic; \<^verbatim>\<open>f32::EPSILON\<close> is \<open>2\<close> to the power \<open>-23\<close>.\<close>

definition exact_ops :: "rat w_ops" where
  "exact_ops = \<lparr>w_half = 1 / 2, w_zero = 0, w_add = (+), w_sub = (-), w_mul = (*), w_div = (/), w_two = 2,
     w_max = max, w_min = min, w_le = (\<le>), w_usable = (\<lambda>x. 1 / 2 ^ 23 < x),
     w_even = (\<lambda>n. 1 / of_nat n)\<rparr>"

text \<open>A node; a child of a split is its weight with its node.\<close>

datatype 'w node = Leaf pane_id | Split split_axis "('w \<times> 'w node) list"

record 'w pane_tree =
  pt_root :: "'w node"
  pt_focus :: pane_id
  pt_next :: nat
  pt_zoom :: "pane_id option"

section \<open>Tree walks\<close>

fun collect :: "'w node \<Rightarrow> pane_id list" where
  "collect (Leaf p) = [p]"
| "collect (Split a cs) = concat (map (\<lambda>c. collect (snd c)) cs)"

fun is_leaf_of :: "pane_id \<Rightarrow> 'w \<times> 'w node \<Rightarrow> bool" where
  "is_leaf_of p (w, Leaf q) = (q = p)"
| "is_leaf_of p (w, Split a cs) = False"

fun leaf_position :: "pane_id \<Rightarrow> ('w \<times> 'w node) list \<Rightarrow> nat option" where
  "leaf_position p [] = None"
| "leaf_position p (c # cs) = (if is_leaf_of p c then Some 0 else map_option Suc (leaf_position p cs))"

text \<open>\<^verbatim>\<open>insert_at\<close>; \<open>insert_in\<close> is its \<^verbatim>\<open>children.iter_mut().any(..)\<close>, which stops at the first success.\<close>

definition insert_sibling ::
  "'w w_ops \<Rightarrow> nat \<Rightarrow> bool \<Rightarrow> pane_id \<Rightarrow> ('w \<times> 'w node) list \<Rightarrow> ('w \<times> 'w node) list" where
  "insert_sibling W i before new cs =
     (let half = w_mul W (fst (cs ! i)) (w_half W);
          cs = cs[i := (half, snd (cs ! i))];
          slot = (if before then i else i + 1)
      in take slot cs @ (half, Leaf new) # drop slot cs)"

fun insert_at :: "'w w_ops \<Rightarrow> pane_id \<Rightarrow> split_axis \<Rightarrow> bool \<Rightarrow> pane_id \<Rightarrow> 'w node \<Rightarrow> bool \<times> 'w node"
  and insert_in :: "'w w_ops \<Rightarrow> pane_id \<Rightarrow> split_axis \<Rightarrow> bool \<Rightarrow> pane_id \<Rightarrow> ('w \<times> 'w node) list
     \<Rightarrow> bool \<times> ('w \<times> 'w node) list" where
  "insert_at W tgt axis before new (Leaf p) =
     (if p = tgt then
        (True, Split axis (if before then [(w_half W, Leaf new), (w_half W, Leaf tgt)]
                           else [(w_half W, Leaf tgt), (w_half W, Leaf new)]))
      else (False, Leaf p))"
| "insert_at W tgt axis before new (Split a cs) =
     (case (if a = axis then leaf_position tgt cs else None) of
        Some i \<Rightarrow> (True, Split a (insert_sibling W i before new cs))
      | None \<Rightarrow> (let (found, cs') = insert_in W tgt axis before new cs in (found, Split a cs')))"
| "insert_in W tgt axis before new [] = (False, [])"
| "insert_in W tgt axis before new ((w, n) # cs) =
     (let (found, n') = insert_at W tgt axis before new n in
      if found then (True, (w, n') # cs)
      else let (found', cs') = insert_in W tgt axis before new cs in (found', (w, n') # cs'))"

text \<open>\<^verbatim>\<open>remove_at\<close>: the freed share goes to the siblings in proportion.\<close>

definition w_sum :: "'w w_ops \<Rightarrow> 'w list \<Rightarrow> 'w" where
  "w_sum W ws = foldl (w_add W) (w_zero W) ws"

definition remove_child :: "'w w_ops \<Rightarrow> nat \<Rightarrow> ('w \<times> 'w node) list \<Rightarrow> ('w \<times> 'w node) list" where
  "remove_child W i cs =
     (let freed = fst (cs ! i);
          rest = take i cs @ drop (i + 1) cs;
          sum = w_sum W (map fst rest)
      in if w_lt W (w_zero W) sum
         then map (\<lambda>(w, n). (w_add W w (w_div W (w_mul W freed w) sum), n)) rest
         else rest)"

fun remove_at :: "'w w_ops \<Rightarrow> pane_id \<Rightarrow> 'w node \<Rightarrow> bool \<times> 'w node"
  and remove_in :: "'w w_ops \<Rightarrow> pane_id \<Rightarrow> ('w \<times> 'w node) list \<Rightarrow> bool \<times> ('w \<times> 'w node) list" where
  "remove_at W pane (Leaf p) = (False, Leaf p)"
| "remove_at W pane (Split a cs) =
     (case leaf_position pane cs of
        Some i \<Rightarrow> (True, Split a (remove_child W i cs))
      | None \<Rightarrow> (let (found, cs') = remove_in W pane cs in (found, Split a cs')))"
| "remove_in W pane [] = (False, [])"
| "remove_in W pane ((w, n) # cs) =
     (let (found, n') = remove_at W pane n in
      if found then (True, (w, n') # cs)
      else let (found', cs') = remove_in W pane cs in (found', (w, n') # cs'))"

definition renormalize :: "'w w_ops \<Rightarrow> ('w \<times> 'w node) list \<Rightarrow> ('w \<times> 'w node) list" where
  "renormalize W cs =
     (if cs = [] then []
      else
        let sum = w_sum W (map (\<lambda>(w, n). w_max W w (w_zero W)) cs) in
        if \<not> w_usable W sum then map (\<lambda>(w, n). (w_even W (length cs), n)) cs
        else map (\<lambda>(w, n). (w_div W (w_max W w (w_zero W)) sum, n)) cs)"

fun splice_child :: "'w w_ops \<Rightarrow> split_axis \<Rightarrow> 'w \<times> 'w node \<Rightarrow> ('w \<times> 'w node) list" where
  "splice_child W axis (w, Leaf p) = [(w, Leaf p)]"
| "splice_child W axis (w, Split a cs) =
     (if a = axis then map (\<lambda>(v, n). (w_mul W v w, n)) cs else [(w, Split a cs)])"

fun collapse :: "'w node \<Rightarrow> 'w node" where
  "collapse (Split a [(w, n)]) = n"
| "collapse n = n"

fun normalize_node :: "'w w_ops \<Rightarrow> 'w node \<Rightarrow> 'w node" where
  "normalize_node W (Leaf p) = Leaf p"
| "normalize_node W (Split a cs) =
     collapse (Split a (renormalize W
       (concat (map (splice_child W a) (map (\<lambda>(w, n). (w, normalize_node W n)) cs)))))"

fun equalize_node :: "'w w_ops \<Rightarrow> 'w node \<Rightarrow> 'w node" where
  "equalize_node W (Leaf p) = Leaf p"
| "equalize_node W (Split a cs) =
     Split a (map (\<lambda>(w, n). (w_even W (length cs), equalize_node W n)) cs)"

text \<open>
  \<^verbatim>\<open>node_at_mut(root, path)\<close> followed by an update of the node there: \<open>None\<close> when the path leads nowhere.
\<close>

fun update_at :: "nat list \<Rightarrow> ('w node \<Rightarrow> 'w node option) \<Rightarrow> 'w node \<Rightarrow> 'w node option" where
  "update_at [] f n = f n"
| "update_at (i # path) f (Leaf p) = None"
| "update_at (i # path) f (Split a cs) =
     (if i < length cs then
        map_option (\<lambda>n. Split a (cs[i := (fst (cs ! i), n)])) (update_at path f (snd (cs ! i)))
      else None)"

section \<open>The tree and its operations\<close>

definition pt_panes :: "'w pane_tree \<Rightarrow> pane_id list" where
  "pt_panes t = collect (pt_root t)"

fun node_is_split :: "'w node \<Rightarrow> bool" where
  "node_is_split (Leaf p) = False"
| "node_is_split (Split a cs) = True"

definition is_split :: "'w pane_tree \<Rightarrow> bool" where
  "is_split t = node_is_split (pt_root t)"

definition pt_contains :: "'w pane_tree \<Rightarrow> pane_id \<Rightarrow> bool" where
  "pt_contains t p \<longleftrightarrow> p \<in> set (pt_panes t)"

definition new_tree :: "'w pane_tree" where
  "new_tree = \<lparr>pt_root = Leaf 0, pt_focus = 0, pt_next = 1, pt_zoom = None\<rparr>"

definition first_pane :: "'w pane_tree \<Rightarrow> pane_id" where
  \<comment> \<open>\<^verbatim>\<open>panes().first().copied().unwrap_or(PaneId(0))\<close>\<close>
  "first_pane t = (case pt_panes t of [] \<Rightarrow> 0 | p # _ \<Rightarrow> p)"

definition normalize :: "'w w_ops \<Rightarrow> 'w pane_tree \<Rightarrow> 'w pane_tree" where
  "normalize W t =
     (let t = t\<lparr>pt_root := normalize_node W (pt_root t)\<rparr>;
          t = (if \<not> pt_contains t (pt_focus t) then t\<lparr>pt_focus := first_pane t\<rparr> else t)
      in if (case pt_zoom t of Some z \<Rightarrow> \<not> pt_contains t z | None \<Rightarrow> False) \<or> \<not> is_split t
         then t\<lparr>pt_zoom := None\<rparr> else t)"

definition set_focus :: "pane_id \<Rightarrow> 'w pane_tree \<Rightarrow> bool \<times> 'w pane_tree" where
  "set_focus p t =
     (if pt_focus t \<noteq> p \<and> pt_contains t p then (True, t\<lparr>pt_focus := p\<rparr>) else (False, t))"

definition zoom_toggle :: "pane_id \<Rightarrow> 'w pane_tree \<Rightarrow> 'w pane_tree" where
  "zoom_toggle p t =
     t\<lparr>pt_zoom := (if pt_zoom t = Some p then None
                   else if pt_contains t p \<and> is_split t then Some p
                   else None)\<rparr>"

text \<open>\<^verbatim>\<open>self.next += 1\<close> on a \<^verbatim>\<open>u32\<close>.\<close>

definition bump :: "nat \<Rightarrow> nat" where
  "bump n = (n + 1) mod 2 ^ 32"

definition insert_pane :: "'w w_ops \<Rightarrow> pane_id \<Rightarrow> drop_zone \<Rightarrow> 'w pane_tree \<Rightarrow> pane_id option \<times> 'w pane_tree" where
  "insert_pane W tgt zone t =
     (case zone_split zone of
        None \<Rightarrow> (None, t)
      | Some (axis, before) \<Rightarrow>
        if \<not> pt_contains t tgt then (None, t)
        else
          let new = pt_next t;
              t = t\<lparr>pt_next := bump (pt_next t),
                    pt_root := snd (insert_at W tgt axis before new (pt_root t)), pt_zoom := None\<rparr>
          in (Some new, normalize W t))"

definition position :: "'a \<Rightarrow> 'a list \<Rightarrow> nat option" where
  "position x xs = (if x \<in> set xs then Some (length (takeWhile (\<lambda>y. y \<noteq> x) xs)) else None)"

definition remove_pane :: "'w w_ops \<Rightarrow> pane_id \<Rightarrow> 'w pane_tree \<Rightarrow> pane_id option \<times> 'w pane_tree" where
  "remove_pane W pane t =
     (let order = pt_panes t in
      case position pane order of
        None \<Rightarrow> (None, t)
      | Some pos \<Rightarrow>
        if length order < 2 then (None, t)
        else
          let heir = (if 0 < pos then order ! (pos - 1) else order ! (pos + 1));
              t = t\<lparr>pt_root := snd (remove_at W pane (pt_root t)),
                    pt_focus := (if pt_focus t = pane then heir else pt_focus t),
                    pt_zoom := (if pt_zoom t = Some pane then None else pt_zoom t)\<rparr>
          in (Some heir, normalize W t))"

text \<open>
  \<^verbatim>\<open>set_weight\<close>: \<open>None\<close> where \<^verbatim>\<open>f32::clamp\<close> would panic on its bounds; the flag says whether anything was
  set.
\<close>

definition gutter_weights :: "'w w_ops \<Rightarrow> 'w \<Rightarrow> 'w \<Rightarrow> 'w \<Rightarrow> 'w \<Rightarrow> ('w \<times> 'w) option" where
  "gutter_weights W a b leading lo =
     (let pair = w_add W a b;
          lo = w_min W (w_max W lo (w_zero W)) (w_div W pair (w_two W));
          hi = w_sub W pair lo
      in if \<not> w_le W lo hi then None
         else let first = (if w_lt W leading lo then lo else if w_lt W hi leading then hi else leading)
              in Some (first, w_sub W pair first))"

definition set_weight ::
  "'w w_ops \<Rightarrow> nat list \<Rightarrow> nat \<Rightarrow> 'w \<Rightarrow> 'w \<Rightarrow> 'w pane_tree \<Rightarrow> (bool \<times> 'w pane_tree) option" where
  "set_weight W path gutter leading lo t =
     (let target = (\<lambda>n. case n of
            Leaf p \<Rightarrow> None
          | Split a cs \<Rightarrow> if length cs \<le> gutter + 1 then None else Some cs) in
      case update_at path (\<lambda>n. case target n of None \<Rightarrow> None | Some cs \<Rightarrow> Some n) (pt_root t) of
        None \<Rightarrow> Some (False, t)
      | Some _ \<Rightarrow>
        (case update_at path (\<lambda>n. case n of
             Leaf p \<Rightarrow> None
           | Split a cs \<Rightarrow>
             (case gutter_weights W (fst (cs ! gutter)) (fst (cs ! (gutter + 1))) leading lo of
                None \<Rightarrow> None
              | Some (x, y) \<Rightarrow> Some (Split a (cs[gutter := (x, snd (cs ! gutter)),
                                                 gutter + 1 := (y, snd (cs ! (gutter + 1)))])))) (pt_root t) of
           None \<Rightarrow> None
         | Some r \<Rightarrow> Some (True, t\<lparr>pt_root := r\<rparr>)))"

definition equalize :: "'w w_ops \<Rightarrow> 'w pane_tree \<Rightarrow> 'w pane_tree" where
  "equalize W t = t\<lparr>pt_root := equalize_node W (pt_root t)\<rparr>"

definition cycle :: "pane_id \<Rightarrow> bool \<Rightarrow> 'w pane_tree \<Rightarrow> pane_id option" where
  "cycle from forward t =
     (let order = pt_panes t; n = length order in
      if n < 2 then None
      else
        let pos = (case position from order of Some i \<Rightarrow> i | None \<Rightarrow> 0)
        in Some (if forward then order ! ((pos + 1) mod n) else order ! ((pos + n - 1) mod n)))"

text \<open>\<^verbatim>\<open>restore\<close>; \<^verbatim>\<open>p.0 + 1\<close> is on \<^verbatim>\<open>u32\<close> as well.\<close>

definition restore :: "'w w_ops \<Rightarrow> 'w node \<Rightarrow> pane_id \<Rightarrow> nat \<Rightarrow> 'w pane_tree" where
  "restore W node focus nxt =
     (let t = normalize W \<lparr>pt_root = node, pt_focus = focus, pt_next = max nxt 1, pt_zoom = None\<rparr>;
          panes = pt_panes t
      in if panes = [] then new_tree
         else
           let t = t\<lparr>pt_next := max (pt_next t) (fold max (map bump panes) 0)\<rparr>
           in if \<not> pt_contains t (pt_focus t) then t\<lparr>pt_focus := hd panes\<rparr> else t)"

definition split_fits :: "'w w_ops \<Rightarrow> 'w \<Rightarrow> 'w \<Rightarrow> bool" where
  "split_fits W extent lo \<longleftrightarrow> w_le W lo (w_mul W extent (w_half W))"

section \<open>Panes of a modified node\<close>

abbreviation collect_all :: "('w \<times> 'w node) list \<Rightarrow> pane_id list" where
  "collect_all cs \<equiv> concat (map (\<lambda>c. collect (snd c)) cs)"

text \<open>The visual order with \<open>new\<close> put beside \<open>tgt\<close>.\<close>

definition beside :: "pane_id \<Rightarrow> bool \<Rightarrow> pane_id \<Rightarrow> pane_id list \<Rightarrow> pane_id list" where
  "beside tgt before new ps =
     concat (map (\<lambda>p. if p = tgt then (if before then [new, tgt] else [tgt, new]) else [p]) ps)"

lemma beside_simps [simp]:
  "beside tgt before new [] = []"
  "beside tgt before new (xs @ ys) = beside tgt before new xs @ beside tgt before new ys"
  "beside tgt before new (p # ps) =
     (if p = tgt then (if before then [new, tgt] else [tgt, new]) else [p]) @ beside tgt before new ps"
  by (simp_all add: beside_def)

lemma beside_id: "tgt \<notin> set xs \<Longrightarrow> beside tgt before new xs = xs"
  by (induction xs) (auto simp: beside_def)

lemma set_beside: "tgt \<in> set ps \<Longrightarrow> set (beside tgt before new ps) = Set.insert new (set ps)"
  by (auto simp: beside_def)

lemma distinct_beside: "distinct ps \<Longrightarrow> new \<notin> set ps \<Longrightarrow> distinct (beside tgt before new ps)"
proof (induction ps)
  case (Cons p ps)
  show ?case
  proof (cases "p = tgt")
    case True
    with Cons.prems have "beside tgt before new ps = ps" by (simp add: beside_id)
    with True Cons.prems show ?thesis by auto
  next
    case False
    have "set (beside tgt before new ps) \<subseteq> Set.insert new (set ps)" by (auto simp: beside_def)
    then show ?thesis using False Cons by auto
  qed
qed simp

lemma leaf_position_Some:
  "leaf_position p cs = Some i \<Longrightarrow>
     i < length cs \<and> (\<exists>w. cs = take i cs @ (w, Leaf p) # drop (i + 1) cs \<and> cs ! i = (w, Leaf p))"
proof (induction cs arbitrary: i)
  case (Cons c cs)
  show ?case
  proof (cases "is_leaf_of p c")
    case True
    then obtain w where "c = (w, Leaf p)" by (cases "(p, c)" rule: is_leaf_of.cases) auto
    with True Cons.prems show ?thesis by auto
  next
    case False
    with Cons.prems obtain j where "leaf_position p cs = Some j" "i = Suc j" by auto
    with Cons.IH [of j] show ?thesis by auto
  qed
qed simp

lemma leaf_position_member: "leaf_position p cs = Some i \<Longrightarrow> p \<in> set (collect_all cs)"
proof -
  assume "leaf_position p cs = Some i"
  then obtain w where "(w, Leaf p) \<in> set cs"
    using leaf_position_Some [of p cs i] by (metis nth_mem)
  then show ?thesis by force
qed

lemma insert_sibling_eq:
  assumes "cs = xs @ (w, Leaf p) # ys" "i = length xs"
  shows "insert_sibling W i before new cs =
    xs @ (if before then [(w_mul W w (w_half W), Leaf new), (w_mul W w (w_half W), Leaf p)]
          else [(w_mul W w (w_half W), Leaf p), (w_mul W w (w_half W), Leaf new)]) @ ys"
  using assms by (simp add: insert_sibling_def Let_def list_update_append)

lemma insert_sibling_split:
  assumes "leaf_position tgt cs = Some i"
  obtains xs w ys where "cs = xs @ (w, Leaf tgt) # ys"
    "insert_sibling W i before new cs =
       xs @ (if before then [(w_mul W w (w_half W), Leaf new), (w_mul W w (w_half W), Leaf tgt)]
             else [(w_mul W w (w_half W), Leaf tgt), (w_mul W w (w_half W), Leaf new)]) @ ys"
proof -
  from leaf_position_Some [OF assms] obtain w where
    i: "i < length cs" and cs: "cs = take i cs @ (w, Leaf tgt) # drop (i + 1) cs" by blast
  moreover have "i = length (take i cs)" using i by simp
  ultimately show ?thesis using insert_sibling_eq [OF cs] that by blast
qed

lemma insert_at_not_found:
  "tgt \<notin> set (collect n) \<Longrightarrow> insert_at W tgt axis before new n = (False, n)"
  "tgt \<notin> set (collect_all cs) \<Longrightarrow> insert_in W tgt axis before new cs = (False, cs)"
proof (induction W tgt axis before new n and W tgt axis before new cs rule: insert_at_insert_in.induct)
  case (2 W tgt axis before new a cs)
  have "leaf_position tgt cs = None"
  proof (cases "leaf_position tgt cs")
    case (Some i)
    with 2 leaf_position_member [of tgt cs i] show ?thesis by simp
  qed
  with 2 show ?case by simp
qed auto

lemma insert_at_found:
  "tgt \<in> set (collect n) \<Longrightarrow> fst (insert_at W tgt axis before new n)"
  "tgt \<in> set (collect_all cs) \<Longrightarrow> fst (insert_in W tgt axis before new cs)"
proof (induction W tgt axis before new n and W tgt axis before new cs rule: insert_at_insert_in.induct)
  case (4 W tgt axis before new w n cs)
  show ?case
  proof (cases "tgt \<in> set (collect n)")
    case True
    with "4.IH"(1) show ?thesis by (auto split: prod.splits)
  next
    case False
    then have "insert_at W tgt axis before new n = (False, n)" by (rule insert_at_not_found)
    with 4 False show ?thesis by (auto split: prod.splits)
  qed
qed (auto split: option.splits prod.splits if_splits)

text \<open>The new pane stands right beside the one that was split and nothing else moves.\<close>

lemma collect_insert_at:
  "distinct (collect n) \<Longrightarrow> tgt \<in> set (collect n) \<Longrightarrow>
     collect (snd (insert_at W tgt axis before new n)) = beside tgt before new (collect n)"
  "distinct (collect_all cs) \<Longrightarrow> tgt \<in> set (collect_all cs) \<Longrightarrow>
     collect_all (snd (insert_in W tgt axis before new cs)) = beside tgt before new (collect_all cs)"
proof (induction W tgt axis before new n and W tgt axis before new cs rule: insert_at_insert_in.induct)
  case (2 W tgt axis before new a cs)
  show ?case
  proof (cases "if a = axis then leaf_position tgt cs else None")
    case None
    with 2 show ?thesis by (auto split: prod.splits)
  next
    case (Some i)
    then have "leaf_position tgt cs = Some i" by (auto split: if_splits)
    then obtain xs w ys where cs: "cs = xs @ (w, Leaf tgt) # ys"
      "insert_sibling W i before new cs =
       xs @ (if before then [(w_mul W w (w_half W), Leaf new), (w_mul W w (w_half W), Leaf tgt)]
             else [(w_mul W w (w_half W), Leaf tgt), (w_mul W w (w_half W), Leaf new)]) @ ys"
      by (rule insert_sibling_split)
    have d: "tgt \<notin> set (collect_all xs)" "tgt \<notin> set (collect_all ys)"
      using "2.prems"(1) unfolding cs(1) by auto
    have "collect_all cs = collect_all xs @ [tgt] @ collect_all ys" unfolding cs(1) by simp
    then show ?thesis
      using Some d by (simp add: cs(2) beside_id)
  qed
next
  case (4 W tgt axis before new w n cs)
  show ?case
  proof (cases "tgt \<in> set (collect n)")
    case True
    then have f: "fst (insert_at W tgt axis before new n)" by (rule insert_at_found)
    have "tgt \<notin> set (collect_all cs)" using 4 True by auto
    with f True 4 show ?thesis by (auto simp: beside_id split: prod.splits)
  next
    case False
    then have "insert_at W tgt axis before new n = (False, n)" by (rule insert_at_not_found)
    with 4 False show ?thesis by (auto simp: beside_id split: prod.splits)
  qed
qed auto

lemma remove_child_split:
  assumes "leaf_position p cs = Some i"
  obtains xs w ys where "cs = xs @ (w, Leaf p) # ys" "map snd (remove_child W i cs) = map snd (xs @ ys)"
    "length (remove_child W i cs) = length xs + length ys"
proof -
  from leaf_position_Some [OF assms] obtain w where
    i: "i < length cs" and cs: "cs = take i cs @ (w, Leaf p) # drop (i + 1) cs" by blast
  have "map snd (remove_child W i cs) = map snd (take i cs @ drop (i + 1) cs)"
    by (simp add: remove_child_def Let_def case_prod_unfold comp_def)
  moreover have "length (remove_child W i cs) = length (take i cs) + length (drop (i + 1) cs)"
    by (simp add: remove_child_def Let_def)
  ultimately show ?thesis using that cs by blast
qed

lemma collect_all_snd: "map snd cs = map snd ds \<Longrightarrow> collect_all cs = collect_all ds"
  by (metis (mono_tags, lifting) list.map_comp comp_apply map_eq_conv list.map_cong0)

lemma remove_at_not_found:
  "pane \<notin> set (collect n) \<Longrightarrow> remove_at W pane n = (False, n)"
  "pane \<notin> set (collect_all cs) \<Longrightarrow> remove_in W pane cs = (False, cs)"
proof (induction W pane n and W pane cs rule: remove_at_remove_in.induct)
  case (2 W pane a cs)
  have "leaf_position pane cs = None"
  proof (cases "leaf_position pane cs")
    case (Some i)
    with 2 leaf_position_member [of pane cs i] show ?thesis by simp
  qed
  with 2 show ?case by simp
qed auto

text \<open>
  A leaf cannot remove itself: the removal is found in every split that holds the pane. \<open>non_leaf\<close> is the
  list form of this.
\<close>

lemma remove_at_found:
  "pane \<in> set (collect n) \<Longrightarrow> node_is_split n \<Longrightarrow> fst (remove_at W pane n)"
  "pane \<in> set (collect_all cs) \<Longrightarrow> leaf_position pane cs = None \<Longrightarrow> fst (remove_in W pane cs)"
proof (induction W pane n and W pane cs rule: remove_at_remove_in.induct)
  case (4 W pane w n cs)
  show ?case
  proof (cases "pane \<in> set (collect n)")
    case True
    with "4.prems"(2) have "node_is_split n" by (cases n) auto
    with True "4.IH"(1) show ?thesis by (auto split: prod.splits)
  next
    case False
    then have "remove_at W pane n = (False, n)" by (rule remove_at_not_found)
    moreover have "leaf_position pane cs = None" using "4.prems"(2) by (auto split: if_splits)
    ultimately show ?thesis using 4 False by (auto split: prod.splits)
  qed
qed (auto split: option.splits prod.splits)

lemma filter_id: "p \<notin> set xs \<Longrightarrow> filter (\<lambda>q. q \<noteq> p) xs = xs"
  by (induction xs) auto

lemma collect_remove_at:
  "distinct (collect n) \<Longrightarrow> node_is_split n \<Longrightarrow>
     collect (snd (remove_at W pane n)) = filter (\<lambda>q. q \<noteq> pane) (collect n)"
  "distinct (collect_all cs) \<Longrightarrow> leaf_position pane cs = None \<Longrightarrow>
     collect_all (snd (remove_in W pane cs)) = filter (\<lambda>q. q \<noteq> pane) (collect_all cs)"
proof (induction W pane n and W pane cs rule: remove_at_remove_in.induct)
  case (2 W pane a cs)
  show ?case
  proof (cases "leaf_position pane cs")
    case None
    with 2 show ?thesis by (auto split: prod.splits)
  next
    case (Some i)
    then obtain xs w ys where cs: "cs = xs @ (w, Leaf pane) # ys"
      and sn: "map snd (remove_child W i cs) = map snd (xs @ ys)"
      by (rule remove_child_split)
    have "pane \<notin> set (collect_all xs)" "pane \<notin> set (collect_all ys)"
      using "2.prems"(1) unfolding cs by auto
    then have "filter (\<lambda>q. q \<noteq> pane) (collect_all cs) = collect_all (xs @ ys)"
      unfolding cs by (simp add: filter_id del: filter_concat)
    also have "\<dots> = collect_all (remove_child W i cs)" by (rule collect_all_snd [OF sn [symmetric]])
    finally show ?thesis using Some by simp
  qed
next
  case (4 W pane w n cs)
  show ?case
  proof (cases "pane \<in> set (collect n)")
    case True
    with "4.prems"(2) have sp: "node_is_split n" by (cases n) auto
    then have f: "fst (remove_at W pane n)" using True by (rule remove_at_found [rotated])
    have "pane \<notin> set (collect_all cs)" using 4 True by auto
    then have "filter (\<lambda>q. q \<noteq> pane) (collect_all cs) = collect_all cs" by (rule filter_id)
    with f sp 4 show ?thesis by (auto split: prod.splits)
  next
    case False
    then have "remove_at W pane n = (False, n)" by (rule remove_at_not_found)
    moreover have "leaf_position pane cs = None" using "4.prems"(2) by (auto split: if_splits)
    ultimately show ?thesis using 4 False by (auto simp: filter_id split: prod.splits)
  qed
qed auto

section \<open>Normal form\<close>

text \<open>
  The two invariants of the module: splits are flat and have at least two children. \<open>populated\<close> is what
  every operation of the module keeps anyway: no split without children.
\<close>

fun wf_node :: "'w node \<Rightarrow> bool" where
  "wf_node (Leaf p) = True"
| "wf_node (Split a cs) \<longleftrightarrow>
     2 \<le> length cs \<and> (\<forall>c \<in> set cs. wf_node (snd c) \<and> (\<forall>b ds. snd c = Split b ds \<longrightarrow> b \<noteq> a))"

fun populated :: "'w node \<Rightarrow> bool" where
  "populated (Leaf p) = True"
| "populated (Split a cs) \<longleftrightarrow> cs \<noteq> [] \<and> (\<forall>c \<in> set cs. populated (snd c))"

lemma wf_populated: "wf_node n \<Longrightarrow> populated n"
  by (induction n rule: wf_node.induct) auto

lemma populated_collect: "populated n \<Longrightarrow> collect n \<noteq> []"
proof (induction n rule: collect.induct)
  case (2 a cs)
  then have "hd cs \<in> set cs" "collect (snd (hd cs)) \<noteq> []" by auto
  then show ?case by auto
qed simp

lemma snd_renormalize [simp]: "map snd (renormalize W cs) = map snd cs"
  by (auto simp: renormalize_def Let_def case_prod_unfold comp_def)

lemma set_snd_renormalize: "snd ` set (renormalize W cs) = snd ` set cs"
  by (metis list.set_map snd_renormalize)

lemma ball_renormalize: "(\<forall>c \<in> set (renormalize W cs). P (snd c)) \<longleftrightarrow> (\<forall>c \<in> set cs. P (snd c))"
proof -
  have "(\<forall>n \<in> snd ` set (renormalize W cs). P n) \<longleftrightarrow> (\<forall>n \<in> snd ` set cs. P n)"
    by (simp only: set_snd_renormalize)
  then show ?thesis by (simp only: ball_simps)
qed

lemma length_renormalize [simp]: "length (renormalize W cs) = length cs"
  by (metis length_map snd_renormalize)

lemma collect_renormalize [simp]: "collect_all (renormalize W cs) = collect_all cs"
  by (rule collect_all_snd) simp

lemma collect_splice [simp]: "collect_all (splice_child W a c) = collect (snd c)"
  by (cases "(W, a, c)" rule: splice_child.cases) (auto simp: case_prod_unfold comp_def)

lemma collect_splices: "collect_all (concat (map (splice_child W a) cs)) = collect_all cs"
  by (induction cs) simp_all

lemma collect_collapse [simp]: "collect (collapse n) = collect n"
  by (cases n rule: collapse.cases) simp_all

lemma collect_normalize_node [simp]: "collect (normalize_node W n) = collect n"
proof (induction W n rule: normalize_node.induct)
  case (2 W a cs)
  have "collect_all (map (\<lambda>(w, n). (w, normalize_node W n)) cs) = collect_all cs"
    using 2 by (auto simp: case_prod_unfold comp_def intro!: arg_cong [of _ _ concat])
  then show ?case by (simp add: collect_splices del: map_map)
qed simp

lemma splice_wf:
  assumes "wf_node (snd c)"
  shows "splice_child W a c \<noteq> [] \<and>
    (\<forall>e \<in> set (splice_child W a c). wf_node (snd e) \<and> (\<forall>b ds. snd e = Split b ds \<longrightarrow> b \<noteq> a))"
  using assms by (cases "(W, a, c)" rule: splice_child.cases) auto

lemma collapse_wf:
  assumes "cs \<noteq> []" "\<forall>c \<in> set cs. wf_node (snd c) \<and> (\<forall>b ds. snd c = Split b ds \<longrightarrow> b \<noteq> a)"
  shows "wf_node (collapse (Split a cs))"
  using assms by (cases "Split a cs" rule: collapse.cases) (auto simp: Suc_le_eq numeral_2_eq_2)

lemma normalize_node_wf: "populated n \<Longrightarrow> wf_node (normalize_node W n)"
proof (induction W n rule: normalize_node.induct)
  case (2 W a cs)
  let ?cs = "map (\<lambda>(w, n). (w, normalize_node W n)) cs"
  let ?flat = "concat (map (splice_child W a) ?cs)"
  have wf: "wf_node (snd c)" if "c \<in> set ?cs" for c
    using that 2 by auto
  have flat: "\<forall>e \<in> set ?flat. wf_node (snd e) \<and> (\<forall>b ds. snd e = Split b ds \<longrightarrow> b \<noteq> a)"
  proof
    fix e assume "e \<in> set ?flat"
    then obtain c where "c \<in> set ?cs" "e \<in> set (splice_child W a c)"
      by (metis (no_types, lifting) UN_E set_concat set_map image_iff)
    with splice_wf [OF wf [of c], of W a] show "wf_node (snd e) \<and> (\<forall>b ds. snd e = Split b ds \<longrightarrow> b \<noteq> a)"
      by blast
  qed
  have "?flat \<noteq> []"
  proof -
    have "?cs \<noteq> []" using "2.prems" by simp
    then have "hd ?cs \<in> set ?cs" by (rule hd_in_set)
    then have "splice_child W a (hd ?cs) \<noteq> []" using splice_wf [OF wf] by blast
    with \<open>hd ?cs \<in> set ?cs\<close> show ?thesis by (simp only: concat_eq_Nil_conv set_map) blast
  qed
  then have "renormalize W ?flat \<noteq> []" by (metis length_renormalize length_0_conv)
  moreover have "\<forall>c \<in> set (renormalize W ?flat).
      wf_node (snd c) \<and> (\<forall>b ds. snd c = Split b ds \<longrightarrow> b \<noteq> a)"
    using flat ball_renormalize
      [of W ?flat "\<lambda>n. wf_node n \<and> (\<forall>b ds. n = Split b ds \<longrightarrow> b \<noteq> a)"] by (simp only:)
  ultimately show ?case unfolding normalize_node.simps by (rule collapse_wf)
qed simp

lemma populated_insert_at:
  "populated n \<Longrightarrow> populated (snd (insert_at W tgt axis before new n))"
  "\<forall>c \<in> set cs. populated (snd c) \<Longrightarrow>
     length (snd (insert_in W tgt axis before new cs)) = length cs \<and>
     (\<forall>c \<in> set (snd (insert_in W tgt axis before new cs)). populated (snd c))"
proof (induction W tgt axis before new n and W tgt axis before new cs rule: insert_at_insert_in.induct)
  case (2 W tgt axis before new a cs)
  show ?case
  proof (cases "if a = axis then leaf_position tgt cs else None")
    case None
    with 2 show ?thesis by (auto split: prod.splits)
  next
    case (Some i)
    then have "leaf_position tgt cs = Some i" by (auto split: if_splits)
    then obtain xs w ys where cs: "cs = xs @ (w, Leaf tgt) # ys"
      "insert_sibling W i before new cs =
       xs @ (if before then [(w_mul W w (w_half W), Leaf new), (w_mul W w (w_half W), Leaf tgt)]
             else [(w_mul W w (w_half W), Leaf tgt), (w_mul W w (w_half W), Leaf new)]) @ ys"
      by (rule insert_sibling_split)
    then show ?thesis using Some "2.prems" by auto
  qed
qed (auto split: prod.splits)

lemma populated_remove_at:
  "wf_node n \<Longrightarrow> populated (snd (remove_at W pane n))"
  "\<forall>c \<in> set cs. wf_node (snd c) \<Longrightarrow>
     length (snd (remove_in W pane cs)) = length cs \<and>
     (\<forall>c \<in> set (snd (remove_in W pane cs)). populated (snd c))"
proof (induction W pane n and W pane cs rule: remove_at_remove_in.induct)
  case (2 W pane a cs)
  show ?case
  proof (cases "leaf_position pane cs")
    case None
    with 2 show ?thesis by (auto split: prod.splits)
  next
    case (Some i)
    then obtain xs w ys where cs: "cs = xs @ (w, Leaf pane) # ys"
      and sn: "map snd (remove_child W i cs) = map snd (xs @ ys)"
      by (rule remove_child_split)
    have "snd ` set (remove_child W i cs) = snd ` set (xs @ ys)"
      using arg_cong [OF sn, of set] by (simp add: image_Un)
    moreover have "\<forall>c \<in> set (xs @ ys). populated (snd c)"
      using "2.prems" cs by (auto intro: wf_populated)
    ultimately have "\<forall>c \<in> set (remove_child W i cs). populated (snd c)"
      by (metis (no_types, lifting) imageE imageI)
    moreover have "remove_child W i cs \<noteq> []"
      using "2.prems" arg_cong [OF sn, of length] by (auto simp: cs)
    ultimately show ?thesis using Some by simp
  qed
next
  case (4 W pane w n cs)
  then show ?case by (auto intro: wf_populated split: prod.splits)
qed auto

section \<open>The invariant of a layout\<close>

definition tree_ok :: "'w pane_tree \<Rightarrow> bool" where
  "tree_ok t \<longleftrightarrow>
     wf_node (pt_root t) \<and> distinct (pt_panes t) \<and> pt_contains t (pt_focus t) \<and>
     (\<forall>z. pt_zoom t = Some z \<longrightarrow> pt_contains t z \<and> is_split t) \<and>
     (\<forall>p \<in> set (pt_panes t). p < pt_next t)"

lemmas pane_defs = pt_panes_def pt_contains_def is_split_def

lemma panes_normalize [simp]: "pt_panes (normalize W t) = pt_panes t"
  by (simp add: normalize_def Let_def pane_defs)

lemma next_normalize [simp]: "pt_next (normalize W t) = pt_next t"
  by (simp add: normalize_def Let_def)

lemma root_normalize [simp]: "pt_root (normalize W t) = normalize_node W (pt_root t)"
  by (simp add: normalize_def Let_def)

lemma focus_normalize:
  "pt_panes t \<noteq> [] \<Longrightarrow> pt_contains (normalize W t) (pt_focus (normalize W t))"
  by (auto simp: normalize_def Let_def pane_defs first_pane_def split: list.splits)

lemma focus_normalize_id: "pt_contains t (pt_focus t) \<Longrightarrow> pt_focus (normalize W t) = pt_focus t"
  by (simp add: normalize_def Let_def pane_defs)

lemma zoom_normalize:
  "pt_zoom (normalize W t) = Some z \<Longrightarrow> pt_contains (normalize W t) z \<and> is_split (normalize W t)"
  by (auto simp: normalize_def Let_def pane_defs split: if_splits option.splits)

lemma normalize_ok:
  assumes "populated (pt_root t)" "distinct (pt_panes t)" "\<forall>p \<in> set (pt_panes t). p < pt_next t"
  shows "tree_ok (normalize W t)"
  using assms focus_normalize [of t W] populated_collect [OF assms(1)]
  by (auto simp: tree_ok_def normalize_node_wf pt_panes_def dest: zoom_normalize)

lemma new_tree_ok: "tree_ok new_tree"
  by (simp add: tree_ok_def new_tree_def pane_defs)

lemma insert_pane_eq:
  assumes "zone_split zone = Some (axis, before)" "pt_contains t tgt"
  shows "insert_pane W tgt zone t = (Some (pt_next t), normalize W
    (t\<lparr>pt_next := bump (pt_next t), pt_root := snd (insert_at W tgt axis before (pt_next t) (pt_root t)),
       pt_zoom := None\<rparr>))"
  using assms by (simp add: insert_pane_def Let_def)

lemma insert_pane_panes:
  assumes "zone_split zone = Some (axis, before)" "pt_contains t tgt" "distinct (pt_panes t)"
  shows "pt_panes (snd (insert_pane W tgt zone t)) = beside tgt before (pt_next t) (pt_panes t)"
  using assms collect_insert_at(1) [of "pt_root t" tgt W axis before "pt_next t"]
  by (simp add: insert_pane_eq pane_defs)

lemma insert_pane_none:
  "fst (insert_pane W tgt zone t) = None \<Longrightarrow> snd (insert_pane W tgt zone t) = t"
  by (auto simp: insert_pane_def Let_def split: option.splits prod.splits if_splits)

lemma insert_pane_ok:
  assumes ok: "tree_ok t" and nxt: "pt_next t + 1 < 2 ^ 32"
  shows "tree_ok (snd (insert_pane W tgt zone t))"
proof (cases "fst (insert_pane W tgt zone t)")
  case None
  with ok show ?thesis by (simp add: insert_pane_none)
next
  case (Some new)
  then obtain axis before where z: "zone_split zone = Some (axis, before)" and tgt: "pt_contains t tgt"
    by (auto simp: insert_pane_def Let_def split: option.splits prod.splits if_splits)
  let ?t = "t\<lparr>pt_next := bump (pt_next t), pt_root := snd (insert_at W tgt axis before (pt_next t) (pt_root t)),
       pt_zoom := None\<rparr>"
  have d: "distinct (pt_panes t)" and lt: "\<forall>p \<in> set (pt_panes t). p < pt_next t"
    and wf: "wf_node (pt_root t)"
    using ok by (simp_all add: tree_ok_def)
  have p: "pt_panes ?t = beside tgt before (pt_next t) (pt_panes t)"
    using insert_pane_panes [OF z tgt d, of W] by (simp add: insert_pane_eq [OF z tgt])
  have "populated (pt_root ?t)" using populated_insert_at(1) [OF wf_populated [OF wf]] by simp
  moreover have "distinct (pt_panes ?t)" unfolding p using d lt by (intro distinct_beside) auto
  moreover have "\<forall>p \<in> set (pt_panes ?t). p < pt_next ?t"
    using lt nxt tgt unfolding p by (auto simp: set_beside pt_contains_def bump_def)
  ultimately show ?thesis unfolding insert_pane_eq [OF z tgt] by (simp add: normalize_ok)
qed

lemma position_Some: "position x xs = Some i \<Longrightarrow> i < length xs \<and> xs ! i = x"
proof -
  have "x \<in> set xs \<Longrightarrow> length (takeWhile (\<lambda>y. y \<noteq> x) xs) < length xs \<and>
      xs ! length (takeWhile (\<lambda>y. y \<noteq> x) xs) = x"
    by (induction xs) auto
  then show "position x xs = Some i \<Longrightarrow> ?thesis" by (auto simp: position_def split: if_splits)
qed

lemma two_panes_split: "2 \<le> length (collect n) \<Longrightarrow> node_is_split n"
  by (cases n) auto

lemma remove_pane_cases:
  obtains (none) "remove_pane W pane t = (None, t)" "\<not> pt_contains t pane \<or> length (pt_panes t) < 2"
  | (some) pos heir t' where "position pane (pt_panes t) = Some pos" "2 \<le> length (pt_panes t)"
      "heir = (if 0 < pos then pt_panes t ! (pos - 1) else pt_panes t ! (pos + 1))"
      "t' = t\<lparr>pt_root := snd (remove_at W pane (pt_root t)),
          pt_focus := (if pt_focus t = pane then heir else pt_focus t),
          pt_zoom := (if pt_zoom t = Some pane then None else pt_zoom t)\<rparr>"
      "remove_pane W pane t = (Some heir, normalize W t')"
proof (cases "position pane (pt_panes t)")
  case None
  then show ?thesis
    by (intro none) (auto simp: remove_pane_def position_def pt_contains_def split: if_splits)
next
  case (Some pos)
  show ?thesis
  proof (cases "length (pt_panes t) < 2")
    case True
    with Some show ?thesis by (intro none) (simp_all add: remove_pane_def)
  next
    case False
    with Some show ?thesis by (intro some) (simp_all add: remove_pane_def Let_def)
  qed
qed

lemma remove_pane_ok:
  assumes ok: "tree_ok t"
  shows "tree_ok (snd (remove_pane W pane t))"
proof (cases rule: remove_pane_cases [of W pane t])
  case none
  with ok show ?thesis by simp
next
  case (some pos heir t')
  have d: "distinct (pt_panes t)" and lt: "\<forall>p \<in> set (pt_panes t). p < pt_next t"
    and wf: "wf_node (pt_root t)"
    using ok by (simp_all add: tree_ok_def)
  have p: "pt_panes t' = filter (\<lambda>q. q \<noteq> pane) (pt_panes t)"
    using collect_remove_at(1) [of "pt_root t" W pane] d two_panes_split [of "pt_root t"] some(2)
    by (simp add: some(4) pt_panes_def)
  have "tree_ok (normalize W t')"
    using populated_remove_at(1) [OF wf] d lt by (intro normalize_ok) (auto simp: p, simp_all add: some(4))
  then show ?thesis by (simp add: some(5))
qed

lemma zoom_toggle_ok: "tree_ok t \<Longrightarrow> tree_ok (zoom_toggle p t)"
  by (auto simp: tree_ok_def zoom_toggle_def pane_defs)

lemma set_focus_ok: "tree_ok t \<Longrightarrow> tree_ok (snd (set_focus p t))"
  by (auto simp: tree_ok_def set_focus_def pane_defs)

text \<open>Operations that only change weights keep the shape of the tree.\<close>

definition same_shape :: "'w node \<Rightarrow> 'v node \<Rightarrow> bool" where
  "same_shape m n \<longleftrightarrow> map_node (\<lambda>_. ()) m = map_node (\<lambda>_. ()) n"

lemma map_node_Split [simp]:
  "map_node f (Split a cs) = Split a (map (\<lambda>c. (f (fst c), map_node f (snd c))) cs)"
  by (simp add: map_prod_def case_prod_unfold)

lemma collect_map_node: "collect (map_node f n) = collect n"
  by (induction n rule: collect.induct) (auto simp: comp_def intro!: arg_cong [of _ _ concat])

lemma wf_map_node: "wf_node (map_node f n) = wf_node n"
proof (induction n rule: wf_node.induct)
  case (2 a cs)
  have "(\<forall>b ds. map_node f m = Split b ds \<longrightarrow> b \<noteq> a) \<longleftrightarrow> (\<forall>b ds. m = Split b ds \<longrightarrow> b \<noteq> a)" for m
    by (cases m) auto
  with 2 show ?case by auto
qed simp

lemma node_is_split_map_node: "node_is_split (map_node f n) = node_is_split n"
  by (cases n) auto

lemma same_shape_facts:
  assumes "same_shape m n"
  shows "collect m = collect n" "wf_node m = wf_node n" "node_is_split m = node_is_split n"
  using assms unfolding same_shape_def
  by (metis collect_map_node, metis wf_map_node, metis node_is_split_map_node)

lemma same_shape_refl [simp]: "same_shape n n"
  by (simp add: same_shape_def)

lemma same_shape_ok: "tree_ok t \<Longrightarrow> same_shape r (pt_root t) \<Longrightarrow> tree_ok (t\<lparr>pt_root := r\<rparr>)"
  by (simp add: tree_ok_def pane_defs same_shape_facts)

lemma equalize_shape: "same_shape (equalize_node W n) n"
  by (induction W n rule: equalize_node.induct) (auto simp: same_shape_def)

lemma map_update_same:
  assumes "h c = h (cs ! g)"
  shows "map h (cs[g := c]) = map h cs"
proof (cases "g < length cs")
  case True
  then have "map h (cs[g := c]) = (map h cs)[g := map h cs ! g]" by (simp add: map_update assms)
  then show ?thesis by (simp only: list_update_id)
qed (simp add: list_update_beyond)

lemma update_at_shape:
  "update_at path f n = Some n' \<Longrightarrow> (\<forall>m m'. f m = Some m' \<longrightarrow> same_shape m' m) \<Longrightarrow> same_shape n' n"
proof (induction path f n arbitrary: n' rule: update_at.induct)
  case (3 i path f a cs)
  then obtain m where i: "i < length cs" and m: "update_at path f (snd (cs ! i)) = Some m"
    and n': "n' = Split a (cs[i := (fst (cs ! i), m)])"
    by (auto split: if_splits)
  have "same_shape m (snd (cs ! i))" using 3 i m by blast
  then have "map (\<lambda>c. ((), map_node (\<lambda>_. ()) (snd c))) (cs[i := (fst (cs ! i), m)]) =
      map (\<lambda>c. ((), map_node (\<lambda>_. ()) (snd c))) cs"
    by (intro map_update_same) (simp add: same_shape_def)
  then show ?case by (simp add: n' same_shape_def del: node.map(2))
qed auto

lemma set_weight_shape:
  assumes "set_weight W path g leading lo t = Some (b, t')"
  shows "\<exists>r. t' = t\<lparr>pt_root := r\<rparr> \<and> same_shape r (pt_root t)"
proof -
  let ?f = "\<lambda>n. case n of Leaf p \<Rightarrow> None
     | Split a cs \<Rightarrow> (case gutter_weights W (fst (cs ! g)) (fst (cs ! (g + 1))) leading lo of
          None \<Rightarrow> None
        | Some (x, y) \<Rightarrow> Some (Split a (cs[g := (x, snd (cs ! g)), g + 1 := (y, snd (cs ! (g + 1)))])))"
  have "same_shape m' m" if "?f m = Some m'" for m m'
  proof -
    from that obtain a cs x y where m: "m = Split a cs"
      "m' = Split a (cs[g := (x, snd (cs ! g)), g + 1 := (y, snd (cs ! (g + 1)))])"
      by (auto split: node.splits option.splits prod.splits)
    have "map (\<lambda>c. ((), map_node (\<lambda>_. ()) (snd c))) (cs[g := (x, snd (cs ! g)), g + 1 := (y, snd (cs ! (g + 1)))]) =
        map (\<lambda>c. ((), map_node (\<lambda>_. ()) (snd c))) cs"
    proof -
      let ?h = "\<lambda>c :: 'a \<times> 'a node. ((), map_node (\<lambda>_. ()) (snd c))"
      have "map ?h (cs[g := (x, snd (cs ! g)), g + 1 := (y, snd (cs ! (g + 1)))]) =
          map ?h (cs[g := (x, snd (cs ! g))])"
        by (intro map_update_same) simp
      also have "\<dots> = map ?h cs" by (intro map_update_same) simp
      finally show ?thesis .
    qed
    then show ?thesis by (simp add: m same_shape_def del: node.map(2))
  qed
  then have "same_shape r (pt_root t)" if "update_at path ?f (pt_root t) = Some r" for r
    using that update_at_shape by blast
  moreover have "t' = t\<lparr>pt_root := pt_root t\<rparr> \<or>
      (\<exists>r. update_at path ?f (pt_root t) = Some r \<and> t' = t\<lparr>pt_root := r\<rparr>)"
    using assms by (auto simp: set_weight_def Let_def split: option.splits)
  ultimately show ?thesis using same_shape_refl by blast
qed

section \<open>Runs of the layout\<close>

inductive pane_step :: "'w w_ops \<Rightarrow> 'w pane_tree \<Rightarrow> 'w pane_tree \<Rightarrow> bool" for W where
  step_insert: "pt_next t + 1 < 2 ^ 32 \<Longrightarrow> pane_step W t (snd (insert_pane W tgt zone t))"
| step_remove: "pane_step W t (snd (remove_pane W pane t))"
| step_focus: "pane_step W t (snd (set_focus pane t))"
| step_zoom: "pane_step W t (zoom_toggle pane t)"
| step_weight: "set_weight W path g leading lo t = Some (b, t') \<Longrightarrow> pane_step W t t'"
| step_equalize: "pane_step W t (equalize W t)"
| step_normalize: "pane_step W t (normalize W t)"

inductive_cases pane_stepE: "pane_step W t t'"

lemma pane_step_ok: "pane_step W t t' \<Longrightarrow> tree_ok t \<Longrightarrow> tree_ok t'"
proof (induction rule: pane_step.induct)
  case (step_weight path g leading lo t b t')
  then show ?case using set_weight_shape same_shape_ok by metis
next
  case (step_equalize t)
  then show ?case using same_shape_ok [OF _ equalize_shape] by (simp add: equalize_def)
next
  case (step_normalize t)
  then show ?case by (intro normalize_ok) (simp_all add: tree_ok_def wf_populated)
qed (simp_all add: insert_pane_ok remove_pane_ok set_focus_ok zoom_toggle_ok)

text \<open>
  C10. The layout is never malformed: in every state a workspace can reach from the unsplit layout, by
  any sequence of splits, closes, focus and zoom changes, divider drags and resets, splits are flat and
  have at least two children, pane ids are distinct and below the counter, the focused pane exists, and
  a zoomed pane exists and is one of several. This holds for any weight arithmetic.
\<close>

theorem reachable_layout_ok: "(pane_step W)\<^sup>*\<^sup>* new_tree t \<Longrightarrow> tree_ok t"
  by (induction rule: rtranclp_induct) (auto simp: new_tree_ok intro: pane_step_ok)

lemma reachable_layout_ok_witness:
  "tree_ok (snd (insert_pane exact_ops 0 Right new_tree))"
proof -
  have "pane_step exact_ops new_tree (snd (insert_pane exact_ops 0 Right new_tree))"
    by (rule step_insert) (simp add: new_tree_def)
  then have "(pane_step exact_ops)\<^sup>*\<^sup>* new_tree (snd (insert_pane exact_ops 0 Right new_tree))"
    by (rule r_into_rtranclp)
  then show ?thesis by (rule reachable_layout_ok)
qed

text \<open>
  Splitting a pane puts the new one right beside it in visual order, on the side of the drop zone,
  and moves nothing else: with distinct ids the new order is the old one with the fresh id inserted
  before or after the target, and the fresh id is the counter's value.
\<close>

theorem insert_pane_visual_order:
  assumes "tree_ok t" "zone_split zone = Some (axis, before)" "pt_contains t tgt"
  shows "fst (insert_pane W tgt zone t) = Some (pt_next t) \<and>
    (\<exists>xs ys. pt_panes t = xs @ tgt # ys \<and>
       pt_panes (snd (insert_pane W tgt zone t)) =
         xs @ (if before then [pt_next t, tgt] else [tgt, pt_next t]) @ ys)"
proof -
  have d: "distinct (pt_panes t)" using assms(1) by (simp add: tree_ok_def)
  obtain xs ys where p: "pt_panes t = xs @ tgt # ys"
    using assms(3) by (auto simp: pt_contains_def dest: split_list)
  have "beside tgt before (pt_next t) (pt_panes t) =
      xs @ (if before then [pt_next t, tgt] else [tgt, pt_next t]) @ ys"
    using d by (simp add: p beside_id)
  then show ?thesis
    using p insert_pane_panes [OF assms(2,3) d, of W] insert_pane_eq [OF assms(2,3), of W] by auto
qed

lemma insert_pane_visual_order_witness:
  "\<exists>xs ys. pt_panes (new_tree :: rat pane_tree) = xs @ 0 # ys \<and>
     pt_panes (snd (insert_pane exact_ops 0 Left new_tree)) = xs @ [1, 0] @ ys"
proof -
  have "pt_contains (new_tree :: rat pane_tree) 0" by (simp add: new_tree_def pane_defs)
  from insert_pane_visual_order [OF new_tree_ok _ this, of Left Horizontal True exact_ops]
  show ?thesis by (simp add: new_tree_def)
qed

lemma nth_neighbours:
  assumes "distinct ps" "ps = xs @ p # ys" "i = length xs"
  shows "0 < i \<Longrightarrow> ps ! (i - 1) = last xs" "i = 0 \<Longrightarrow> ys \<noteq> [] \<Longrightarrow> ps ! (i + 1) = hd ys"
  using assms by (auto simp: nth_append last_conv_nth hd_conv_nth)

lemma position_split:
  assumes "position p ps = Some i"
  shows "\<exists>xs ys. ps = xs @ p # ys \<and> i = length xs"
proof -
  have "i < length ps" "ps ! i = p" using position_Some [OF assms] by auto
  then have "ps = take i ps @ p # drop (Suc i) ps" "i = length (take i ps)"
    by (auto simp: id_take_nth_drop)
  then show ?thesis by blast
qed

text \<open>
  Closing a pane removes exactly that pane from the visual order, and hands its tabs and focus to the
  pane before it, or to the one after it when it was the first; the last pane cannot be closed.
\<close>

theorem remove_pane_visual_order:
  assumes ok: "tree_ok t" and p: "pt_panes t = xs @ pane # ys"
  shows "(if xs @ ys = [] then remove_pane W pane t = (None, t)
     else fst (remove_pane W pane t) = Some (if xs = [] then hd ys else last xs) \<and>
       pt_panes (snd (remove_pane W pane t)) = xs @ ys \<and>
       pt_focus (snd (remove_pane W pane t)) =
         (if pt_focus t = pane then (if xs = [] then hd ys else last xs) else pt_focus t))"
proof (cases rule: remove_pane_cases [of W pane t])
  case none
  with p show ?thesis by (auto simp: pt_contains_def)
next
  case (some pos heir t')
  have d: "distinct (pt_panes t)" and f: "pt_contains t (pt_focus t)" using ok by (simp_all add: tree_ok_def)
  from position_split [OF some(1)] obtain us vs where uv: "pt_panes t = us @ pane # vs" "pos = length us"
    by blast
  have nin: "pane \<notin> set us" "pane \<notin> set vs" using d uv(1) by simp_all
  have "us @ pane # vs = xs @ pane # ys" using uv(1) p by simp
  then have eq: "us = xs" "vs = ys" by (simp_all add: append_Cons_eq_iff [OF nin])
  have ne: "xs @ ys \<noteq> []" using some(2) p by auto
  have heir: "heir = (if xs = [] then hd ys else last xs)"
    using nth_neighbours [OF d p, of pos] ne uv(2) eq some(3) by auto
  have pt: "pt_panes t' = xs @ ys"
    using collect_remove_at(1) [of "pt_root t" W pane] d two_panes_split [of "pt_root t"] some(2)
    by (simp add: some(4) pt_panes_def p [unfolded pt_panes_def] filter_id)
  have "pt_contains t' (pt_focus t')"
  proof (cases "pt_focus t = pane")
    case True
    then have "pt_focus t' = heir" by (simp add: some(4))
    moreover have "heir \<in> set (xs @ ys)" using heir ne by (cases "xs = []") auto
    ultimately show ?thesis by (simp add: pt_contains_def pt)
  next
    case False
    then have "pt_focus t' = pt_focus t" by (simp add: some(4))
    with False f p show ?thesis by (auto simp: pt_contains_def pt)
  qed
  then have "pt_focus (normalize W t') = pt_focus t'" by (rule focus_normalize_id)
  with ne heir pt some(4,5) show ?thesis by simp
qed

lemma remove_pane_visual_order_witness:
  "remove_pane exact_ops 0 new_tree = (None, new_tree)"
proof -
  have "pt_panes (new_tree :: rat pane_tree) = [] @ 0 # []" by (simp add: new_tree_def pt_panes_def)
  from remove_pane_visual_order [OF new_tree_ok this, of exact_ops] show ?thesis by simp
qed

end
