(* ===== verification/Red_Float.thy ===== *)
theory Red_Float
  imports Red_Prelude Complex_Main
begin

text \<open>
  Rust's \<^verbatim>\<open>f32\<close> and \<^verbatim>\<open>f64\<close>: finite values are rationals, every operation is the exact one followed by
  rounding to nearest, ties to even, with gradual underflow and overflow to infinity. Only the
  operations the modelled code uses are here.
\<close>

section \<open>Rounding\<close>

datatype fp = NaN | Inf bool | Zero bool | Fin rat \<comment> \<open>the flags are sign bits\<close>

text \<open>A format: significand bits, exponent of the least quantum, exponent of the overflow threshold.\<close>

record fp_format =
  fm_prec :: int
  fm_emin :: int
  fm_emax :: int

definition F64 :: fp_format where
  "F64 = \<lparr>fm_prec = 53, fm_emin = - 1074, fm_emax = 1024\<rparr>"

definition F32 :: fp_format where
  "F32 = \<lparr>fm_prec = 24, fm_emin = - 149, fm_emax = 128\<rparr>"

definition pow2 :: "int \<Rightarrow> rat" where
  "pow2 e = 2 powi e"

fun bitlen :: "nat \<Rightarrow> nat" where
  "bitlen n = (if n = 0 then 0 else Suc (bitlen (n div 2)))"

declare bitlen.simps [simp del]

definition floor_log2 :: "rat \<Rightarrow> int" where
  "floor_log2 x =
     (let (p, q) = quotient_of x; e = int (bitlen (nat p)) - int (bitlen (nat q))
      in if pow2 e \<le> x then e else e - 1)"

definition round_even :: "rat \<Rightarrow> int" where
  "round_even x =
     (let f = \<lfloor>x\<rfloor>; d = x - of_int f
      in if d < 1 / 2 then f else if 1 / 2 < d then f + 1 else if even f then f else f + 1)"

definition fp_quantum :: "fp_format \<Rightarrow> rat \<Rightarrow> rat" where
  "fp_quantum F x = pow2 (max (floor_log2 \<bar>x\<bar> - fm_prec F + 1) (fm_emin F))"

definition fp_round :: "fp_format \<Rightarrow> rat \<Rightarrow> fp" where
  "fp_round F x =
     (if x = 0 then Zero False
      else
        let q = fp_quantum F x; v = of_int (round_even (\<bar>x\<bar> / q)) * q
        in if v = 0 then Zero (x < 0)
           else if pow2 (fm_emax F) \<le> v then Inf (x < 0)
           else Fin (if x < 0 then - v else v))"

section \<open>Operations\<close>

fun fp_sign :: "fp \<Rightarrow> bool" where
  "fp_sign NaN = False"
| "fp_sign (Inf s) = s"
| "fp_sign (Zero s) = s"
| "fp_sign (Fin x) = (x < 0)"

fun fp_is_nan :: "fp \<Rightarrow> bool" where
  "fp_is_nan NaN = True"
| "fp_is_nan x = False"

fun fp_val :: "fp \<Rightarrow> rat" where
  "fp_val (Fin x) = x"
| "fp_val x = 0"

definition fp_of_int :: "fp_format \<Rightarrow> int \<Rightarrow> fp" where
  "fp_of_int F i = fp_round F (of_int i)"

fun fp_neg :: "fp \<Rightarrow> fp" where
  "fp_neg NaN = NaN"
| "fp_neg (Inf s) = Inf (\<not> s)"
| "fp_neg (Zero s) = Zero (\<not> s)"
| "fp_neg (Fin x) = Fin (- x)"

fun fp_add :: "fp_format \<Rightarrow> fp \<Rightarrow> fp \<Rightarrow> fp" where
  "fp_add F NaN y = NaN"
| "fp_add F x NaN = NaN"
| "fp_add F (Inf s) (Inf t) = (if s = t then Inf s else NaN)"
| "fp_add F (Inf s) y = Inf s"
| "fp_add F x (Inf t) = Inf t"
| "fp_add F (Zero s) (Zero t) = Zero (s \<and> t)"
| "fp_add F x y = fp_round F (fp_val x + fp_val y)"

definition fp_sub :: "fp_format \<Rightarrow> fp \<Rightarrow> fp \<Rightarrow> fp" where
  "fp_sub F x y = fp_add F x (fp_neg y)"

definition with_sign :: "bool \<Rightarrow> fp \<Rightarrow> fp" where
  "with_sign s x = (case x of Zero _ \<Rightarrow> Zero s | _ \<Rightarrow> x)"

fun fp_mul :: "fp_format \<Rightarrow> fp \<Rightarrow> fp \<Rightarrow> fp" where
  "fp_mul F NaN y = NaN"
| "fp_mul F x NaN = NaN"
| "fp_mul F (Inf s) (Zero t) = NaN"
| "fp_mul F (Zero s) (Inf t) = NaN"
| "fp_mul F (Inf s) y = Inf (s \<noteq> fp_sign y)"
| "fp_mul F x (Inf t) = Inf (fp_sign x \<noteq> t)"
| "fp_mul F x y = with_sign (fp_sign x \<noteq> fp_sign y) (fp_round F (fp_val x * fp_val y))"

fun fp_div :: "fp_format \<Rightarrow> fp \<Rightarrow> fp \<Rightarrow> fp" where
  "fp_div F NaN y = NaN"
| "fp_div F x NaN = NaN"
| "fp_div F (Inf s) (Inf t) = NaN"
| "fp_div F (Zero s) (Zero t) = NaN"
| "fp_div F (Inf s) y = Inf (s \<noteq> fp_sign y)"
| "fp_div F x (Inf t) = Zero (fp_sign x \<noteq> t)"
| "fp_div F x (Zero t) = Inf (fp_sign x \<noteq> t)"
| "fp_div F x y = with_sign (fp_sign x \<noteq> fp_sign y) (fp_round F (fp_val x / fp_val y))"

text \<open>Comparison as in \<^verbatim>\<open>partial_cmp\<close>: the zeros are equal, a NaN compares with nothing.\<close>

fun fp_lt :: "fp \<Rightarrow> fp \<Rightarrow> bool" where
  "fp_lt NaN y = False"
| "fp_lt x NaN = False"
| "fp_lt (Inf s) (Inf t) = (s \<and> \<not> t)"
| "fp_lt (Inf s) y = s"
| "fp_lt x (Inf t) = (\<not> t)"
| "fp_lt x y = (fp_val x < fp_val y)"

fun fp_eq :: "fp \<Rightarrow> fp \<Rightarrow> bool" where
  "fp_eq NaN y = False"
| "fp_eq x NaN = False"
| "fp_eq (Inf s) (Inf t) = (s = t)"
| "fp_eq (Inf s) y = False"
| "fp_eq x (Inf t) = False"
| "fp_eq x y = (fp_val x = fp_val y)"

text \<open>\<^verbatim>\<open>clamp\<close> (which panics unless the bounds are ordered) and \<^verbatim>\<open>as i64\<close>, which truncates and saturates.\<close>

definition fp_clamp :: "fp \<Rightarrow> fp \<Rightarrow> fp \<Rightarrow> fp option" where
  "fp_clamp x lo hi =
     (if fp_lt lo hi \<or> fp_eq lo hi then
        Some (if fp_lt x lo then lo else if fp_lt hi x then hi else x)
      else None)"

fun fp_to_i64 :: "fp \<Rightarrow> int" where
  "fp_to_i64 NaN = 0"
| "fp_to_i64 (Zero s) = 0"
| "fp_to_i64 (Inf s) = (if s then - (2 ^ 63) else 2 ^ 63 - 1)"
| "fp_to_i64 (Fin x) =
     max (- (2 ^ 63)) (min (2 ^ 63 - 1) (if 0 \<le> x then \<lfloor>x\<rfloor> else \<lceil>x\<rceil>))"

section \<open>Rounding of integers\<close>

lemma pow2_pos [simp]: "0 < pow2 e"
  by (simp add: pow2_def)

lemma pow2_add: "pow2 (a + b) = pow2 a * pow2 b"
  by (simp add: pow2_def power_int_add)

lemma pow2_nat: "pow2 (int n) = 2 ^ n"
  by (simp add: pow2_def)

lemma pow2_mono: "a \<le> b \<Longrightarrow> pow2 a \<le> pow2 b"
  by (simp add: pow2_def power_int_increasing)

lemma pow2_mono_iff: "pow2 a < pow2 b \<longleftrightarrow> a < b"
proof
  show "pow2 a < pow2 b" if "a < b" using that by (simp add: pow2_def power_int_strict_increasing)
  show "a < b" if "pow2 a < pow2 b" using that pow2_mono [of b a] by linarith
qed

lemma bitlen_bounds: "0 < n \<Longrightarrow> 0 < bitlen n \<and> 2 ^ (bitlen n - 1) \<le> n \<and> n < 2 ^ bitlen n"
proof (induction n rule: bitlen.induct)
  case (1 n)
  show ?case
  proof (cases "n div 2 = 0")
    case True
    with 1 have "n = 1" by auto
    then show ?thesis by (simp add: bitlen.simps)
  next
    case False
    with 1 have ih: "0 < bitlen (n div 2)" "2 ^ (bitlen (n div 2) - 1) \<le> n div 2" "n div 2 < 2 ^ bitlen (n div 2)"
      by auto
    have b: "bitlen n = Suc (bitlen (n div 2))" using 1(2) by (simp add: bitlen.simps [of n])
    have "2 ^ bitlen (n div 2) = 2 * (2 ^ (bitlen (n div 2) - 1) :: nat)"
      using ih(1) by (cases "bitlen (n div 2)") simp_all
    moreover have "2 * (n div 2) \<le> n" "n < 2 * (n div 2) + 2" by auto
    ultimately have "2 ^ bitlen (n div 2) \<le> n" "n < 2 * 2 ^ bitlen (n div 2)" using ih by linarith+
    then show ?thesis by (simp add: b)
  qed
qed

lemma bitlen_rat:
  assumes "0 < k"
  shows "pow2 (int (bitlen (nat k)) - 1) \<le> of_int k \<and> of_int k < pow2 (int (bitlen (nat k)))"
proof -
  obtain n where k: "k = int n" and n: "0 < n" using assms by (metis pos_int_cases)
  note b = bitlen_bounds [OF n]
  have "2 ^ (bitlen n - 1) \<le> (of_nat n :: rat)" "of_nat n < (2 ^ bitlen n :: rat)"
    using b by (metis of_nat_le_iff of_nat_numeral of_nat_power, metis of_nat_less_iff of_nat_numeral of_nat_power)
  moreover have "int (bitlen n) - 1 = int (bitlen n - 1)" using b by simp
  ultimately show ?thesis using pow2_nat [of "bitlen n"] pow2_nat [of "bitlen n - 1"] by (simp only: k nat_int of_int_of_nat_eq)
qed

lemma floor_log2_bounds:
  assumes "0 < x"
  shows "pow2 (floor_log2 x) \<le> x \<and> x < pow2 (floor_log2 x + 1)"
proof -
  obtain p q where pq: "quotient_of x = (p, q)" by (cases "quotient_of x")
  have q: "0 < q" using quotient_of_denom_pos [OF pq] .
  have x: "x = of_int p / of_int q" using quotient_of_div [OF pq] .
  have p: "0 < p" using assms x q by (simp add: zero_less_divide_iff)
  define a b where "a = bitlen (nat p)" and "b = bitlen (nat q)"
  have P: "pow2 (int a - 1) \<le> of_int p" "of_int p < pow2 (int a)"
    using bitlen_rat [OF p] by (simp_all add: a_def)
  have Q: "pow2 (int b - 1) \<le> of_int q" "of_int q < pow2 (int b)"
    using bitlen_rat [OF q] by (simp_all add: b_def)
  have lo: "pow2 (int a - int b - 1) \<le> x"
  proof -
    have "pow2 (int a - int b - 1) * of_int q \<le> pow2 (int a - int b - 1) * pow2 (int b)"
      using Q(2) by (intro mult_left_mono) (auto intro: less_imp_le)
    also have "\<dots> = pow2 (int a - 1)" by (simp flip: pow2_add)
    also have "\<dots> \<le> of_int p" by (rule P)
    finally show ?thesis using q by (simp add: x pos_le_divide_eq)
  qed
  have hi: "x < pow2 (int a - int b + 1)"
  proof -
    have "of_int p < pow2 (int a)" by (rule P)
    also have "\<dots> = pow2 (int a - int b + 1) * pow2 (int b - 1)" by (simp flip: pow2_add)
    also have "\<dots> \<le> pow2 (int a - int b + 1) * of_int q" using Q(1) by (intro mult_left_mono) (auto intro: less_imp_le)
    finally show ?thesis using q by (simp add: x pos_divide_less_eq)
  qed
  show ?thesis using lo hi by (auto simp: floor_log2_def pq a_def b_def Let_def)
qed

lemma floor_log2_unique:
  assumes "pow2 e \<le> x" "x < pow2 (e + 1)"
  shows "floor_log2 x = e"
proof -
  have "0 < x" using assms(1) pow2_pos [of e] by linarith
  from floor_log2_bounds [OF this] assms
  have "pow2 (floor_log2 x) < pow2 (e + 1)" "pow2 e < pow2 (floor_log2 x + 1)" by linarith+
  then show ?thesis by (simp add: pow2_mono_iff)
qed

lemma round_even_int [simp]: "round_even (of_int i) = i"
  by (simp add: round_even_def)

lemma fp_round_Fin:
  assumes "floor_log2 \<bar>x\<bar> = e" "q = pow2 (max (e - fm_prec F + 1) (fm_emin F))"
    and "of_int (round_even (\<bar>x\<bar> / q)) * q = v" "0 < v" "v < pow2 (fm_emax F)" "x \<noteq> 0"
  shows "fp_round F x = Fin (if x < 0 then - v else v)"
proof -
  have "fp_quantum F x = q" using assms by (simp add: fp_quantum_def)
  with assms show ?thesis unfolding fp_round_def Let_def by (simp only: if_False) simp
qed

text \<open>An integer of at most 53 bits is represented exactly, so comparing it as a double is exact.\<close>

lemma fp_of_int_exact:
  assumes "\<bar>i\<bar> \<le> 2 ^ 53"
  shows "fp_of_int F64 i = (if i = 0 then Zero False else Fin (of_int i))"
proof (cases "i = 0")
  case False
  define x :: rat where "x = \<bar>of_int i\<bar>"
  define e where "e = floor_log2 x"
  have x: "0 < x" "x \<le> pow2 53" "1 \<le> x"
    using False assms by (simp_all add: x_def pow2_def flip: of_int_abs)
  then have e: "pow2 e \<le> x" "x < pow2 (e + 1)" using floor_log2_bounds by (simp_all add: e_def)
  have "pow2 0 < pow2 (e + 1)" using e(2) x(3) by (simp add: pow2_def)
  then have e0: "0 \<le> e" by (simp add: pow2_mono_iff)
  define q where "q = pow2 (e - 52)"
  have q: "q = pow2 (e - 52)" by (simp add: q_def)
  have qm: "q = pow2 (max (e - fm_prec F64 + 1) (fm_emin F64))" using e0 by (simp add: q F64_def)
  have "\<exists>n. x = of_int n * q"
  proof (cases "e \<le> 52")
    case True
    then have "x = of_int (\<bar>i\<bar> * 2 ^ nat (52 - e)) * q"
      by (simp add: x_def q pow2_def power_int_def inverse_eq_divide flip: power_mult_distrib)
    then show ?thesis ..
  next
    case False
    then have "pow2 53 \<le> pow2 e" by (intro pow2_mono) simp
    then have "x = pow2 53" "pow2 e = pow2 53" using x e by simp_all
    then have "e = 53" using pow2_mono_iff [of e 53] pow2_mono_iff [of 53 e] by linarith
    then have "x = of_int (2 ^ 52) * q" using \<open>x = pow2 53\<close> by (simp add: q pow2_def)
    then show ?thesis ..
  qed
  then obtain n where n: "x = of_int n * q" ..
  have "0 < q" by (simp add: q)
  then have v: "of_int (round_even (x / q)) * q = x" using n by simp
  have "x < pow2 (fm_emax F64)" using x(2) pow2_mono_iff [of 53 1024] by (simp add: F64_def)
  from fp_round_Fin [of "of_int i", OF _ qm _ x(1) this] v False
  have "fp_round F64 (of_int i) = Fin (if (of_int i :: rat) < 0 then - x else x)"
    by (simp add: e_def x_def [symmetric])
  then show ?thesis using False by (simp add: fp_of_int_def x_def abs_if)
qed (simp add: fp_of_int_def fp_round_def)

end
