(* ===== verification/Red_Value.thy ===== *)
theory Red_Value
  imports Red_Float
begin

text \<open>
  Cell values (\<^verbatim>\<open>Value\<close>, \<^verbatim>\<open>CappedCell\<close>), table metadata and the seek key of a result (\<^verbatim>\<open>KeySpec\<close>) of
  \<^verbatim>\<open>crates/red-core/src/lib.rs\<close>. Rust prints a double by its shortest decimal form; that function is the
  argument \<open>show_real\<close> of the definitions that print one.
\<close>

section \<open>Values\<close>

record capped_cell =
  cc_head :: string
  cc_len :: nat
  cc_blob :: bool

datatype db_value = Null | Integer int | Real fp | Text string | Blob bytes | Capped capped_cell

text \<open>The derived \<^verbatim>\<open>PartialEq\<close>: a NaN differs from itself.\<close>

fun value_eq :: "db_value \<Rightarrow> db_value \<Rightarrow> bool" where
  "value_eq (Real x) (Real y) = fp_eq x y"
| "value_eq a b = (a = b)"

fun values_eq :: "db_value list \<Rightarrow> db_value list \<Rightarrow> bool" where
  "values_eq [] [] = True"
| "values_eq (a # as) (b # bs) = (value_eq a b \<and> values_eq as bs)"
| "values_eq _ _ = False"

text \<open>\<^verbatim>\<open>capped_text\<close>: the loop walks down to a character boundary.\<close>

fun boundary_below :: "string \<Rightarrow> nat \<Rightarrow> nat" where
  "boundary_below s 0 = 0"
| "boundary_below s (Suc n) = (if is_char_boundary s (Suc n) then Suc n else boundary_below s n)"

definition capped_text :: "string \<Rightarrow> nat \<Rightarrow> db_value" where
  "capped_text s max_bytes =
     (if length s \<le> max_bytes then Text s
      else Capped \<lparr>cc_head = take (boundary_below s max_bytes) s, cc_len = length s, cc_blob = False\<rparr>)"

definition capped_blob :: "nat \<Rightarrow> db_value" where
  "capped_blob n = Capped \<lparr>cc_head = [], cc_len = n, cc_blob = True\<rparr>"

text \<open>U+2026, the ellipsis.\<close>

definition ELLIPSIS :: string where
  "ELLIPSIS = [CHR 0xE2, CHR 0x80, CHR 0xA6]"

definition bytes_summary :: "nat \<Rightarrow> string" where
  "bytes_summary n = ''<'' @ show_nat n @ '' bytes>''"

fun value_display :: "(fp \<Rightarrow> string) \<Rightarrow> db_value \<Rightarrow> string" where
  "value_display show_real Null = ''NULL''"
| "value_display show_real (Integer n) = show_int n"
| "value_display show_real (Real x) = show_real x"
| "value_display show_real (Text s) = s"
| "value_display show_real (Blob b) = bytes_summary (length b)"
| "value_display show_real (Capped c) =
     (if cc_blob c then bytes_summary (cc_len c) else cc_head c @ ELLIPSIS)"

section \<open>Table metadata and seek keys\<close>

record column_meta =
  cm_name :: string
  cm_type :: "string option"
  cm_not_null :: bool
  cm_primary_key :: bool
  cm_default :: "string option"
  cm_auto_increment :: bool

record index_meta =
  im_name :: string
  im_unique :: bool
  im_columns :: "string list"

datatype sort_direction = Asc | Desc

definition from_descending :: "bool \<Rightarrow> sort_direction" where
  "from_descending b = (if b then Desc else Asc)"

definition is_descending :: "sort_direction \<Rightarrow> bool" where
  "is_descending d \<longleftrightarrow> d = Desc"

definition direction_sql :: "sort_direction \<Rightarrow> string" where
  "direction_sql d = (if is_descending d then ''DESC'' else ''ASC'')"

definition reversed_when :: "sort_direction \<Rightarrow> bool \<Rightarrow> sort_direction" where
  "reversed_when d flip = from_descending (is_descending d \<noteq> flip)"

datatype key_kind = KeyInt | KeyOther

record key_spec =
  ks_column :: string
  ks_kind :: key_kind
  ks_column_type :: "string option"
  ks_tiebreak :: "string option"
  ks_tiebreak_type :: "string option"
  ks_direction :: sort_direction

definition key_single :: "string \<Rightarrow> key_kind \<Rightarrow> key_spec" where
  "key_single column kind =
     \<lparr>ks_column = column, ks_kind = kind, ks_column_type = None, ks_tiebreak = None,
      ks_tiebreak_type = None, ks_direction = Asc\<rparr>"

definition with_column_type :: "string option \<Rightarrow> key_spec \<Rightarrow> key_spec" where
  "with_column_type ty k = k\<lparr>ks_column_type := ty\<rparr>"

definition column_names :: "key_spec \<Rightarrow> string list" where
  "column_names k = ks_column k # (case ks_tiebreak k of None \<Rightarrow> [] | Some t \<Rightarrow> [t])"

definition column_types :: "key_spec \<Rightarrow> string option list" where
  "column_types k = ks_column_type k # (if ks_tiebreak k \<noteq> None then [ks_tiebreak_type k] else [])"

text \<open>\<^verbatim>\<open>t.split(['(', ' ']).next()\<close> of the lower-cased type.\<close>

definition base_type :: "string \<Rightarrow> string" where
  "base_type ty = takeWhile (\<lambda>c. c \<noteq> CHR ''('' \<and> c \<noteq> CHR '' '') (to_ascii_lowercase ty)"

definition INT_TYPES :: "string list" where
  "INT_TYPES = [''int'', ''integer'', ''int2'', ''int4'', ''int8'', ''tinyint'', ''smallint'', ''mediumint'',
     ''bigint'', ''serial'', ''smallserial'', ''bigserial'']"

definition is_int_type :: "string \<Rightarrow> bool" where
  "is_int_type ty \<longleftrightarrow> base_type ty \<in> set INT_TYPES"

definition REAL_TYPES :: "string list" where
  "REAL_TYPES = [''real'', ''double'', ''float'', ''float4'', ''float8'', ''numeric'', ''decimal'', ''dec'']"

definition is_real_type :: "string \<Rightarrow> bool" where
  "is_real_type ty \<longleftrightarrow> base_type ty \<in> set REAL_TYPES"

definition key_kind_of :: "column_meta \<Rightarrow> key_kind" where
  "key_kind_of c = (if (case cm_type c of None \<Rightarrow> False | Some ty \<Rightarrow> is_int_type ty) then KeyInt else KeyOther)"

record foreign_key_meta =
  fk_column :: string
  fk_ref_table :: string
  fk_ref_column :: string

record table_detail =
  td_columns :: "column_meta list"
  td_foreign_keys :: "foreign_key_meta list"
  td_indexes :: "index_meta list"

fun find_map_option :: "('a \<Rightarrow> 'b option) \<Rightarrow> 'a list \<Rightarrow> 'b option" where
  "find_map_option f [] = None"
| "find_map_option f (x # xs) = (case f x of Some y \<Rightarrow> Some y | None \<Rightarrow> find_map_option f xs)"

definition resolve_key_column :: "table_detail \<Rightarrow> column_meta option" where
  "resolve_key_column d =
     (case filter cm_primary_key (td_columns d) of
        [c] \<Rightarrow> Some c
      | [] \<Rightarrow> find_map_option
          (\<lambda>i. find (\<lambda>c. cm_name c = im_columns i ! 0 \<and> cm_not_null c) (td_columns d))
          (filter (\<lambda>i. im_unique i \<and> length (im_columns i) = 1) (td_indexes d))
      | _ \<Rightarrow> None)"

definition from_detail :: "table_detail \<Rightarrow> key_spec option" where
  "from_detail d =
     (case resolve_key_column d of
        None \<Rightarrow> None
      | Some c \<Rightarrow>
        if cm_not_null c \<or> key_kind_of c = KeyInt
        then Some (with_column_type (cm_type c) (key_single (cm_name c) (key_kind_of c)))
        else None)"

definition sorted_key :: "table_detail \<Rightarrow> string \<Rightarrow> sort_direction \<Rightarrow> key_spec option" where
  "sorted_key d sort_col direction =
     (case resolve_key_column d of
        None \<Rightarrow> None
      | Some pk \<Rightarrow>
        (case find (\<lambda>c. cm_name c = sort_col) (td_columns d) of
           None \<Rightarrow> None
         | Some lead \<Rightarrow>
           if cm_name lead = cm_name pk then
             Some \<lparr>ks_column = cm_name pk, ks_kind = key_kind_of pk, ks_column_type = cm_type pk,
               ks_tiebreak = None, ks_tiebreak_type = None, ks_direction = direction\<rparr>
           else if cm_not_null lead then
             Some \<lparr>ks_column = cm_name lead, ks_kind = key_kind_of lead, ks_column_type = cm_type lead,
               ks_tiebreak = Some (cm_name pk), ks_tiebreak_type = cm_type pk, ks_direction = direction\<rparr>
           else None))"

section \<open>Laws\<close>

lemma boundary_below_le: "boundary_below s n \<le> n"
  by (induction n) (auto simp: le_Suc_eq)

lemma boundary_below_boundary: "is_char_boundary s (boundary_below s n)"
  by (induction n) (auto simp: is_char_boundary_def)

lemma boundary_below_greatest: "boundary_below s n < m \<Longrightarrow> m \<le> n \<Longrightarrow> \<not> is_char_boundary s m"
  by (induction n) (auto simp: le_Suc_eq split: if_splits)

end
