(* ===== verification/Data_Diff.thy ===== *)
theory Data_Diff
  imports Red_Value "HOL-Library.Product_Lexorder" "HOL-Library.List_Lexorder"
begin

text \<open>
  The table compare of \<^verbatim>\<open>crates/red-core/src/diff.rs\<close>: the merge walk over two key-ordered row streams.
  The walk itself is proved correct once, in the locale \<open>merge_keys\<close>, for any key comparison that is a
  total preorder on the keys that occur; the comparison of the code is one on every key of at most 53
  bits, real, text or null.
\<close>

section \<open>The accumulator\<close>

datatype diff_kind = Added | Removed | Changed

record diff_row =
  dr_kind :: diff_kind
  dr_key :: string
  dr_left :: "db_value list"
  dr_right :: "db_value list"
  dr_changed :: "bool list"

record diff_summary =
  ds_added :: nat
  ds_removed :: nat
  ds_changed :: nat
  ds_unchanged :: nat

datatype advance = AdvLeft | AdvRight | AdvBoth | AdvDone

datatype ordering = Less | Equal | Greater

record diff_acc =
  da_key_index :: nat
  da_cap :: nat
  da_summary :: diff_summary
  da_rows :: "diff_row list"
  da_truncated :: bool

definition acc_new :: "nat \<Rightarrow> nat \<Rightarrow> diff_acc" where
  "acc_new key_index cap =
     \<lparr>da_key_index = key_index, da_cap = cap,
      da_summary = \<lparr>ds_added = 0, ds_removed = 0, ds_changed = 0, ds_unchanged = 0\<rparr>,
      da_rows = [], da_truncated = False\<rparr>"

section \<open>Keys and cells\<close>

fun key_rank :: "db_value \<Rightarrow> nat" where
  "key_rank Null = 0"
| "key_rank (Integer _) = 1"
| "key_rank (Real _) = 1"
| "key_rank (Text _) = 2"
| "key_rank (Blob _) = 3"
| "key_rank (Capped _) = 4"

definition cmp :: "'a::linorder \<Rightarrow> 'a \<Rightarrow> ordering" where
  "cmp x y = (if x < y then Less else if x = y then Equal else Greater)"

definition total_f64 :: "fp \<Rightarrow> fp \<Rightarrow> ordering" where
  "total_f64 x y =
     (if fp_lt x y then Less else if fp_eq x y then Equal else if fp_lt y x then Greater
      else if fp_is_nan x \<and> \<not> fp_is_nan y then Greater
      else if \<not> fp_is_nan x \<and> fp_is_nan y then Less
      else Equal)"

text \<open>\<^verbatim>\<open>str\<close> orders by bytes.\<close>

fun str_cmp :: "string \<Rightarrow> string \<Rightarrow> ordering" where
  "str_cmp [] [] = Equal"
| "str_cmp [] (_ # _) = Less"
| "str_cmp (_ # _) [] = Greater"
| "str_cmp (c # s) (d # t) = (case cmp (byte c) (byte d) of Equal \<Rightarrow> str_cmp s t | c \<Rightarrow> c)"

fun key_cmp :: "db_value \<Rightarrow> db_value \<Rightarrow> ordering" where
  "key_cmp (Integer x) (Integer y) = cmp x y"
| "key_cmp (Real x) (Real y) = total_f64 x y"
| "key_cmp (Integer x) (Real y) = total_f64 (fp_of_int F64 x) y"
| "key_cmp (Real x) (Integer y) = total_f64 x (fp_of_int F64 y)"
| "key_cmp (Text x) (Text y) = str_cmp x y"
| "key_cmp Null Null = Equal"
| "key_cmp a b = cmp (key_rank a) (key_rank b)"

definition get :: "'a list \<Rightarrow> nat \<Rightarrow> 'a option" where
  "get xs i = (if i < length xs then Some (xs ! i) else None)"

definition compare_keys :: "db_value list \<Rightarrow> db_value list \<Rightarrow> nat \<Rightarrow> ordering" where
  "compare_keys left right key_index =
     (case (get left key_index, get right key_index) of
        (Some a, Some b) \<Rightarrow> key_cmp a b
      | (Some _, None) \<Rightarrow> Greater
      | (None, Some _) \<Rightarrow> Less
      | (None, None) \<Rightarrow> Equal)"

fun cell_eq :: "db_value \<Rightarrow> db_value \<Rightarrow> bool" where
  "cell_eq (Real a) (Real b) = (if fp_is_nan a \<and> fp_is_nan b then True else fp_eq a b)"
| "cell_eq l r = value_eq l r"

fun render_key :: "(fp \<Rightarrow> string) \<Rightarrow> db_value \<Rightarrow> string" where
  "render_key show_real Null = ''NULL''"
| "render_key show_real (Integer i) = show_int i"
| "render_key show_real (Real r) = show_real r"
| "render_key show_real (Text s) = s"
| "render_key show_real (Blob b) = bytes_summary (length b)"
| "render_key show_real (Capped _) = ''<capped>''"

definition row_key :: "(fp \<Rightarrow> string) \<Rightarrow> nat \<Rightarrow> db_value list \<Rightarrow> string" where
  "row_key show_real key_index row =
     (case get row key_index of Some v \<Rightarrow> render_key show_real v | None \<Rightarrow> [])"

section \<open>The walk\<close>

definition store :: "diff_row \<Rightarrow> diff_acc \<Rightarrow> diff_acc" where
  "store row a =
     (if length (da_rows a) < da_cap a then a\<lparr>da_rows := da_rows a @ [row]\<rparr>
      else a\<lparr>da_truncated := True\<rparr>)"

definition acc_added :: "(fp \<Rightarrow> string) \<Rightarrow> db_value list \<Rightarrow> diff_acc \<Rightarrow> diff_acc" where
  "acc_added show_real right a =
     store \<lparr>dr_kind = Added, dr_key = row_key show_real (da_key_index a) right, dr_left = [],
            dr_right = right, dr_changed = []\<rparr>
       (a\<lparr>da_summary := (da_summary a)\<lparr>ds_added := ds_added (da_summary a) + 1\<rparr>\<rparr>)"

definition acc_removed :: "(fp \<Rightarrow> string) \<Rightarrow> db_value list \<Rightarrow> diff_acc \<Rightarrow> diff_acc" where
  "acc_removed show_real left a =
     store \<lparr>dr_kind = Removed, dr_key = row_key show_real (da_key_index a) left, dr_left = left,
            dr_right = [], dr_changed = []\<rparr>
       (a\<lparr>da_summary := (da_summary a)\<lparr>ds_removed := ds_removed (da_summary a) + 1\<rparr>\<rparr>)"

definition changed_mask :: "db_value list \<Rightarrow> db_value list \<Rightarrow> bool list" where
  "changed_mask left right = map (\<lambda>(l, r). \<not> cell_eq l r) (zip left right)"

definition acc_pair :: "(fp \<Rightarrow> string) \<Rightarrow> db_value list \<Rightarrow> db_value list \<Rightarrow> diff_acc \<Rightarrow> diff_acc" where
  "acc_pair show_real left right a =
     (let changed = changed_mask left right in
      if list_ex id changed then
        store \<lparr>dr_kind = Changed, dr_key = row_key show_real (da_key_index a) left, dr_left = left,
               dr_right = right, dr_changed = changed\<rparr>
          (a\<lparr>da_summary := (da_summary a)\<lparr>ds_changed := ds_changed (da_summary a) + 1\<rparr>\<rparr>)
      else a\<lparr>da_summary := (da_summary a)\<lparr>ds_unchanged := ds_unchanged (da_summary a) + 1\<rparr>\<rparr>)"

definition acc_step ::
  "(fp \<Rightarrow> string) \<Rightarrow> db_value list option \<Rightarrow> db_value list option \<Rightarrow> diff_acc \<Rightarrow> advance \<times> diff_acc" where
  "acc_step show_real left right a =
     (case (left, right) of
        (None, None) \<Rightarrow> (AdvDone, a)
      | (Some l, None) \<Rightarrow> (AdvLeft, acc_removed show_real l a)
      | (None, Some r) \<Rightarrow> (AdvRight, acc_added show_real r a)
      | (Some l, Some r) \<Rightarrow>
        (case compare_keys l r (da_key_index a) of
           Less \<Rightarrow> (AdvLeft, acc_removed show_real l a)
         | Greater \<Rightarrow> (AdvRight, acc_added show_real r a)
         | Equal \<Rightarrow> (AdvBoth, acc_pair show_real l r a)))"

text \<open>\<^verbatim>\<open>diff_sorted\<close>; its loop over the two positions is \<open>diff_loop\<close>.\<close>

function diff_loop ::
  "(fp \<Rightarrow> string) \<Rightarrow> db_value list list \<Rightarrow> db_value list list \<Rightarrow> nat \<Rightarrow> nat \<Rightarrow> diff_acc \<Rightarrow> diff_acc" where
  "diff_loop show_real left right i j a =
     (case acc_step show_real (get left i) (get right j) a of
        (AdvDone, a) \<Rightarrow> a
      | (AdvLeft, a) \<Rightarrow> diff_loop show_real left right (i + 1) j a
      | (AdvRight, a) \<Rightarrow> diff_loop show_real left right i (j + 1) a
      | (AdvBoth, a) \<Rightarrow> diff_loop show_real left right (i + 1) (j + 1) a)"
  by pat_completeness auto
termination
  by (relation "measure (\<lambda>(_, left, right, i, j, _). (length left - i) + (length right - j))")
    (auto simp: acc_step_def get_def split: option.splits ordering.splits if_splits)

declare diff_loop.simps [simp del]

definition diff_sorted :: "(fp \<Rightarrow> string) \<Rightarrow> db_value list list \<Rightarrow> db_value list list \<Rightarrow> nat \<Rightarrow> nat \<Rightarrow> diff_acc" where
  "diff_sorted show_real left right key_index cap =
     diff_loop show_real left right 0 0 (acc_new key_index cap)"

section \<open>The walk as a list of events\<close>

text \<open>The abstract walk: what happens to each row, for any comparison of rows.\<close>

datatype 'r event = Lost 'r | Gained 'r | Matched 'r 'r

fun merge_events :: "('r \<Rightarrow> 'r \<Rightarrow> ordering) \<Rightarrow> 'r list \<Rightarrow> 'r list \<Rightarrow> 'r event list" where
  "merge_events c [] rs = map Gained rs"
| "merge_events c (l # ls) [] = Lost l # map Lost ls"
| "merge_events c (l # ls) (r # rs) =
     (case c l r of
        Less \<Rightarrow> Lost l # merge_events c ls (r # rs)
      | Greater \<Rightarrow> Gained r # merge_events c (l # ls) rs
      | Equal \<Rightarrow> Matched l r # merge_events c ls rs)"

fun ev_adds :: "'r event list \<Rightarrow> 'r list" where
  "ev_adds [] = []"
| "ev_adds (Gained r # es) = r # ev_adds es"
| "ev_adds (_ # es) = ev_adds es"

fun ev_rems :: "'r event list \<Rightarrow> 'r list" where
  "ev_rems [] = []"
| "ev_rems (Lost l # es) = l # ev_rems es"
| "ev_rems (_ # es) = ev_rems es"

fun ev_pairs :: "'r event list \<Rightarrow> ('r \<times> 'r) list" where
  "ev_pairs [] = []"
| "ev_pairs (Matched l r # es) = (l, r) # ev_pairs es"
| "ev_pairs (_ # es) = ev_pairs es"

lemma ev_gained [simp]:
  "ev_adds (map Gained rs) = rs" "ev_rems (map Gained rs) = []" "ev_pairs (map Gained rs) = []"
  by (induction rs) simp_all

lemma ev_lost [simp]:
  "ev_adds (map Lost ls) = []" "ev_rems (map Lost ls) = ls" "ev_pairs (map Lost ls) = []"
  by (induction ls) simp_all

text \<open>Every row takes part in exactly one event, whatever the comparison is.\<close>

lemma merge_events_conserve:
  "length (ev_adds (merge_events c ls rs)) + length (ev_pairs (merge_events c ls rs)) = length rs"
  "length (ev_rems (merge_events c ls rs)) + length (ev_pairs (merge_events c ls rs)) = length ls"
  by (induction c ls rs rule: merge_events.induct) (auto split: ordering.splits)

lemma filter_product_Cons:
  "(\<And>x. x \<in> set xs \<Longrightarrow> \<not> P (x, y)) \<Longrightarrow> filter P (List.product xs (y # ys)) = filter P (List.product xs ys)"
  by (induction xs) auto

lemma product_Nil [simp]: "List.product xs [] = []"
  by (induction xs) simp_all

lemma length_merge_events: "length (merge_events c ls rs) \<le> length ls + length rs"
  by (induction c ls rs rule: merge_events.induct) (auto split: ordering.splits)

locale merge_keys =
  fixes c :: "'r \<Rightarrow> 'r \<Rightarrow> ordering" and K :: "'r set"
  assumes flip: "a \<in> K \<Longrightarrow> b \<in> K \<Longrightarrow> c a b = Less \<longleftrightarrow> c b a = Greater"
    and eq_sym: "a \<in> K \<Longrightarrow> b \<in> K \<Longrightarrow> c a b = Equal \<Longrightarrow> c b a = Equal"
    and less_trans: "a \<in> K \<Longrightarrow> b \<in> K \<Longrightarrow> d \<in> K \<Longrightarrow> c a b = Less \<Longrightarrow> c b d = Less \<Longrightarrow> c a d = Less"
    and eq_less: "a \<in> K \<Longrightarrow> b \<in> K \<Longrightarrow> d \<in> K \<Longrightarrow> c a b = Equal \<Longrightarrow> c b d = Less \<Longrightarrow> c a d = Less"
begin

text \<open>A stream as the feeding job delivers it: strictly increasing keys.\<close>

definition ascending :: "'r list \<Rightarrow> bool" where
  "ascending xs \<longleftrightarrow> set xs \<subseteq> K \<and> sorted_wrt (\<lambda>a b. c a b = Less) xs"

lemma ascending_Cons: "ascending (x # xs) \<longleftrightarrow> x \<in> K \<and> (\<forall>y \<in> set xs. c x y = Less) \<and> ascending xs"
  by (auto simp: ascending_def)

lemma ascendingD: "ascending xs \<Longrightarrow> x \<in> set xs \<Longrightarrow> x \<in> K"
  by (auto simp: ascending_def)

lemma below_head:
  assumes "ascending (r # rs)" "l \<in> K" "c l r = Less" "r' \<in> set (r # rs)"
  shows "c l r' = Less"
  using assms less_trans [of l r r'] ascendingD [of "r # rs" r'] by (auto simp: ascending_Cons)

lemma equal_head:
  assumes "ascending (r # rs)" "l \<in> K" "c l r = Equal" "r' \<in> set rs"
  shows "c l r' = Less"
  using assms eq_less [of l r r'] ascendingD [of "r # rs" r'] by (auto simp: ascending_Cons)

lemma merge_events_spec:
  assumes "ascending ls" "ascending rs"
  shows "ev_adds (merge_events c ls rs) = filter (\<lambda>r. \<forall>l \<in> set ls. c l r \<noteq> Equal) rs \<and>
    ev_rems (merge_events c ls rs) = filter (\<lambda>l. \<forall>r \<in> set rs. c l r \<noteq> Equal) ls \<and>
    ev_pairs (merge_events c ls rs) = filter (\<lambda>(l, r). c l r = Equal) (List.product ls rs)"
  using assms
proof (induction ls arbitrary: rs)
  case Nil
  then show ?case by simp
next
  case (Cons l ls)
  note ls = Cons
  show ?case
    using ls(3)
  proof (induction rs)
    case Nil
    then show ?case by simp
  next
    case (Cons r rs)
    have K: "l \<in> K" "r \<in> K" "ascending ls" "ascending rs"
      using ls(2) Cons.prems by (simp_all add: ascending_Cons)
    show ?case
    proof (cases "c l r")
      case Less
      have "c l r' \<noteq> Equal" if "r' \<in> set (r # rs)" for r'
        using below_head [OF Cons.prems K(1) Less that] by simp
      with ls(1) [OF K(3) Cons.prems] Less show ?thesis by (auto intro!: filter_cong)
    next
      case Greater
      have "c r l' = Less" if "l' \<in> set (l # ls)" for l'
        using below_head [OF ls(2) K(2) _ that] flip [OF K(2,1)] Greater by simp
      then have "c l' r \<noteq> Equal" if "l' \<in> set (l # ls)" for l'
        using flip [OF K(2) ascendingD [OF ls(2) that]] that by auto
      moreover from this have "filter (\<lambda>(l, r). c l r = Equal) (List.product (l # ls) (r # rs)) =
          filter (\<lambda>(l, r). c l r = Equal) (List.product (l # ls) rs)"
        by (intro filter_product_Cons) auto
      ultimately show ?thesis using Cons.IH [OF K(4)] Greater by (auto intro!: filter_cong simp del: List.product.simps)
    next
      case Equal
      have 1: "c l r' = Less" if "r' \<in> set rs" for r'
        using equal_head [OF Cons.prems K(1) Equal that] .
      have "c r l' = Less" if "l' \<in> set ls" for l'
        using equal_head [OF ls(2) K(2) eq_sym [OF K(1,2) Equal] that] .
      then have 2: "c l' r \<noteq> Equal" if "l' \<in> set ls" for l'
        using flip [OF K(2) ascendingD [OF K(3) that]] that by auto
      have "filter (\<lambda>(l, r). c l r = Equal) (List.product ls (r # rs)) =
          filter (\<lambda>(l, r). c l r = Equal) (List.product ls rs)"
        using 2 by (intro filter_product_Cons) auto
      moreover have "filter (\<lambda>(l, r). c l r = Equal) (map (Pair l) rs) = []"
        using 1 by (auto simp: filter_empty_conv)
      ultimately show ?thesis
        using ls(1) [OF K(3,4)] Equal 1 2 by (auto intro!: filter_cong)
    qed
  qed
qed

end

section \<open>The accumulator follows the events\<close>

text \<open>What an event stores, and what it counts.\<close>

fun event_row :: "(fp \<Rightarrow> string) \<Rightarrow> nat \<Rightarrow> db_value list event \<Rightarrow> diff_row option" where
  "event_row show_real k (Gained r) =
     Some \<lparr>dr_kind = Added, dr_key = row_key show_real k r, dr_left = [], dr_right = r, dr_changed = []\<rparr>"
| "event_row show_real k (Lost l) =
     Some \<lparr>dr_kind = Removed, dr_key = row_key show_real k l, dr_left = l, dr_right = [], dr_changed = []\<rparr>"
| "event_row show_real k (Matched l r) =
     (if list_ex id (changed_mask l r) then
        Some \<lparr>dr_kind = Changed, dr_key = row_key show_real k l, dr_left = l, dr_right = r,
          dr_changed = changed_mask l r\<rparr>
      else None)"

fun acc_event :: "(fp \<Rightarrow> string) \<Rightarrow> db_value list event \<Rightarrow> diff_acc \<Rightarrow> diff_acc" where
  "acc_event show_real (Gained r) a = acc_added show_real r a"
| "acc_event show_real (Lost l) a = acc_removed show_real l a"
| "acc_event show_real (Matched l r) a = acc_pair show_real l r a"

definition event_rows :: "(fp \<Rightarrow> string) \<Rightarrow> nat \<Rightarrow> db_value list event list \<Rightarrow> diff_row list" where
  "event_rows show_real k es = List.map_filter (event_row show_real k) es"

definition differs :: "db_value list \<times> db_value list \<Rightarrow> bool" where
  "differs p = list_ex id (changed_mask (fst p) (snd p))"

lemma da_key_index_store [simp]: "da_key_index (store row a) = da_key_index a"
  by (simp add: store_def)

lemma da_key_index_event [simp]: "da_key_index (acc_event show_real e a) = da_key_index a"
  by (cases e) (simp_all add: acc_added_def acc_removed_def acc_pair_def Let_def)

lemmas da_key_index_ops [simp] =
  da_key_index_event [of _ "Gained _", simplified] da_key_index_event [of _ "Lost _", simplified]
  da_key_index_event [of _ "Matched _ _", simplified]

lemma acc_step_event:
  "acc_step show_real (Some l) None a = (AdvLeft, acc_event show_real (Lost l) a)"
  "acc_step show_real None (Some r) a = (AdvRight, acc_event show_real (Gained r) a)"
  "acc_step show_real None None a = (AdvDone, a)"
  "acc_step show_real (Some l) (Some r) a =
     (case compare_keys l r (da_key_index a) of
        Less \<Rightarrow> (AdvLeft, acc_event show_real (Lost l) a)
      | Greater \<Rightarrow> (AdvRight, acc_event show_real (Gained r) a)
      | Equal \<Rightarrow> (AdvBoth, acc_event show_real (Matched l r) a))"
  by (simp_all add: acc_step_def split: ordering.splits)

lemma get_drop: "get xs i = (case drop i xs of [] \<Rightarrow> None | x # _ \<Rightarrow> Some x)"
  by (auto simp: get_def Cons_nth_drop_Suc [symmetric] split: list.splits)

lemma drop_Suc_tail: "drop i xs = y # ys \<Longrightarrow> drop (Suc i) xs = ys"
  by (metis drop_Suc list.sel(3) tl_drop)

lemma diff_loop_events:
  "diff_loop show_real left right i j a =
     fold (acc_event show_real)
       (merge_events (\<lambda>l r. compare_keys l r (da_key_index a)) (drop i left) (drop j right)) a"
proof (induction show_real left right i j a rule: diff_loop.induct)
  case (1 show_real left right i j a)
  show ?case
  proof (cases "drop i left"; cases "drop j right")
    fix l ls r rs assume d: "drop i left = l # ls" "drop j right = r # rs"
    show ?thesis
      using 1 by (subst diff_loop.simps)
        (auto simp: d get_drop [of left] get_drop [of right] acc_step_event drop_Suc_tail [OF d(1)]
          drop_Suc_tail [OF d(2)] split: ordering.splits)
  next
    fix l ls assume d: "drop i left = l # ls" "drop j right = []"
    show ?thesis
      using 1(1) by (subst diff_loop.simps)
        (cases ls, auto simp: d get_drop [of left] get_drop [of right] acc_step_event drop_Suc_tail [OF d(1)])
  next
    fix r rs assume d: "drop i left = []" "drop j right = r # rs"
    show ?thesis
      using 1(2) by (subst diff_loop.simps)
        (auto simp: d get_drop [of left] get_drop [of right] acc_step_event drop_Suc_tail [OF d(2)])
  next
    assume d: "drop i left = []" "drop j right = []"
    show ?thesis
      by (subst diff_loop.simps) (simp add: d get_drop [of left] get_drop [of right] acc_step_event)
  qed
qed

lemma take_take_append: "take n (take n xs @ ys) = take n (xs @ ys)"
  by (simp add: min_def)

lemma fold_events:
  assumes "length (da_rows a) \<le> da_cap a" "da_truncated a \<longrightarrow> length (da_rows a) = da_cap a"
  shows "let a' = fold (acc_event show_real) es a; rows = event_rows show_real (da_key_index a) es in
    da_rows a' = take (da_cap a) (da_rows a @ rows) \<and>
    (da_truncated a' \<longleftrightarrow> da_truncated a \<or> da_cap a < length (da_rows a @ rows)) \<and>
    ds_added (da_summary a') = ds_added (da_summary a) + length (ev_adds es) \<and>
    ds_removed (da_summary a') = ds_removed (da_summary a) + length (ev_rems es) \<and>
    ds_changed (da_summary a') = ds_changed (da_summary a) + length (filter differs (ev_pairs es)) \<and>
    ds_unchanged (da_summary a') =
      ds_unchanged (da_summary a) + length (filter (\<lambda>p. \<not> differs p) (ev_pairs es))"
  using assms
proof (induction es arbitrary: a)
  case Nil
  then show ?case by (auto simp: event_rows_def map_filter_def Let_def)
next
  case (Cons e es)
  define b where "b = acc_event show_real e a"
  have b: "da_key_index b = da_key_index a" "da_cap b = da_cap a"
    by (cases e; simp add: b_def acc_added_def acc_removed_def acc_pair_def store_def Let_def)+
  have rows: "da_rows b = take (da_cap a) (da_rows a @ event_rows show_real (da_key_index a) [e])"
    "da_truncated b \<longleftrightarrow> da_truncated a \<or> da_cap a < length (da_rows a @ event_rows show_real (da_key_index a) [e])"
    using Cons.prems
    by (cases e; auto simp: b_def acc_added_def acc_removed_def acc_pair_def store_def Let_def event_rows_def
        map_filter_def)+
  have "length (da_rows b) \<le> da_cap b" "da_truncated b \<longrightarrow> length (da_rows b) = da_cap b"
    using Cons.prems rows b by auto
  note ih = Cons.IH [OF this]
  have ev: "event_rows show_real k (e # es) = event_rows show_real k [e] @ event_rows show_real k es" for k
    by (simp add: event_rows_def map_filter_def)
  have counts:
    "ds_added (da_summary b) + length (ev_adds es) = ds_added (da_summary a) + length (ev_adds (e # es))"
    "ds_removed (da_summary b) + length (ev_rems es) = ds_removed (da_summary a) + length (ev_rems (e # es))"
    "ds_changed (da_summary b) + length (filter differs (ev_pairs es)) =
       ds_changed (da_summary a) + length (filter differs (ev_pairs (e # es)))"
    "ds_unchanged (da_summary b) + length (filter (\<lambda>p. \<not> differs p) (ev_pairs es)) =
       ds_unchanged (da_summary a) + length (filter (\<lambda>p. \<not> differs p) (ev_pairs (e # es)))"
    by (cases e; simp add: b_def acc_added_def acc_removed_def acc_pair_def store_def Let_def differs_def)+
  show ?case
    using ih Cons.prems
    by (simp only: Let_def fold_simps b_def [symmetric] b rows ev counts append_assoc take_take_append)
      auto
qed

section \<open>The key comparison of the code\<close>

text \<open>Keys on which the comparison is exact: integers within 53 bits, reals, text and null.\<close>

fun exact_key :: "db_value \<Rightarrow> bool" where
  "exact_key (Integer i) \<longleftrightarrow> \<bar>i\<bar> \<le> 2 ^ 53"
| "exact_key (Blob _) \<longleftrightarrow> False"
| "exact_key (Capped _) \<longleftrightarrow> False"
| "exact_key _ \<longleftrightarrow> True"

text \<open>The place of a key in a linear order: its shape, its number, its bytes.\<close>

fun num_pos :: "fp \<Rightarrow> nat \<times> rat" where
  "num_pos (Inf s) = (if s then 0 else 2, 0)"
| "num_pos NaN = (3, 0)"
| "num_pos x = (1, fp_val x)"

fun key_pos :: "db_value \<Rightarrow> nat \<times> (nat \<times> rat) \<times> nat list" where
  "key_pos (Integer i) = (1, (1, of_int i), [])"
| "key_pos (Real x) = (1, num_pos x, [])"
| "key_pos (Text s) = (2, (0, 0), map byte s)"
| "key_pos v = (key_rank v, (0, 0), [])"

lemma cmp_flip: "cmp a b = Less \<longleftrightarrow> cmp b a = Greater"
  by (auto simp: cmp_def)

lemma cmp_pair: "cmp (a, b) (c, d) = (case cmp a c of Equal \<Rightarrow> cmp b d | x \<Rightarrow> x)"
  by (auto simp: cmp_def)

lemma cmp_Cons: "cmp (a # as) (b # bs) = (case cmp a b of Equal \<Rightarrow> cmp as bs | x \<Rightarrow> x)"
  by (auto simp: cmp_def)

lemma str_cmp_bytes: "str_cmp s t = cmp (map byte s) (map byte t)"
  by (induction s t rule: str_cmp.induct) (simp_all add: cmp_Cons, simp_all add: cmp_def)

lemma total_f64_pos: "total_f64 x y = cmp (num_pos x) (num_pos y)"
  by (cases x; cases y) (auto simp: total_f64_def cmp_def)

lemma num_pos_int: "\<bar>i\<bar> \<le> 2 ^ 53 \<Longrightarrow> num_pos (fp_of_int F64 i) = (1, of_int i)"
  by (simp add: fp_of_int_exact)

lemma key_cmp_pos: "exact_key a \<Longrightarrow> exact_key b \<Longrightarrow> key_cmp a b = cmp (key_pos a) (key_pos b)"
  by (cases a; cases b)
    (simp_all add: cmp_pair num_pos_int total_f64_pos str_cmp_bytes, simp_all add: cmp_def)

definition exact_rows :: "nat \<Rightarrow> db_value list set" where
  "exact_rows k = {row. k < length row \<and> exact_key (row ! k)}"

lemma compare_keys_pos:
  "a \<in> exact_rows k \<Longrightarrow> b \<in> exact_rows k \<Longrightarrow> compare_keys a b k = cmp (key_pos (a ! k)) (key_pos (b ! k))"
  by (simp add: compare_keys_def exact_rows_def get_def key_cmp_pos)

interpretation keyed: merge_keys "\<lambda>l r. compare_keys l r k" "exact_rows k" for k
  by unfold_locales (auto simp: compare_keys_pos cmp_def split: if_splits)

text \<open>
  C12. A compare accounts for every row, whatever the rows and the order they arrive in: each left row is
  removed, changed or unchanged and each right row is added, changed or unchanged, exactly once; the
  stored rows are at most the cap, and the flag is set exactly when a difference was dropped.
\<close>

theorem diff_accounts_for_every_row:
  fixes show_real :: "fp \<Rightarrow> string" and left right :: "db_value list list" and k cap :: nat
  defines "a \<equiv> diff_sorted show_real left right k cap"
  shows "ds_removed (da_summary a) + ds_changed (da_summary a) + ds_unchanged (da_summary a) = length left \<and>
    ds_added (da_summary a) + ds_changed (da_summary a) + ds_unchanged (da_summary a) = length right \<and>
    length (da_rows a) = min cap (ds_added (da_summary a) + ds_removed (da_summary a) + ds_changed (da_summary a)) \<and>
    (da_truncated a \<longleftrightarrow> cap < ds_added (da_summary a) + ds_removed (da_summary a) + ds_changed (da_summary a))"
proof -
  define es where "es = merge_events (\<lambda>l r. compare_keys l r k) left right"
  have a: "a = fold (acc_event show_real) es (acc_new k cap)"
    by (simp add: a_def diff_sorted_def diff_loop_events es_def acc_new_def)
  have rows: "length (event_rows show_real k es) =
      length (ev_adds es) + length (ev_rems es) + length (filter differs (ev_pairs es))" for es
    by (induction es rule: ev_adds.induct) (auto simp: event_rows_def map_filter_def differs_def)
  have "length (ev_pairs es) = length (filter differs (ev_pairs es)) + length (filter (\<lambda>p. \<not> differs p) (ev_pairs es))"
    by (simp add: sum_length_filter_compl)
  with fold_events [of "acc_new k cap" show_real es] merge_events_conserve [of "\<lambda>l r. compare_keys l r k" left right]
  show ?thesis by (auto simp: a rows Let_def acc_new_def es_def [symmetric])
qed



text \<open>
  Binary keys all compare equal, although the comparison is described as a total order: a row removed and
  a row added under different binary keys are reported as one changed row.
\<close>

lemma blob_keys_are_paired:
  "da_rows (diff_sorted show_real [[Blob [a]]] [[Blob [b]]] 0 9) =
     (if a = b then []
      else [\<lparr>dr_kind = Changed, dr_key = bytes_summary 1, dr_left = [Blob [a]], dr_right = [Blob [b]],
             dr_changed = [True]\<rparr>])"
  by (simp add: diff_sorted_def diff_loop_events compare_keys_def get_def cmp_def acc_pair_def changed_mask_def
      store_def acc_new_def row_key_def)

end
