(* ===== verification/Grid_Window.thy ===== *)
theory Grid_Window
  imports Red_Float
begin

text \<open>
  Virtual-scroll window arithmetic (\<^verbatim>\<open>crates/red/src/gridwindow.rs\<close>): a list lays out at most \<^verbatim>\<open>WINDOW\<close> rows of
  a result, and the window slides over it. Row counts are natural numbers; \<^verbatim>\<open>saturating_sub\<close> is their
  subtraction. The scrollbar is computed in \<^verbatim>\<open>f32\<close>.
\<close>

definition WINDOW :: nat where
  "WINDOW = 100000"

definition REANCHOR_MARGIN :: nat where
  "REANCHOR_MARGIN = 5000"

definition window_decision :: "nat \<Rightarrow> nat \<Rightarrow> nat \<Rightarrow> nat \<Rightarrow> nat \<times> nat option" where
  "window_decision total_rows base local_first viewport_rows =
     (if total_rows \<le> WINDOW then (0, None)
      else
        let max_base = total_rows - WINDOW;
            base = min base max_base;
            abs_first = base + local_first;
            near_top = (0 < base \<and> local_first < REANCHOR_MARGIN);
            near_bottom = (base < max_base \<and> WINDOW < local_first + viewport_rows + REANCHOR_MARGIN);
            desired = min (abs_first - WINDOW div 2) max_base
        in if (near_top \<or> near_bottom) \<and> desired \<noteq> base then (desired, Some (abs_first - desired))
           else (base, None))"

definition usize_f32 :: "nat \<Rightarrow> fp" where
  "usize_f32 n = fp_of_int F32 (int n)"

text \<open>\<^verbatim>\<open>scrollbar_metrics\<close>; both \<^verbatim>\<open>clamp\<close>s have ordered bounds, so neither panics.\<close>

definition unit_clamp :: "fp \<Rightarrow> fp" where
  "unit_clamp x = (case fp_clamp x (Zero False) (Fin 1) of Some y \<Rightarrow> y | None \<Rightarrow> NaN)"

definition scrollbar_metrics :: "nat \<Rightarrow> nat \<Rightarrow> nat \<Rightarrow> fp \<times> fp" where
  "scrollbar_metrics total_rows abs_first viewport_rows =
     (let denom = usize_f32 (max (total_rows - viewport_rows) 1);
          fraction = unit_clamp (fp_div F32 (usize_f32 abs_first) denom);
          thumb = (if 0 < total_rows then unit_clamp (fp_div F32 (usize_f32 viewport_rows) (usize_f32 total_rows))
                   else Fin 1)
      in (fraction, thumb))"

definition centered_base :: "nat \<Rightarrow> nat \<Rightarrow> nat" where
  "centered_base total_rows target =
     (if WINDOW < total_rows then min (target - WINDOW div 2) (total_rows - WINDOW) else 0)"

section \<open>Laws\<close>

text \<open>
  C14. Sliding the window never moves what the user sees and never leaves the result: for a viewport inside
  the window, the new base is within bounds, the row at the top of the viewport keeps its absolute
  ordinal, the viewport lies inside the window again, and deciding again there changes nothing, so the
  window does not oscillate.
\<close>

theorem window_decision_keeps_viewport:
  assumes "base \<le> total_rows - WINDOW" "base + local_first + viewport_rows \<le> total_rows"
    and "local_first + viewport_rows \<le> WINDOW" "viewport_rows \<le> WINDOW div 4"
    and "window_decision total_rows base local_first viewport_rows = (base', shift)"
  defines "local' \<equiv> (case shift of Some l \<Rightarrow> l | None \<Rightarrow> local_first)"
  shows "base' \<le> total_rows - WINDOW \<and> base' + local' = base + local_first \<and> local' + viewport_rows \<le> WINDOW \<and>
    window_decision total_rows base' local' viewport_rows = (base', None)"
proof (cases "total_rows \<le> WINDOW")
  case True
  with assms show ?thesis by (simp add: window_decision_def)
next
  case big: False
  define top where "top = base + local_first"
  define want where "want = min (top - WINDOW div 2) (total_rows - WINDOW)"
  have base: "min base (total_rows - WINDOW) = base" using assms(1) by simp
  show ?thesis
  proof (cases shift)
    case None
    then have "base' = base"
      using assms(5) big by (auto simp: window_decision_def Let_def base split: if_splits)
    with None assms show ?thesis by simp
  next
    case (Some l)
    then have eq: "base' = want" "l = top - want"
      using assms(5) big by (auto simp: window_decision_def Let_def base top_def want_def split: if_splits)
    have le: "want \<le> top" "want \<le> total_rows - WINDOW" by (simp_all add: want_def)
    have fits: "l + viewport_rows \<le> WINDOW"
      using big assms(2,4) by (simp add: eq want_def top_def WINDOW_def min_def) linarith
    have "\<not> (0 < want \<and> l < REANCHOR_MARGIN)"
      using big by (simp add: eq want_def WINDOW_def REANCHOR_MARGIN_def min_def) linarith
    moreover have "\<not> (want < total_rows - WINDOW \<and> WINDOW < l + viewport_rows + REANCHOR_MARGIN)"
      using assms(4) by (simp add: eq want_def WINDOW_def REANCHOR_MARGIN_def min_def) linarith
    moreover have "min want (total_rows - WINDOW) = want" using le(2) by simp
    ultimately have "window_decision total_rows want l viewport_rows = (want, None)"
      using big by (simp add: window_decision_def Let_def)
    with le fits show ?thesis by (simp add: local'_def Some eq top_def)
  qed
qed

lemma window_decision_keeps_viewport_witness:
  "window_decision 1000000 400000 99000 40 = (449000, Some 50000) \<and> 449000 + 50000 = (400000 + 99000 :: nat)"
proof -
  have e: "window_decision 1000000 400000 99000 40 = (449000, Some 50000)"
    by (simp add: window_decision_def WINDOW_def REANCHOR_MARGIN_def)
  from window_decision_keeps_viewport [of 400000 1000000 99000 40 449000 "Some 50000"] e
  show ?thesis by (simp add: WINDOW_def)
qed

lemma centered_base_contains:
  assumes "target < total_rows"
  shows "centered_base total_rows target \<le> target \<and> target < centered_base total_rows target + WINDOW"
  using assms by (auto simp: centered_base_def WINDOW_def)

end
