(* ===== verification/Grid_Buffer.thy ===== *)
theory Grid_Buffer
  imports Red_Value "HOL-Library.AList"
begin

text \<open>
  The windowed row buffer behind the result grid (\<^verbatim>\<open>crates/red/src/result/buffer.rs\<close>): the render-ready
  cells, the two paging modes (sparse offset pages and one contiguous keyset run) and the eviction
  around the viewport. A sent command is an element of the returned list; a hash map is an association
  list. Two things of the language are arguments: \<open>show_real\<close>, the decimal form of a double, and \<open>lower\<close>,
  the Unicode lower-casing of one character.
\<close>

section \<open>Display cells\<close>

definition DEFAULT_PAGE :: nat where "DEFAULT_PAGE = 200"
definition MARGIN_PAGES :: nat where "MARGIN_PAGES = 2"
definition FLING_PAGES :: nat where "FLING_PAGES = 3"
definition JUMP_PAGES :: nat where "JUMP_PAGES = 2"

datatype cell_kind = KNull | KNum | KText | KUuid | KJson | KBlob

record display_cell =
  dc_text :: string
  dc_kind :: cell_kind

text \<open>\<^verbatim>\<open>char::is_control\<close> on one UTF-8 encoded character: the C0 and C1 controls and DEL.\<close>

fun is_control :: "string \<Rightarrow> bool" where
  "is_control [c] \<longleftrightarrow> byte c < 32 \<or> byte c = 127"
| "is_control [c, d] \<longleftrightarrow> byte c = 194 \<and> 128 \<le> byte d \<and> byte d < 160"
| "is_control _ \<longleftrightarrow> False"

definition one_line :: "string \<Rightarrow> string" where
  "one_line s =
     (if list_ex is_control (utf8_chars s)
      then concat (map (\<lambda>c. if is_control c then '' '' else c) (utf8_chars s))
      else s)"

definition contains_ci :: "(string \<Rightarrow> string list) \<Rightarrow> string \<Rightarrow> string \<Rightarrow> bool" where
  "contains_ci lower haystack needle \<longleftrightarrow>
     needle = [] \<or>
     list_ex (\<lambda>i. prefix (utf8_chars needle) (concat (map lower (drop i (utf8_chars haystack)))))
       [0..<length (utf8_chars haystack)]"

definition is_uuid :: "string \<Rightarrow> bool" where
  "is_uuid s \<longleftrightarrow>
     length s = 36 \<and>
     list_all (\<lambda>(i, b). if i \<in> {8, 13, 18, 23} then b = CHR ''-'' else is_ascii_hexdigit b) (enumerate 0 s)"

definition json_ish :: "string \<Rightarrow> bool" where
  "json_ish s \<longleftrightarrow> prefix ''{'' (trim_start s) \<or> prefix ''['' (trim_start s)"

fun from_value :: "(fp \<Rightarrow> string) \<Rightarrow> db_value \<Rightarrow> display_cell" where
  "from_value show_real Null = \<lparr>dc_text = ''NULL'', dc_kind = KNull\<rparr>"
| "from_value show_real (Integer n) = \<lparr>dc_text = show_int n, dc_kind = KNum\<rparr>"
| "from_value show_real (Real x) = \<lparr>dc_text = show_real x, dc_kind = KNum\<rparr>"
| "from_value show_real (Text s) =
     \<lparr>dc_text = (if list_ex is_control (utf8_chars s) then one_line s else s),
      dc_kind = (if is_uuid s then KUuid else if json_ish s then KJson else KText)\<rparr>"
| "from_value show_real (Blob b) = \<lparr>dc_text = bytes_summary (length b), dc_kind = KBlob\<rparr>"
| "from_value show_real (Capped c) =
     (if cc_blob c then \<lparr>dc_text = bytes_summary (cc_len c), dc_kind = KBlob\<rparr>
      else \<lparr>dc_text = one_line (cc_head c) @ ELLIPSIS,
            dc_kind = (if json_ish (cc_head c) then KJson else KText)\<rparr>)"

section \<open>Rows\<close>

record row =
  rw_values :: "db_value list"
  rw_display :: "display_cell list"
  rw_truncated :: "nat list"

fun is_capped_text :: "db_value \<Rightarrow> bool" where
  "is_capped_text (Capped c) \<longleftrightarrow> \<not> cc_blob c"
| "is_capped_text _ \<longleftrightarrow> False"

definition row_new :: "(fp \<Rightarrow> string) \<Rightarrow> db_value list \<Rightarrow> row" where
  "row_new show_real vals =
     \<lparr>rw_values = vals, rw_display = map (from_value show_real) vals,
      rw_truncated = map fst (filter (\<lambda>(i, v). is_capped_text v) (enumerate 0 vals))\<rparr>"

definition key_tuple :: "nat list \<Rightarrow> row \<Rightarrow> db_value list" where
  "key_tuple cols r = map (\<lambda>c. if c < length (rw_values r) then rw_values r ! c else Null) cols"

definition is_truncated :: "row \<Rightarrow> nat \<Rightarrow> bool" where
  "is_truncated r col \<longleftrightarrow> col \<in> set (rw_truncated r)"

section \<open>State and messages\<close>

datatype run_fetch = Forward "db_value list option" | Backward "db_value list" | Jump nat bool

datatype command =
    FetchRun nat run_fetch nat nat \<comment> \<open>epoch, fetch, limit, seq\<close>
  | FetchPage nat nat nat \<comment> \<open>offset, limit, epoch\<close>

record offset_pages =
  op_rows :: "(nat \<times> row) list"
  op_requested :: "nat set"
  op_page :: nat

definition offset_new :: "nat \<Rightarrow> offset_pages" where
  "offset_new page = \<lparr>op_rows = [], op_requested = {}, op_page = max page 1\<rparr>"

record keyed_run =
  kr_key_cols :: "nat list"
  kr_page :: nat
  kr_anchor :: nat
  kr_rows :: "row list"
  kr_estimated :: bool
  kr_at_start :: bool
  kr_at_end :: bool
  kr_seq :: nat
  kr_pending :: "nat option"
  kr_halted :: bool

definition run_new :: "nat list \<Rightarrow> nat \<Rightarrow> keyed_run" where
  "run_new key_cols page =
     \<lparr>kr_key_cols = key_cols, kr_page = page, kr_anchor = 0, kr_rows = [], kr_estimated = False,
      kr_at_start = False, kr_at_end = False, kr_seq = 0, kr_pending = None, kr_halted = False\<rparr>"

datatype buffer_mode = Offset offset_pages | Keyed keyed_run

record grid_buffer =
  gb_mode :: buffer_mode
  gb_page :: nat
  gb_last_start :: "nat option"

definition buffer_new :: "nat \<Rightarrow> grid_buffer" where
  "buffer_new page =
     (let page = max page 1 in \<lparr>gb_mode = Offset (offset_new page), gb_page = page, gb_last_start = None\<rparr>)"

section \<open>The keyset run\<close>

definition first_key :: "keyed_run \<Rightarrow> db_value list option" where
  "first_key r = (case kr_rows r of [] \<Rightarrow> None | x # _ \<Rightarrow> Some (key_tuple (kr_key_cols r) x))"

definition last_key :: "keyed_run \<Rightarrow> db_value list option" where
  "last_key r = (if kr_rows r = [] then None else Some (key_tuple (kr_key_cols r) (last (kr_rows r))))"

text \<open>\<^verbatim>\<open>==\<close> on \<^verbatim>\<open>Option<Vec<Value>>\<close>.\<close>

fun key_eq :: "db_value list option \<Rightarrow> db_value list option \<Rightarrow> bool" where
  "key_eq None None = True"
| "key_eq (Some a) (Some b) = values_eq a b"
| "key_eq _ _ = False"

text \<open>\<^verbatim>\<open>evict\<close>, its two loops.\<close>

function evict_front :: "nat \<Rightarrow> keyed_run \<Rightarrow> keyed_run" where
  "evict_front lo r =
     (if kr_anchor r < lo \<and> kr_rows r \<noteq> []
      then evict_front lo (r\<lparr>kr_rows := tl (kr_rows r), kr_anchor := kr_anchor r + 1, kr_at_start := False\<rparr>)
      else r)"
  by pat_completeness auto
termination
  by (relation "measure (\<lambda>(_, r). length (kr_rows r))") auto

function evict_back :: "nat \<Rightarrow> keyed_run \<Rightarrow> keyed_run" where
  "evict_back hi r =
     (if hi < kr_anchor r + length (kr_rows r) \<and> kr_rows r \<noteq> []
      then evict_back hi (r\<lparr>kr_rows := butlast (kr_rows r), kr_at_end := False\<rparr>)
      else r)"
  by pat_completeness auto
termination
  by (relation "measure (\<lambda>(_, r). length (kr_rows r))") auto

declare evict_front.simps [simp del] evict_back.simps [simp del]

definition evict :: "nat \<Rightarrow> nat \<Rightarrow> keyed_run \<Rightarrow> keyed_run" where
  "evict lo hi r = evict_back hi (evict_front lo r)"

definition issue :: "run_fetch \<Rightarrow> nat \<Rightarrow> keyed_run \<Rightarrow> keyed_run \<times> command list" where
  "issue fetch epoch r =
     (let r = r\<lparr>kr_seq := kr_seq r + 1\<rparr>; r = r\<lparr>kr_pending := Some (kr_seq r)\<rparr>
      in (r, [FetchRun epoch fetch (kr_page r) (kr_seq r)]))"

definition jump_exact :: "nat \<Rightarrow> nat \<Rightarrow> keyed_run \<Rightarrow> keyed_run \<times> command list" where
  "jump_exact ordinal epoch r =
     issue (Jump ordinal True) epoch
       (r\<lparr>kr_rows := [], kr_at_start := False, kr_at_end := False, kr_estimated := False, kr_halted := False\<rparr>)"

definition run_request :: "nat \<times> nat \<Rightarrow> nat \<Rightarrow> nat \<Rightarrow> keyed_run \<Rightarrow> keyed_run \<times> command list" where
  "run_request rng total_rows epoch r =
     (if kr_pending r \<noteq> None \<or> kr_halted r then (r, [])
      else
        let margin = MARGIN_PAGES * kr_page r;
            lo = fst rng - margin;
            hi = min (snd rng + margin) total_rows in
        if kr_rows r = [] then
          if fst rng = 0 then issue (Forward None) epoch r
          else if \<not> kr_at_end r then issue (Jump (fst rng) False) epoch r
          else (r, [])
        else
          let run_start = kr_anchor r;
              run_end = kr_anchor r + length (kr_rows r);
              jump_gap = JUMP_PAGES * kr_page r in
          if run_end + jump_gap \<le> fst rng \<or> snd rng + jump_gap \<le> run_start
          then issue (Jump (fst rng) False) epoch r
          else
            let need_fwd = (run_end < hi \<and> \<not> kr_at_end r);
                need_back = (lo < run_start \<and> \<not> kr_at_start r);
                fetch =
                  (if fst rng < run_start \<and> need_back then map_option Backward (first_key r)
                   else if need_fwd then map_option (\<lambda>after. Forward (Some after)) (last_key r)
                   else if need_back then map_option Backward (first_key r)
                   else None)
            in (case fetch of Some f \<Rightarrow> issue f epoch r | None \<Rightarrow> (r, [])))"

definition run_apply ::
  "(fp \<Rightarrow> string) \<Rightarrow> run_fetch \<Rightarrow> db_value list list \<Rightarrow> bool \<Rightarrow> nat \<Rightarrow> nat \<Rightarrow> keyed_run \<Rightarrow> keyed_run" where
  "run_apply show_real fetch rows estimated seq total_rows r =
     (if kr_pending r \<noteq> Some seq then r
      else
        let r = r\<lparr>kr_pending := None\<rparr>;
            n = length rows;
            short = (n < kr_page r);
            new = map (row_new show_real) rows in
        case fetch of
          Forward after \<Rightarrow>
            if \<not> key_eq after (last_key r) then r
            else
              let r = (if kr_rows r = [] then r\<lparr>kr_anchor := 0, kr_at_start := True, kr_estimated := False\<rparr> else r);
                  r = r\<lparr>kr_rows := kr_rows r @ new\<rparr>;
                  r = r\<lparr>kr_at_end := short\<rparr>
              in if short then r\<lparr>kr_anchor := total_rows - length (kr_rows r), kr_estimated := False\<rparr> else r
        | Backward before \<Rightarrow>
            if kr_rows r = [] \<or> \<not> key_eq (Some before) (first_key r) then r
            else
              let r = r\<lparr>kr_rows := fold (#) new (kr_rows r)\<rparr>;
                  r = r\<lparr>kr_anchor := kr_anchor r - n\<rparr>
              in if short \<or> kr_anchor r = 0
                 then r\<lparr>kr_at_start := True, kr_anchor := 0, kr_estimated := False\<rparr> else r
        | Jump ordinal _ \<Rightarrow>
            let r = r\<lparr>kr_rows := new, kr_at_end := short, kr_estimated := estimated\<rparr>;
                r = (if short then r\<lparr>kr_estimated := False, kr_anchor := total_rows - length (kr_rows r)\<rparr>
                     else r\<lparr>kr_anchor := min ordinal (total_rows - length (kr_rows r))\<rparr>)
            in r\<lparr>kr_at_start := (kr_anchor r = 0)\<rparr>)"

section \<open>Offset pages\<close>

definition page_resident :: "nat \<Rightarrow> nat \<Rightarrow> offset_pages \<Rightarrow> bool" where
  "page_resident offset end p \<longleftrightarrow> list_all (\<lambda>i. map_of (op_rows p) i \<noteq> None) [offset..<end]"

definition request_page ::
  "nat \<Rightarrow> nat \<Rightarrow> nat \<Rightarrow> offset_pages \<times> command list \<Rightarrow> offset_pages \<times> command list" where
  "request_page total_rows epoch page st =
     (let (p, sent) = st; size = op_page p; offset = page * size in
      if total_rows \<le> offset \<or> page \<in> op_requested p then (p, sent)
      else
        let end = min (offset + size) total_rows in
        if page_resident offset end p then (p, sent)
        else (p\<lparr>op_requested := Set.insert page (op_requested p)\<rparr>, sent @ [FetchPage offset size epoch]))"

definition pages_request :: "nat \<times> nat \<Rightarrow> nat \<Rightarrow> nat \<Rightarrow> offset_pages \<Rightarrow> offset_pages \<times> command list" where
  "pages_request rng total_rows epoch p =
     fold (request_page total_rows epoch)
       [fst rng div op_page p..<Suc ((snd rng - 1) div op_page p)] (p, [])"

section \<open>The buffer\<close>

definition keyed_row :: "keyed_run \<Rightarrow> nat \<Rightarrow> row option" where
  "keyed_row r ix =
     (if kr_anchor r \<le> ix \<and> ix - kr_anchor r < length (kr_rows r) then Some (kr_rows r ! (ix - kr_anchor r)) else None)"

definition buffer_row :: "grid_buffer \<Rightarrow> nat \<Rightarrow> row option" where
  "buffer_row b ix =
     (case gb_mode b of Offset p \<Rightarrow> map_of (op_rows p) ix | Keyed r \<Rightarrow> keyed_row r ix)"

definition patch_row :: "(fp \<Rightarrow> string) \<Rightarrow> nat \<Rightarrow> db_value \<Rightarrow> row \<Rightarrow> row" where
  "patch_row show_real col v r =
     (if length (rw_values r) \<le> col then r
      else
        r\<lparr>rw_display := (rw_display r)[col := from_value show_real v],
          rw_truncated := filter (\<lambda>c. c \<noteq> col) (rw_truncated r) @ (if is_capped_text v then [col] else []),
          rw_values := (rw_values r)[col := v]\<rparr>)"

definition patch_cell :: "(fp \<Rightarrow> string) \<Rightarrow> nat \<Rightarrow> nat \<Rightarrow> db_value \<Rightarrow> grid_buffer \<Rightarrow> grid_buffer" where
  "patch_cell show_real ix col v b =
     (case buffer_row b ix of
        None \<Rightarrow> b
      | Some r \<Rightarrow>
        (case gb_mode b of
           Offset p \<Rightarrow> b\<lparr>gb_mode := Offset (p\<lparr>op_rows := AList.update ix (patch_row show_real col v r) (op_rows p)\<rparr>)\<rparr>
         | Keyed k \<Rightarrow>
             b\<lparr>gb_mode := Keyed (k\<lparr>kr_rows := (kr_rows k)[ix - kr_anchor k := patch_row show_real col v r]\<rparr>)\<rparr>))"

text \<open>\<^verbatim>\<open>for_each_resident\<close> and \<^verbatim>\<open>find_matches\<close> walk these pairs; the offset mode sorts the ordinals.\<close>

definition resident :: "grid_buffer \<Rightarrow> (nat \<times> row) list" where
  "resident b =
     (case gb_mode b of
        Offset p \<Rightarrow> map (\<lambda>k. (k, the (map_of (op_rows p) k))) (sort (map fst (op_rows p)))
      | Keyed r \<Rightarrow> enumerate (kr_anchor r) (kr_rows r))"

definition row_matches :: "(string \<Rightarrow> string list) \<Rightarrow> string \<Rightarrow> nat \<times> row \<Rightarrow> (nat \<times> nat) list" where
  "row_matches lower term_lc e =
     map (\<lambda>(c, _). (fst e, c)) (filter (\<lambda>(c, cell). contains_ci lower (dc_text cell) term_lc)
       (enumerate 0 (rw_display (snd e))))"

definition find_matches :: "(string \<Rightarrow> string list) \<Rightarrow> string \<Rightarrow> grid_buffer \<Rightarrow> (nat \<times> nat) list" where
  "find_matches lower term_lc b = concat (map (row_matches lower term_lc) (resident b))"

definition widest_cell :: "nat \<Rightarrow> grid_buffer \<Rightarrow> nat" where
  "widest_cell col b =
     fold (\<lambda>(_, r) w. if col < length (rw_display r) then max w (length (utf8_chars (dc_text (rw_display r ! col)))) else w)
       (resident b) 0"

definition is_estimated :: "grid_buffer \<Rightarrow> bool" where
  "is_estimated b = (case gb_mode b of Offset _ \<Rightarrow> False | Keyed r \<Rightarrow> kr_estimated r)"

definition is_keyed :: "grid_buffer \<Rightarrow> bool" where
  "is_keyed b = (case gb_mode b of Offset _ \<Rightarrow> False | Keyed _ \<Rightarrow> True)"

definition resident_rows :: "grid_buffer \<Rightarrow> nat" where
  "resident_rows b = (case gb_mode b of Offset p \<Rightarrow> length (op_rows p) | Keyed r \<Rightarrow> length (kr_rows r))"

definition mode_label :: "grid_buffer \<Rightarrow> string" where
  "mode_label b = (case gb_mode b of Offset _ \<Rightarrow> ''offset'' | Keyed _ \<Rightarrow> ''keyed'')"

definition in_flight :: "grid_buffer \<Rightarrow> nat" where
  "in_flight b =
     (case gb_mode b of Offset p \<Rightarrow> card (op_requested p) | Keyed r \<Rightarrow> if kr_pending r \<noteq> None then 1 else 0)"

definition run_failed :: "nat \<Rightarrow> grid_buffer \<Rightarrow> grid_buffer" where
  "run_failed seq b =
     (case gb_mode b of
        Keyed r \<Rightarrow>
          if kr_pending r = Some seq then b\<lparr>gb_mode := Keyed (r\<lparr>kr_pending := None, kr_halted := True\<rparr>)\<rparr> else b
      | Offset _ \<Rightarrow> b)"

definition insert_page :: "(fp \<Rightarrow> string) \<Rightarrow> nat \<Rightarrow> db_value list list \<Rightarrow> grid_buffer \<Rightarrow> grid_buffer" where
  "insert_page show_real offset rows b =
     (case gb_mode b of
        Offset p \<Rightarrow>
          b\<lparr>gb_mode := Offset (p\<lparr>op_requested := op_requested p - {offset div op_page p},
            op_rows := fold (\<lambda>(i, vals). AList.update (offset + i) (row_new show_real vals)) (enumerate 0 rows)
              (op_rows p)\<rparr>)\<rparr>
      | Keyed _ \<Rightarrow> b)"

definition apply_run ::
  "(fp \<Rightarrow> string) \<Rightarrow> run_fetch \<Rightarrow> db_value list list \<Rightarrow> bool \<Rightarrow> nat \<Rightarrow> nat \<Rightarrow> grid_buffer \<Rightarrow> grid_buffer" where
  "apply_run show_real fetch rows estimated seq total_rows b =
     (case gb_mode b of
        Keyed r \<Rightarrow> b\<lparr>gb_mode := Keyed (run_apply show_real fetch rows estimated seq total_rows r)\<rparr>
      | Offset _ \<Rightarrow> b)"

definition pages_evict :: "nat \<Rightarrow> nat \<Rightarrow> offset_pages \<Rightarrow> offset_pages" where
  "pages_evict lo hi p =
     p\<lparr>op_rows := filter (\<lambda>(k, _). lo \<le> k \<and> k < hi) (op_rows p),
       op_requested := Set.filter (\<lambda>q. lo < q * op_page p + op_page p \<and> q * op_page p < hi) (op_requested p)\<rparr>"

definition mode_evict :: "nat \<Rightarrow> nat \<Rightarrow> buffer_mode \<Rightarrow> buffer_mode" where
  "mode_evict lo hi m = (case m of Offset p \<Rightarrow> Offset (pages_evict lo hi p) | Keyed r \<Rightarrow> Keyed (evict lo hi r))"

definition mode_unhalt :: "nat option \<Rightarrow> nat \<Rightarrow> buffer_mode \<Rightarrow> buffer_mode" where
  "mode_unhalt prev start m =
     (case m of
        Keyed r \<Rightarrow> if kr_halted r \<and> prev \<noteq> Some start then Keyed (r\<lparr>kr_halted := False\<rparr>) else m
      | Offset _ \<Rightarrow> m)"

definition mode_request :: "nat \<times> nat \<Rightarrow> nat \<Rightarrow> nat \<Rightarrow> buffer_mode \<Rightarrow> buffer_mode \<times> command list" where
  "mode_request rng total_rows epoch m =
     (case m of
        Offset p \<Rightarrow> apfst Offset (pages_request rng total_rows epoch p)
      | Keyed r \<Rightarrow> apfst Keyed (run_request rng total_rows epoch r))"

definition abs_diff :: "nat \<Rightarrow> nat \<Rightarrow> nat" where
  "abs_diff a b = (if a < b then b - a else a - b)"

definition ensure :: "nat \<times> nat \<Rightarrow> nat \<Rightarrow> nat \<Rightarrow> grid_buffer \<Rightarrow> bool \<times> grid_buffer \<times> command list" where
  "ensure rng total_rows epoch b =
     (let margin = MARGIN_PAGES * gb_page b;
          lo = fst rng - margin;
          hi = min (snd rng + margin) total_rows;
          b = b\<lparr>gb_mode := mode_evict lo hi (gb_mode b)\<rparr> in
      if snd rng \<le> fst rng then (True, b, [])
      else
        let b = b\<lparr>gb_mode := mode_unhalt (gb_last_start b) (fst rng) (gb_mode b)\<rparr>;
            settled = (case gb_last_start b of None \<Rightarrow> True
                       | Some prev \<Rightarrow> abs_diff (fst rng) prev \<le> FLING_PAGES * gb_page b);
            b = b\<lparr>gb_last_start := Some (fst rng)\<rparr> in
        if \<not> settled then (False, b, [])
        else
          let (m, sent) = mode_request rng total_rows epoch (gb_mode b)
          in (True, b\<lparr>gb_mode := m\<rparr>, sent))"

end
