(* ===== verification/Grid_Paging.thy ===== *)
theory Grid_Paging
  imports Grid_Buffer
begin

text \<open>
  The service side of the grid (\<^verbatim>\<open>crates/red-service/src/dispatch/paging.rs\<close>): serving one run fetch, the
  checkpoint index behind exact jumps and its background build, and the SQL wrappers of the offset
  fallback. A database driver answers from an engine, so its three fetch operations are the record
  \<open>driver\<close>, an argument of the definitions; \<open>honest\<close> states what their documentation promises.
\<close>

section \<open>Open results\<close>

definition CHECKPOINT_STRIDE :: nat where "CHECKPOINT_STRIDE = 10000"
definition BUILD_TRIGGER_DEPTH :: nat where "BUILD_TRIGGER_DEPTH = 100000"

datatype build_status = Idle | Building | Done

record checkpoint_index =
  ci_points :: "(nat \<times> db_value list) list"
  ci_status :: build_status

record open_spec =
  os_sql :: string
  os_namespace :: "string option"
  os_key :: "key_spec option"
  os_key_cols :: "nat list"
  os_bounds :: "(int \<times> int) option"
  os_total :: "nat option"
  os_checkpoints :: checkpoint_index

text \<open>
  \<open>dv_seek sql key bound scroll limit\<close>, \<open>dv_seek_skip sql key from skip limit\<close> and
  \<open>dv_page sql offset limit key\<close>, each an error or rows.
\<close>

record 'e driver =
  dv_seek :: "string \<Rightarrow> key_spec \<Rightarrow> db_value list option \<Rightarrow> sort_direction \<Rightarrow> nat \<Rightarrow> 'e + db_value list list"
  dv_seek_skip :: "string \<Rightarrow> key_spec \<Rightarrow> db_value list option \<Rightarrow> nat \<Rightarrow> nat \<Rightarrow> 'e + db_value list list"
  dv_page :: "string \<Rightarrow> nat \<Rightarrow> nat \<Rightarrow> key_spec option \<Rightarrow> 'e + db_value list list"

section \<open>Serving a fetch\<close>

definition nearest_checkpoint :: "open_spec \<Rightarrow> nat \<Rightarrow> (nat \<times> db_value list) option" where
  "nearest_checkpoint spec target = find (\<lambda>(o1, _). o1 \<le> target) (rev (ci_points (os_checkpoints spec)))"

definition sat_i64 :: "int \<Rightarrow> int" where
  "sat_i64 i = max (- (2 ^ 63)) (min (2 ^ 63 - 1) i)"

text \<open>The seek bound of an interpolated jump; \<open>None\<close> where \<^verbatim>\<open>clamp\<close> would panic.\<close>

definition interp_bound :: "sort_direction \<Rightarrow> int \<Rightarrow> int \<Rightarrow> nat \<Rightarrow> nat \<Rightarrow> int option" where
  "interp_bound dir lo hi total_rows ordinal =
     (let f64 = fp_of_int F64 in
      case fp_clamp (fp_div F64 (f64 (int ordinal)) (f64 (int (total_rows - 1)))) (Zero False) (Fin 1) of
        None \<Rightarrow> None
      | Some fraction \<Rightarrow>
        let span = fp_sub F64 (f64 hi) (f64 lo) in
        if is_descending dir then
          map_option (\<lambda>target. sat_i64 (fp_to_i64 target + 1))
            (fp_clamp (fp_sub F64 (f64 hi) (fp_mul F64 span fraction)) (f64 lo) (f64 hi))
        else
          map_option (\<lambda>target. sat_i64 (fp_to_i64 target - 1))
            (fp_clamp (fp_add F64 (f64 lo) (fp_mul F64 span fraction)) (f64 lo) (f64 hi)))"

text \<open>The guard of the interpolated path, with the key range and the row count it uses.\<close>

definition interpolable :: "open_spec \<Rightarrow> key_spec \<Rightarrow> bool \<Rightarrow> (int \<times> int \<times> nat) option" where
  "interpolable spec key exact =
     (case (os_bounds spec, os_total spec) of
        (Some (lo, hi), Some total_rows) \<Rightarrow>
          if \<not> exact \<and> ks_kind key = KeyInt \<and> 1 < total_rows \<and> lo < hi then Some (lo, hi, total_rows) else None
      | _ \<Rightarrow> None)"

definition exact_jump :: "'e driver \<Rightarrow> open_spec \<Rightarrow> key_spec \<Rightarrow> nat \<Rightarrow> bool \<Rightarrow> nat \<Rightarrow> 'e + db_value list list" where
  "exact_jump D spec key ordinal exact limit =
     (case (if exact then nearest_checkpoint spec ordinal else None) of
        Some (cp_ordinal, cp_key) \<Rightarrow>
          let skip = ordinal - cp_ordinal in
          if skip \<le> CHECKPOINT_STRIDE then dv_seek_skip D (os_sql spec) key (Some cp_key) skip limit
          else dv_page D (os_sql spec) ordinal limit (Some key)
      | None \<Rightarrow> dv_page D (os_sql spec) ordinal limit (Some key))"

definition with_estimate :: "bool \<Rightarrow> 'e + 'r \<Rightarrow> 'e + 'r \<times> bool" where
  "with_estimate estimated res = (case res of Inl e \<Rightarrow> Inl e | Inr rows \<Rightarrow> Inr (rows, estimated))"

text \<open>\<^verbatim>\<open>run_fetch\<close>: \<open>None\<close> is a panic.\<close>

definition run_fetch ::
  "'e driver \<Rightarrow> open_spec \<Rightarrow> key_spec \<Rightarrow> run_fetch \<Rightarrow> nat \<Rightarrow> ('e + db_value list list \<times> bool) option" where
  "run_fetch D spec key fetch limit =
     (case fetch of
        Forward after \<Rightarrow> Some (with_estimate False (dv_seek D (os_sql spec) key after Asc limit))
      | Backward before \<Rightarrow> Some (with_estimate False (dv_seek D (os_sql spec) key (Some before) Desc limit))
      | Jump ordinal exact \<Rightarrow>
        (case interpolable spec key exact of
           None \<Rightarrow> Some (with_estimate False (exact_jump D spec key ordinal exact limit))
         | Some (lo, hi, total_rows) \<Rightarrow>
           (case interp_bound (ks_direction key) lo hi total_rows ordinal of
              None \<Rightarrow> None
            | Some bound \<Rightarrow>
              (case dv_seek D (os_sql spec) key (Some [Integer bound]) Asc limit of
                 Inl e \<Rightarrow> Some (Inl e)
               | Inr rows \<Rightarrow>
                 if rows \<noteq> [] then Some (Inr (rows, ordinal \<noteq> 0))
                 else Some (with_estimate False (exact_jump D spec key ordinal exact limit))))))"

section \<open>The checkpoint index\<close>

text \<open>\<^verbatim>\<open>claim_build\<close>: whether this jump starts the build, and the index afterwards.\<close>

definition claim_build :: "open_spec \<Rightarrow> nat \<Rightarrow> bool \<times> open_spec" where
  "claim_build spec ordinal =
     (if os_key spec = None \<or> os_key_cols spec = [] \<or> ordinal \<le> BUILD_TRIGGER_DEPTH then (False, spec)
      else if ci_status (os_checkpoints spec) = Idle
      then (True, spec\<lparr>os_checkpoints := (os_checkpoints spec)\<lparr>ci_status := Building\<rparr>\<rparr>)
      else (False, spec))"

definition tuple_at :: "nat list \<Rightarrow> db_value list \<Rightarrow> db_value list" where
  "tuple_at cols vals = map (\<lambda>c. if c < length vals then vals ! c else Null) cols"

text \<open>
  \<^verbatim>\<open>build_checkpoints\<close>. The loop ends when the result is closed (\<open>alive\<close>, asked once per round), on an
  error, behind the last row or at the known total; \<open>None\<close> is a walk that has not ended within the given
  number of rounds.
\<close>

fun build_loop ::
  "nat \<Rightarrow> 'e driver \<Rightarrow> open_spec \<Rightarrow> key_spec \<Rightarrow> (nat \<Rightarrow> bool) \<Rightarrow> nat \<Rightarrow> db_value list option \<Rightarrow> nat
     \<Rightarrow> checkpoint_index \<Rightarrow> checkpoint_index option" where
  "build_loop 0 D spec key alive ordinal from skip idx = None"
| "build_loop (Suc n) D spec key alive ordinal from skip idx =
     (if \<not> alive ordinal then Some idx
      else
        case dv_seek_skip D (os_sql spec) key from skip 1 of
          Inl e \<Rightarrow> Some (idx\<lparr>ci_status := Idle\<rparr>)
        | Inr [] \<Rightarrow> Some (idx\<lparr>ci_status := Done\<rparr>)
        | Inr (row # _) \<Rightarrow>
          let cp_key = tuple_at (os_key_cols spec) row;
              idx = idx\<lparr>ci_points := ci_points idx @ [(ordinal, cp_key)]\<rparr>;
              ordinal = ordinal + CHECKPOINT_STRIDE;
              total_rows = (case os_total spec of Some t \<Rightarrow> t | None \<Rightarrow> 0)
          in if 0 < total_rows \<and> total_rows \<le> ordinal then Some (idx\<lparr>ci_status := Done\<rparr>)
             else build_loop n D spec key alive ordinal (Some cp_key) CHECKPOINT_STRIDE idx)"

definition build_checkpoints :: "nat \<Rightarrow> 'e driver \<Rightarrow> open_spec \<Rightarrow> (nat \<Rightarrow> bool) \<Rightarrow> checkpoint_index option" where
  "build_checkpoints n D spec alive =
     (case os_key spec of
        None \<Rightarrow> Some ((os_checkpoints spec)\<lparr>ci_status := Idle\<rparr>)
      | Some key \<Rightarrow>
        if os_key_cols spec = [] then Some ((os_checkpoints spec)\<lparr>ci_status := Idle\<rparr>)
        else build_loop n D spec key alive 0 None 0 (os_checkpoints spec))"

section \<open>Work in flight\<close>

text \<open>
  \<^verbatim>\<open>InFlight\<close> of \<^verbatim>\<open>crates/red-service/src/dispatch/session.rs\<close>: the abort signals of one open result, here
  numbers the caller makes fresh. An operation also says which signal it aborts.
\<close>

datatype slot = OpenSlot | PageSlot | BuildSlot | StatsSlot | LookupSlot | KvScan | KvValue | KvImport | KvExport
  | KvCollection | KvGroupDetail | KvGroupPending | KvSubscribe | KvMonitor | DocPage | DocExport | DocImport | DocWatch

record work =
  wk_slots :: "(slot \<times> nat) list"
  wk_run :: "(nat \<times> nat) option" \<comment> \<open>seq and signal of the latest run\<close>

definition supersede :: "slot \<Rightarrow> nat \<Rightarrow> work \<Rightarrow> nat option \<times> work" where
  "supersede s sig w = (map_of (wk_slots w) s, w\<lparr>wk_slots := AList.update s sig (wk_slots w)\<rparr>)"

text \<open>The guard of the \<^verbatim>\<open>FetchRun\<close> arm: \<open>None\<close> drops a command older than the run in flight.\<close>

definition supersede_run :: "nat \<Rightarrow> nat \<Rightarrow> work \<Rightarrow> (nat option \<times> work) option" where
  "supersede_run seq sig w =
     (case wk_run w of
        Some (prev_seq, prev) \<Rightarrow>
          if seq \<le> prev_seq then None else Some (Some prev, w\<lparr>wk_run := Some (seq, sig)\<rparr>)
      | None \<Rightarrow> Some (None, w\<lparr>wk_run := Some (seq, sig)\<rparr>))"

definition abort_all :: "work \<Rightarrow> nat list" where
  "abort_all w = map snd (wk_slots w) @ (case wk_run w of Some (_, sig) \<Rightarrow> [sig] | None \<Rightarrow> [])"

section \<open>Wrapping SQL\<close>

definition unterminated :: "string \<Rightarrow> string" where
  "unterminated base = trim_end (trim_end_matches CHR '';'' (trim_end base))"

definition wrap_sorted :: "string \<Rightarrow> nat \<Rightarrow> sort_direction \<Rightarrow> string" where
  "wrap_sorted base pos dir =
     ''SELECT * FROM ('' @ unterminated base @ '') AS _red_sort ORDER BY '' @ show_nat pos @ '' '' @ direction_sql dir"

definition wrap_where :: "string \<Rightarrow> string \<Rightarrow> string" where
  "wrap_where base pred =
     ''SELECT * FROM ('' @ unterminated base @ '') AS _red_filter WHERE ('' @ pred @ '')''"

section \<open>Honest drivers\<close>

text \<open>
  What the driver trait documents, for a result whose rows in key order are \<open>data\<close>: a seek from a row's
  key gives the rows strictly behind it, or before it in reverse; a seek from the lead value alone gives
  a window of the result; a skip seek counts from the row of the key, inclusive; a page counts from the
  first row. A driver may fail at any time.
\<close>

definition answers :: "'e + 'r \<Rightarrow> 'r \<Rightarrow> bool" where
  "answers res rows \<longleftrightarrow> (\<forall>r. res = Inr r \<longrightarrow> r = rows)"

definition honest :: "'e driver \<Rightarrow> open_spec \<Rightarrow> key_spec \<Rightarrow> db_value list list \<Rightarrow> bool" where
  "honest D spec key data \<longleftrightarrow>
     (\<forall>limit. answers (dv_seek D (os_sql spec) key None Asc limit) (take limit data)) \<and>
     (\<forall>i limit. i < length data \<longrightarrow>
        answers (dv_seek D (os_sql spec) key (Some (tuple_at (os_key_cols spec) (data ! i))) Asc limit)
          (take limit (drop (i + 1) data)) \<and>
        answers (dv_seek D (os_sql spec) key (Some (tuple_at (os_key_cols spec) (data ! i))) Desc limit)
          (take limit (rev (take i data)))) \<and>
     (\<forall>v. \<exists>off. \<forall>limit. answers (dv_seek D (os_sql spec) key (Some [Integer v]) Asc limit)
        (take limit (drop off data))) \<and>
     (\<forall>skip limit. answers (dv_seek_skip D (os_sql spec) key None skip limit) (take limit (drop skip data))) \<and>
     (\<forall>i skip limit. i < length data \<longrightarrow>
        answers (dv_seek_skip D (os_sql spec) key (Some (tuple_at (os_key_cols spec) (data ! i))) skip limit)
          (take limit (drop (i + skip) data))) \<and>
     (\<forall>off limit k. answers (dv_page D (os_sql spec) off limit k) (take limit (drop off data)))"

text \<open>
  A driver over a table in memory with one integer key column \<open>c\<close>. It is honest for every table in key
  order.
\<close>

definition lead :: "nat \<Rightarrow> db_value list \<Rightarrow> int" where
  "lead c vals = (case tuple_at [c] vals of [Integer i] \<Rightarrow> i | _ \<Rightarrow> 0)"

fun bound_of :: "db_value list \<Rightarrow> int" where
  "bound_of (Integer i # _) = i"
| "bound_of _ = 0"

definition list_driver :: "nat \<Rightarrow> db_value list list \<Rightarrow> unit driver" where
  "list_driver c data =
     \<lparr>dv_seek = (\<lambda>sql key bound scroll limit. Inr (take limit (case (bound, scroll) of
          (None, Asc) \<Rightarrow> data
        | (None, Desc) \<Rightarrow> rev data
        | (Some k, Asc) \<Rightarrow> filter (\<lambda>v. bound_of k < lead c v) data
        | (Some k, Desc) \<Rightarrow> rev (filter (\<lambda>v. lead c v < bound_of k) data)))),
      dv_seek_skip = (\<lambda>sql key from skip limit. Inr (take limit (drop skip (case from of
          None \<Rightarrow> data
        | Some k \<Rightarrow> filter (\<lambda>v. bound_of k \<le> lead c v) data)))),
      dv_page = (\<lambda>sql off limit key. Inr (take limit (drop off data)))\<rparr>"

definition int_keyed :: "nat \<Rightarrow> db_value list list \<Rightarrow> bool" where
  "int_keyed c data \<longleftrightarrow>
     sorted_wrt (\<lambda>a b. lead c a < lead c b) data \<and> (\<forall>v \<in> set data. tuple_at [c] v = [Integer (lead c v)])"

lemma sorted_filter_above:
  fixes f :: "'a \<Rightarrow> int"
  assumes "sorted_wrt (\<lambda>a b. f a < f b) xs" "i < length xs"
  shows "filter (\<lambda>v. f (xs ! i) < f v) xs = drop (i + 1) xs"
    and "filter (\<lambda>v. f (xs ! i) \<le> f v) xs = drop i xs"
    and "filter (\<lambda>v. f v < f (xs ! i)) xs = take i xs"
proof -
  define a z where "a = take i xs" and "z = drop (i + 1) xs"
  have xs: "xs = a @ xs ! i # z" using assms(2) by (simp add: a_def z_def id_take_nth_drop)
  have "sorted_wrt (\<lambda>a b. f a < f b) (a @ xs ! i # z)" using assms(1) xs by simp
  then have lt: "\<forall>v \<in> set a. f v < f (xs ! i)" "\<forall>v \<in> set z. f (xs ! i) < f v" by (auto simp: sorted_wrt_append)
  have split: "filter p xs = filter p a @ (if p (xs ! i) then [xs ! i] else []) @ filter p z" for p
    by (subst xs) simp
  have none: "filter (\<lambda>v. f (xs ! i) < f v) a = []" "filter (\<lambda>v. f (xs ! i) \<le> f v) a = []"
    "filter (\<lambda>v. f v < f (xs ! i)) z = []"
    using lt by (auto simp: filter_empty_conv dest: bspec)
  have all: "filter (\<lambda>v. f (xs ! i) < f v) z = z" "filter (\<lambda>v. f (xs ! i) \<le> f v) z = z"
    "filter (\<lambda>v. f v < f (xs ! i)) a = a"
    using lt by (auto simp: filter_id_conv dest: bspec)
  show "filter (\<lambda>v. f (xs ! i) < f v) xs = drop (i + 1) xs"
    "filter (\<lambda>v. f v < f (xs ! i)) xs = take i xs"
    by (simp_all only: split none all) (simp_all add: a_def z_def)
  show "filter (\<lambda>v. f (xs ! i) \<le> f v) xs = drop i xs"
    using assms(2) by (simp only: split none all) (simp add: z_def Cons_nth_drop_Suc)
qed

lemma sorted_filter_suffix:
  assumes "sorted_wrt (\<lambda>a b. f a < f b) xs"
  shows "\<exists>off. filter (\<lambda>v. (m :: int) < f v) xs = drop off xs"
  using assms
proof (induction xs)
  case (Cons x xs)
  show ?case
  proof (cases "m < f x")
    case True
    with Cons.prems have "filter (\<lambda>v. m < f v) (x # xs) = drop 0 (x # xs)" by (auto simp: filter_id_conv)
    then show ?thesis ..
  next
    case False
    from Cons obtain off where "filter (\<lambda>v. m < f v) xs = drop off xs" by auto
    with False have "filter (\<lambda>v. m < f v) (x # xs) = drop (Suc off) (x # xs)" by simp
    then show ?thesis ..
  qed
qed simp

lemma list_driver_honest:
  assumes "int_keyed c data" "os_key_cols spec = [c]"
  shows "honest (list_driver c data) spec key data"
proof -
  have sorted: "sorted_wrt (\<lambda>a b. lead c a < lead c b) data" using assms(1) by (simp add: int_keyed_def)
  have key: "bound_of (tuple_at [c] (data ! i)) = lead c (data ! i)" if "i < length data" for i
    using assms(1) that by (auto simp: int_keyed_def)
  have "\<exists>off. \<forall>limit. take limit (filter (\<lambda>r. v < lead c r) data) = take limit (drop off data)" for v
    using sorted_filter_suffix [OF sorted, of v] by auto
  then show ?thesis
    using sorted_filter_above [OF sorted] by (simp add: honest_def list_driver_def answers_def assms(2) key add.commute)
qed

lemma list_driver_keys_unique:
  assumes "int_keyed c data"
  shows "\<forall>i < length data. \<forall>j < length data.
    values_eq (tuple_at [c] (data ! i)) (tuple_at [c] (data ! j)) \<longleftrightarrow> i = j"
proof (intro allI impI)
  fix i j assume ij: "i < length data" "j < length data"
  have "tuple_at [c] (data ! i) = [Integer (lead c (data ! i))]" "tuple_at [c] (data ! j) = [Integer (lead c (data ! j))]"
    using assms ij by (simp_all add: int_keyed_def)
  moreover have "lead c (data ! i) = lead c (data ! j) \<longleftrightarrow> i = j"
    using assms ij by (metis int_keyed_def less_irrefl linorder_neqE_nat sorted_wrt_nth_less)
  ultimately show "values_eq (tuple_at [c] (data ! i)) (tuple_at [c] (data ! j)) \<longleftrightarrow> i = j" by simp
qed

lemma honest_seek:
  assumes "honest D spec key data"
  shows "dv_seek D (os_sql spec) key None Asc limit = Inr r \<Longrightarrow> r = take limit data"
    and "i < length data \<Longrightarrow>
      dv_seek D (os_sql spec) key (Some (tuple_at (os_key_cols spec) (data ! i))) Asc limit = Inr r \<Longrightarrow>
      r = take limit (drop (i + 1) data)"
    and "i < length data \<Longrightarrow>
      dv_seek D (os_sql spec) key (Some (tuple_at (os_key_cols spec) (data ! i))) Desc limit = Inr r \<Longrightarrow>
      r = take limit (rev (take i data))"
    and "dv_seek D (os_sql spec) key (Some [Integer v]) Asc limit = Inr r \<Longrightarrow>
      \<exists>off. r = take limit (drop off data)"
    and "dv_seek_skip D (os_sql spec) key None skip limit = Inr r \<Longrightarrow> r = take limit (drop skip data)"
    and "i < length data \<Longrightarrow>
      dv_seek_skip D (os_sql spec) key (Some (tuple_at (os_key_cols spec) (data ! i))) skip limit = Inr r \<Longrightarrow>
      r = take limit (drop (i + skip) data)"
    and "dv_page D (os_sql spec) off limit k = Inr r \<Longrightarrow> r = take limit (drop off data)"
  using assms by (auto simp: honest_def answers_def, blast)

text \<open>The checkpoints of an index are rows of the result.\<close>

definition points_ok :: "nat list \<Rightarrow> db_value list list \<Rightarrow> checkpoint_index \<Rightarrow> bool" where
  "points_ok cols data idx \<longleftrightarrow>
     (\<forall>(o1, k) \<in> set (ci_points idx). o1 < length data \<and> k = tuple_at cols (data ! o1))"

text \<open>Where a walk stands: at its start, or a stride behind a row it has recorded.\<close>

definition walk_at :: "nat list \<Rightarrow> db_value list list \<Rightarrow> nat \<Rightarrow> db_value list option \<Rightarrow> nat \<Rightarrow> bool" where
  "walk_at cols data ordinal from skip \<longleftrightarrow>
     ordinal = 0 \<and> from = None \<and> skip = 0 \<or>
     (\<exists>i < length data. from = Some (tuple_at cols (data ! i)) \<and> skip = CHECKPOINT_STRIDE \<and>
        ordinal = i + CHECKPOINT_STRIDE)"

lemma walk_fetch:
  assumes "honest D spec key data" "walk_at (os_key_cols spec) data ordinal from skip"
    and "dv_seek_skip D (os_sql spec) key from skip 1 = Inr rows"
  shows "rows = take 1 (drop ordinal data)"
  using assms honest_seek(5,6) [OF assms(1)] by (auto simp: walk_at_def)

lemma walk_row:
  assumes "honest D spec key data" "walk_at (os_key_cols spec) data ordinal from skip"
    and "dv_seek_skip D (os_sql spec) key from skip 1 = Inr (row # rest)"
  shows "ordinal < length data \<and> row = data ! ordinal"
  using walk_fetch [OF assms] by (cases "ordinal < length data") (auto simp: Cons_nth_drop_Suc [symmetric])

lemma build_loop_points_ok:
  assumes "honest D spec key data" "walk_at (os_key_cols spec) data ordinal from skip"
    and "points_ok (os_key_cols spec) data idx"
    and "build_loop n D spec key alive ordinal from skip idx = Some idx'"
  shows "points_ok (os_key_cols spec) data idx'"
  using assms(2-)
proof (induction n arbitrary: ordinal "from" skip idx)
  case (Suc n)
  show ?case
  proof (cases "dv_seek_skip D (os_sql spec) key from skip 1")
    case (Inl e)
    with Suc show ?thesis by (auto simp: points_ok_def simp del: One_nat_def split: if_splits)
  next
    case (Inr rows)
    show ?thesis
    proof (cases rows)
      case Nil
      with Inr Suc show ?thesis by (auto simp: points_ok_def simp del: One_nat_def split: if_splits)
    next
      case (Cons row rest)
      note row = walk_row [OF assms(1) Suc.prems(1) Inr [unfolded Cons]]
      define cp where "cp = tuple_at (os_key_cols spec) row"
      have ok: "points_ok (os_key_cols spec) data (idx\<lparr>ci_points := ci_points idx @ [(ordinal, cp)]\<rparr>)"
        using Suc.prems(2) row by (auto simp: points_ok_def cp_def)
      have "walk_at (os_key_cols spec) data (ordinal + CHECKPOINT_STRIDE) (Some cp) CHECKPOINT_STRIDE"
        using row by (auto simp: walk_at_def cp_def)
      from Suc.IH [OF this ok] Suc.prems(2,3) ok show ?thesis
        by (auto simp: Inr Cons cp_def Let_def points_ok_def simp del: One_nat_def split: if_splits)
    qed
  qed
qed simp

text \<open>
  The background build keeps the checkpoint index truthful: whatever it is interrupted by, an index
  whose checkpoints are rows of the result is turned into another such index.
\<close>

theorem build_checkpoints_sound:
  assumes "honest D spec key data" "os_key spec = Some key"
    and "points_ok (os_key_cols spec) data (os_checkpoints spec)"
    and "build_checkpoints n D spec alive = Some idx"
  shows "points_ok (os_key_cols spec) data idx"
proof (cases "os_key_cols spec = []")
  case True
  with assms show ?thesis by (auto simp: build_checkpoints_def points_ok_def)
next
  case False
  have "walk_at (os_key_cols spec) data 0 None 0" by (simp add: walk_at_def)
  from build_loop_points_ok [OF assms(1) this assms(3)] assms(2,4) False show ?thesis
    by (auto simp: build_checkpoints_def)
qed

text \<open>A three-row table with an integer key, and the specification of a result over it.\<close>

definition demo_rows :: "db_value list list" where
  "demo_rows = [[Integer 1], [Integer 5], [Integer 9]]"

definition demo_spec :: open_spec where
  "demo_spec = \<lparr>os_sql = ''SELECT * FROM t'', os_namespace = None, os_key = Some (key_single ''id'' KeyInt),
     os_key_cols = [0], os_bounds = None, os_total = None,
     os_checkpoints = \<lparr>ci_points = [(1, [Integer 5])], ci_status = Idle\<rparr>\<rparr>"

lemma demo_rows_keyed: "int_keyed 0 demo_rows"
  by (simp add: int_keyed_def demo_rows_def lead_def tuple_at_def)

lemma demo_honest: "honest (list_driver 0 demo_rows) (demo_spec\<lparr>os_checkpoints := idx\<rparr>) key demo_rows"
  using list_driver_honest [OF demo_rows_keyed] by (simp add: demo_spec_def)

lemma demo_points: "points_ok [0] demo_rows (os_checkpoints demo_spec)"
  by (simp add: points_ok_def demo_spec_def demo_rows_def tuple_at_def)

lemmas demo_facts = demo_honest [of "os_checkpoints demo_spec", simplified] demo_points

lemma build_checkpoints_sound_witness:
  "points_ok [0] demo_rows \<lparr>ci_points = [(1, [Integer 5]), (0, [Integer 1])], ci_status = Done\<rparr>"
proof -
  have "build_checkpoints 2 (list_driver 0 demo_rows) demo_spec (\<lambda>_. True) =
      Some \<lparr>ci_points = [(1, [Integer 5]), (0, [Integer 1])], ci_status = Done\<rparr>"
    by (simp add: build_checkpoints_def demo_spec_def list_driver_def demo_rows_def tuple_at_def
        CHECKPOINT_STRIDE_def numeral_2_eq_2 lead_def)
  moreover have "os_key demo_spec = Some (key_single ''id'' KeyInt)" "os_key_cols demo_spec = [0]"
    by (simp_all add: demo_spec_def)
  ultimately show ?thesis
    using build_checkpoints_sound [OF demo_facts(1), of "key_single ''id'' KeyInt" 2 "\<lambda>_. True"] demo_facts(2) by simp
qed

lemma build_loop_terminates:
  assumes "honest D spec key data" "walk_at (os_key_cols spec) data ordinal from skip"
    and "length data + CHECKPOINT_STRIDE \<le> ordinal + n * CHECKPOINT_STRIDE"
  shows "\<exists>idx'. build_loop n D spec key alive ordinal from skip idx = Some idx'"
  using assms(2,3)
proof (induction n arbitrary: ordinal "from" skip idx)
  case 0
  then show ?case by (auto simp: walk_at_def CHECKPOINT_STRIDE_def)
next
  case (Suc n)
  show ?case
  proof (cases "dv_seek_skip D (os_sql spec) key from skip 1")
    case (Inr rows)
    show ?thesis
    proof (cases rows)
      case (Cons row rest)
      note row = walk_row [OF assms(1) Suc.prems(1) Inr [unfolded Cons]]
      define cp where "cp = tuple_at (os_key_cols spec) row"
      have "walk_at (os_key_cols spec) data (ordinal + CHECKPOINT_STRIDE) (Some cp) CHECKPOINT_STRIDE"
        using row by (auto simp: walk_at_def cp_def)
      from Suc.IH [OF this] Suc.prems(2) show ?thesis
        by (auto simp: Inr Cons Let_def cp_def simp del: One_nat_def)
    qed (simp add: Inr del: One_nat_def)
  qed (simp del: One_nat_def)
qed

text \<open>
  C15. The build ends: on an honest driver a walk over \<open>n\<close> rows is over after \<open>n / CHECKPOINT_STRIDE + 2\<close>
  rounds, also when the total is unknown, when requests fail or when the result is closed.
\<close>

theorem build_checkpoints_terminates:
  assumes "honest D spec key data" "os_key spec = Some key"
    and "length data div CHECKPOINT_STRIDE + 2 \<le> n"
  shows "\<exists>idx. build_checkpoints n D spec alive = Some idx"
proof -
  have "walk_at (os_key_cols spec) data 0 None 0" by (simp add: walk_at_def)
  moreover have "length data + CHECKPOINT_STRIDE \<le> 0 + n * CHECKPOINT_STRIDE"
    using assms(3) by (simp add: CHECKPOINT_STRIDE_def)
  ultimately show ?thesis
    using build_loop_terminates [OF assms(1)] assms(2) by (auto simp: build_checkpoints_def)
qed

lemma build_checkpoints_terminates_witness:
  "\<exists>idx. build_checkpoints 2 (list_driver 0 demo_rows) demo_spec (\<lambda>_. True) = Some idx"
  by (rule build_checkpoints_terminates [OF demo_facts(1), of "key_single ''id'' KeyInt"])
    (simp_all add: demo_spec_def demo_rows_def CHECKPOINT_STRIDE_def)

lemma find_SomeD: "find P xs = Some x \<Longrightarrow> x \<in> set xs \<and> P x"
  by (induction xs) (auto split: if_splits)

lemma nearest_checkpoint_ok:
  assumes "points_ok cols data (os_checkpoints spec)" "nearest_checkpoint spec target = Some (o1, k)"
  shows "o1 \<le> target \<and> o1 < length data \<and> k = tuple_at cols (data ! o1)"
  using assms by (fastforce simp: nearest_checkpoint_def points_ok_def dest!: find_SomeD)

lemma exact_jump_rows:
  assumes "honest D spec key data" "points_ok (os_key_cols spec) data (os_checkpoints spec)"
    and "exact_jump D spec key ordinal exact limit = Inr rows"
  shows "rows = take limit (drop ordinal data)"
proof (cases "if exact then nearest_checkpoint spec ordinal else None")
  case None
  with assms honest_seek(7) [OF assms(1)] show ?thesis by (simp add: exact_jump_def)
next
  case (Some p)
  obtain o1 k where p: "p = (o1, k)" by (cases p)
  with Some have near: "nearest_checkpoint spec ordinal = Some (o1, k)" by (simp split: if_splits)
  note cp = nearest_checkpoint_ok [OF assms(2) near]
  from assms(3) Some p cp honest_seek(6) [OF assms(1), of o1 "ordinal - o1" limit rows] honest_seek(7) [OF assms(1)]
  show ?thesis by (auto simp: exact_jump_def Let_def split: if_splits)
qed

text \<open>
  C16. An exact jump is exact however it is served: with any truthful index, complete or not, a successful
  jump to row \<open>n\<close> gives the page of the result that starts at row \<open>n\<close>, which is what the offset page gives,
  and it is not marked as an estimate.
\<close>

theorem exact_jump_is_offset_page:
  assumes "honest D spec key data" "points_ok (os_key_cols spec) data (os_checkpoints spec)"
    and "run_fetch D spec key (Jump ordinal True) limit = Some (Inr (rows, estimated))"
  shows "rows = take limit (drop ordinal data) \<and> \<not> estimated"
  using assms(3) exact_jump_rows [OF assms(1,2)]
  by (auto simp: run_fetch_def interpolable_def with_estimate_def split: option.splits sum.splits)

lemma exact_jump_is_offset_page_witness:
  "run_fetch (list_driver 0 demo_rows) demo_spec (key_single ''id'' KeyInt) (Jump 2 True) 5 =
     Some (Inr ([[Integer 9]], False)) \<and> [[Integer 9]] = take 5 (drop 2 demo_rows)"
proof -
  have "run_fetch (list_driver 0 demo_rows) demo_spec (key_single ''id'' KeyInt) (Jump 2 True) 5 =
      Some (Inr ([[Integer 9]], False))"
    by (simp add: run_fetch_def interpolable_def demo_spec_def exact_jump_def nearest_checkpoint_def
        CHECKPOINT_STRIDE_def list_driver_def demo_rows_def with_estimate_def lead_def tuple_at_def)
  moreover have "os_key_cols demo_spec = [0]" by (simp add: demo_spec_def)
  ultimately show ?thesis
    using exact_jump_is_offset_page [OF demo_facts(1), of "key_single ''id'' KeyInt" 2 5 "[[Integer 9]]" False] demo_facts(2)
    by simp
qed

end
