(* ===== verification/Grid_System.thy ===== *)
theory Grid_System
  imports Grid_Paging
begin

text \<open>
  The grid and the service together: paints, jumps, replies and failures in any order, replies delayed,
  duplicated or lost, checkpoints built in the background. What the grid shows at an ordinal is the row
  of the result at that ordinal.
\<close>

section \<open>Eviction in closed form\<close>

lemma evict_front_eq:
  "evict_front lo r =
     (let k = min (lo - kr_anchor r) (length (kr_rows r)) in
      r\<lparr>kr_rows := drop k (kr_rows r), kr_anchor := kr_anchor r + k, kr_at_start := (kr_at_start r \<and> k = 0)\<rparr>)"
proof (induction lo r rule: evict_front.induct)
  case (1 lo r)
  show ?case
  proof (cases "kr_anchor r < lo \<and> kr_rows r \<noteq> []")
    case True
    then obtain x xs where xs: "kr_rows r = x # xs" by (cases "kr_rows r") auto
    have "lo - kr_anchor r = Suc (lo - Suc (kr_anchor r))" using True by linarith
    then show ?thesis using 1 [OF True] True by (subst evict_front.simps) (simp add: xs Let_def)
  next
    case False
    then have "min (lo - kr_anchor r) (length (kr_rows r)) = 0" by auto
    then show ?thesis using False by (subst evict_front.simps) (auto simp: Let_def)
  qed
qed

lemma evict_back_eq:
  "evict_back hi r =
     (let m = min (length (kr_rows r)) (hi - kr_anchor r) in
      r\<lparr>kr_rows := take m (kr_rows r), kr_at_end := (kr_at_end r \<and> m = length (kr_rows r))\<rparr>)"
proof (induction hi r rule: evict_back.induct)
  case (1 hi r)
  show ?case
  proof (cases "hi < kr_anchor r + length (kr_rows r) \<and> kr_rows r \<noteq> []")
    case True
    then obtain x xs where xs: "kr_rows r = xs @ [x]" by (cases "kr_rows r" rule: rev_cases) auto
    have "hi - kr_anchor r \<le> length xs" using True xs by auto
    then show ?thesis using 1 [OF True] True by (subst evict_back.simps) (simp add: xs Let_def min_def)
  next
    case False
    then have "min (length (kr_rows r)) (hi - kr_anchor r) = length (kr_rows r)" by auto
    then show ?thesis using False by (subst evict_back.simps) (auto simp: Let_def)
  qed
qed

section \<open>The run as a window of the result\<close>

text \<open>\<open>window S data off r\<close>: the rows of the run are the rows \<open>off\<close>, \<open>off + 1\<close>, ... of the result.\<close>

definition window :: "(fp \<Rightarrow> string) \<Rightarrow> db_value list list \<Rightarrow> nat \<Rightarrow> keyed_run \<Rightarrow> bool" where
  "window S data off r \<longleftrightarrow>
     off + length (kr_rows r) \<le> length data \<and>
     (\<forall>i < length (kr_rows r). kr_rows r ! i = row_new S (data ! (off + i))) \<and>
     (kr_at_end r \<longrightarrow> off + length (kr_rows r) = length data)"

lemma window_evict_front:
  assumes "window S data off r"
  shows "\<exists>k. window S data (off + k) (evict_front lo r) \<and> kr_anchor (evict_front lo r) = kr_anchor r + k"
proof -
  define k where "k = min (lo - kr_anchor r) (length (kr_rows r))"
  have "k \<le> length (kr_rows r)" by (simp add: k_def)
  then have "window S data (off + k) (evict_front lo r)"
    using assms by (auto simp: window_def evict_front_eq k_def [symmetric] Let_def add.assoc)
  moreover have "kr_anchor (evict_front lo r) = kr_anchor r + k"
    by (simp add: evict_front_eq k_def [symmetric] Let_def)
  ultimately show ?thesis by blast
qed

lemma window_evict_back:
  assumes "window S data off r"
  shows "window S data off (evict_back hi r) \<and> kr_anchor (evict_back hi r) = kr_anchor r"
proof -
  define m where "m = min (length (kr_rows r)) (hi - kr_anchor r)"
  have "m \<le> length (kr_rows r)" by (simp add: m_def)
  then show ?thesis
    using assms by (auto simp: window_def evict_back_eq m_def [symmetric] Let_def)
qed

text \<open>
  The invariant of a run. With \<open>ex\<close> (no reply was ever an estimate) the anchor is the true ordinal of the
  first row and the start flag is true only at the first row.
\<close>

definition tracks :: "bool \<Rightarrow> (fp \<Rightarrow> string) \<Rightarrow> db_value list list \<Rightarrow> keyed_run \<Rightarrow> bool" where
  "tracks ex S data r \<longleftrightarrow>
     (\<exists>off. window S data off r \<and>
        (ex \<and> kr_rows r \<noteq> [] \<longrightarrow> kr_anchor r = off \<and> (kr_at_start r \<longrightarrow> off = 0))) \<and>
     (ex \<longrightarrow> \<not> kr_estimated r)"

lemma tracks_evict:
  assumes "tracks ex S data r"
  shows "tracks ex S data (evict lo hi r)"
proof -
  obtain off where off: "window S data off r"
    "ex \<and> kr_rows r \<noteq> [] \<longrightarrow> kr_anchor r = off \<and> (kr_at_start r \<longrightarrow> off = 0)" "ex \<longrightarrow> \<not> kr_estimated r"
    using assms by (auto simp: tracks_def)
  obtain k where k: "window S data (off + k) (evict_front lo r)" "kr_anchor (evict_front lo r) = kr_anchor r + k"
    using window_evict_front [OF off(1)] by blast
  have start: "kr_at_start (evict lo hi r) \<longrightarrow> kr_at_start r \<and> k = 0"
    using k(2) by (auto simp: evict_def evict_back_eq evict_front_eq Let_def)
  have rows: "kr_rows (evict lo hi r) \<noteq> [] \<longrightarrow> kr_rows r \<noteq> []"
    by (auto simp: evict_def evict_back_eq evict_front_eq Let_def)
  have "kr_estimated (evict lo hi r) = kr_estimated r"
    by (simp add: evict_def evict_back_eq evict_front_eq Let_def)
  moreover have "window S data (off + k) (evict lo hi r)" "kr_anchor (evict lo hi r) = kr_anchor r + k"
    using window_evict_back [OF k(1), of hi] k(2) by (simp_all add: evict_def)
  ultimately show ?thesis using off start rows by (auto simp: tracks_def)
qed

lemma tracks_frame [simp]:
  "tracks ex S data (r\<lparr>kr_seq := n\<rparr>) = tracks ex S data r"
  "tracks ex S data (r\<lparr>kr_pending := p\<rparr>) = tracks ex S data r"
  "tracks ex S data (r\<lparr>kr_halted := h\<rparr>) = tracks ex S data r"
  by (simp_all add: tracks_def window_def)

text \<open>A message asks from the key of a row of the result.\<close>

fun fetch_ok :: "nat list \<Rightarrow> db_value list list \<Rightarrow> run_fetch \<Rightarrow> bool" where
  "fetch_ok cols data (Forward (Some k)) \<longleftrightarrow> (\<exists>i < length data. k = tuple_at cols (data ! i))"
| "fetch_ok cols data (Backward k) \<longleftrightarrow> (\<exists>i < length data. k = tuple_at cols (data ! i))"
| "fetch_ok cols data _ \<longleftrightarrow> True"

lemma key_tuple_row_new [simp]: "key_tuple cols (row_new S vals) = tuple_at cols vals"
  by (simp add: key_tuple_def tuple_at_def row_new_def)

lemma window_keys:
  assumes "window S data off r" "kr_rows r \<noteq> []"
  shows "first_key r = Some (tuple_at (kr_key_cols r) (data ! off))"
    and "last_key r = Some (tuple_at (kr_key_cols r) (data ! (off + length (kr_rows r) - 1)))"
    and "off + length (kr_rows r) - 1 < length data" "off < length data"
proof -
  have w: "off + length (kr_rows r) \<le> length data" "\<forall>i < length (kr_rows r). kr_rows r ! i = row_new S (data ! (off + i))"
    using assms(1) by (simp_all add: window_def)
  show "first_key r = Some (tuple_at (kr_key_cols r) (data ! off))"
    using w assms(2) by (cases "kr_rows r") (auto simp: first_key_def)
  have "last (kr_rows r) = row_new S (data ! (off + (length (kr_rows r) - 1)))"
    using w(2) assms(2) by (simp add: last_conv_nth)
  moreover have "off + (length (kr_rows r) - 1) = off + length (kr_rows r) - 1" using assms(2) by (cases "kr_rows r") auto
  ultimately show "last_key r = Some (tuple_at (kr_key_cols r) (data ! (off + length (kr_rows r) - 1)))"
    using assms(2) by (simp add: last_key_def)
  show "off + length (kr_rows r) - 1 < length data" "off < length data" using w(1) assms(2) by (cases "kr_rows r"; simp)+
qed

lemma issue_fields:
  assumes "issue f epoch r = (r', sent)"
  shows "sent = [FetchRun epoch f (kr_page r) (kr_seq r + 1)]" "r' = r\<lparr>kr_seq := kr_seq r + 1, kr_pending := Some (kr_seq r + 1)\<rparr>"
  using assms by (auto simp: issue_def Let_def)

text \<open>What a request may ask for.\<close>

definition may_ask :: "nat \<times> nat \<Rightarrow> keyed_run \<Rightarrow> run_fetch \<Rightarrow> bool" where
  "may_ask rng r f \<longleftrightarrow>
     f = Forward None \<or> f = Jump (fst rng) False \<or>
     kr_rows r \<noteq> [] \<and> (f = Forward (last_key r) \<or> Some f = map_option Backward (first_key r))"

lemma run_request_shape:
  "run_request rng n epoch r = (r, []) \<or>
   (\<exists>f. run_request rng n epoch r = issue f epoch r \<and> kr_pending r = None \<and> may_ask rng r f)"
proof (cases "kr_pending r \<noteq> None \<or> kr_halted r")
  case True
  then show ?thesis by (simp add: run_request_def)
next
  case free: False
  show ?thesis
  proof (cases "kr_rows r = []")
    case True
    with free show ?thesis by (auto simp: run_request_def Let_def may_ask_def)
  next
    case rows: False
    obtain k l where kl: "first_key r = Some k" "last_key r = Some l"
      using rows by (cases "kr_rows r") (auto simp: first_key_def last_key_def)
    from free rows kl show ?thesis by (simp add: run_request_def Let_def may_ask_def) blast
  qed
qed

lemma run_request_cases:
  assumes "run_request rng n epoch r = (r', sent)"
  obtains (idle) "r' = r" "sent = []"
  | (sent) f where "issue f epoch r = (r', sent)" "kr_pending r = None" "may_ask rng r f"
  using run_request_shape [of rng n epoch r] assms by (elim disjE) auto

lemma may_ask_ok:
  assumes "may_ask rng r f" "window S data off r"
  shows "fetch_ok (kr_key_cols r) data f"
proof (cases "kr_rows r = []")
  case True
  with assms(1) show ?thesis by (auto simp: may_ask_def)
next
  case False
  from assms(1) window_keys [OF assms(2) False] show ?thesis by (auto simp: may_ask_def)
qed

section \<open>Replies\<close>

lemma window_transfer:
  "window S data off r \<Longrightarrow> kr_rows r' = kr_rows r \<Longrightarrow> kr_at_end r' = kr_at_end r \<Longrightarrow> window S data off r'"
  by (simp add: window_def)

lemma window_forward:
  assumes "window S data off r" "rows = take p (drop (off + length (kr_rows r)) data)"
  shows "window S data off (r\<lparr>kr_rows := kr_rows r @ map (row_new S) rows, kr_at_end := length rows < p\<rparr>)"
  using assms by (auto simp: window_def nth_append min_def)

lemma window_backward:
  assumes "window S data off r" "rows = take p (rev (take off data))"
  shows "length rows \<le> off \<and>
    window S data (off - length rows) (r\<lparr>kr_rows := fold (#) (map (row_new S) rows) (kr_rows r)\<rparr>)"
proof -
  have off: "off \<le> length data" using assms(1) by (simp add: window_def)
  have m: "length rows = min p off" using off by (simp add: assms(2) min.commute)
  have "rev rows ! i = data ! (off - length rows + i)" if "i < length rows" for i
    using that off m by (simp add: assms(2) take_rev min_absorb2) (simp add: min_def split: if_splits)
  with assms(1) m show ?thesis
    by (auto simp: window_def fold_Cons_rev nth_append rev_map add.assoc)
qed

lemma window_jump:
  assumes "rows = take p (drop j data)"
  shows "window S data (min j (length data)) (r\<lparr>kr_rows := map (row_new S) rows, kr_at_end := length rows < p\<rparr>)"
  using assms by (auto simp: window_def min_def)

text \<open>Key tuples tell the rows of a result apart, as \<^verbatim>\<open>Vec<Value>\<close> compares them.\<close>

definition keys_unique :: "nat list \<Rightarrow> db_value list list \<Rightarrow> bool" where
  "keys_unique cols data \<longleftrightarrow>
     (\<forall>i < length data. \<forall>j < length data.
        values_eq (tuple_at cols (data ! i)) (tuple_at cols (data ! j)) \<longleftrightarrow> i = j)"

text \<open>What a served fetch answers, by its kind.\<close>

lemma run_fetch_reply:
  assumes "honest D spec key data" "points_ok (os_key_cols spec) data (os_checkpoints spec)"
    and "run_fetch D spec key fetch limit = Some (Inr (rows, est))"
  shows "fetch = Forward None \<Longrightarrow> rows = take limit data"
    and "fetch = Forward (Some (tuple_at (os_key_cols spec) (data ! i))) \<Longrightarrow> i < length data \<Longrightarrow>
      rows = take limit (drop (i + 1) data)"
    and "fetch = Backward (tuple_at (os_key_cols spec) (data ! i)) \<Longrightarrow> i < length data \<Longrightarrow>
      rows = take limit (rev (take i data))"
    and "fetch = Jump ordinal exact \<Longrightarrow> \<exists>j. rows = take limit (drop j data)"
    and "fetch = Jump ordinal exact \<Longrightarrow> interpolable spec key False = None \<Longrightarrow>
      rows = take limit (drop ordinal data) \<and> \<not> est"
proof -
  note seek = honest_seek [OF assms(1)]
  note jump = exact_jump_rows [OF assms(1,2)]
  show "rows = take limit data" if "fetch = Forward None"
    using assms(3) that seek(1) by (auto simp: run_fetch_def with_estimate_def split: sum.splits)
  show "rows = take limit (drop (i + 1) data)"
    if "fetch = Forward (Some (tuple_at (os_key_cols spec) (data ! i)))" "i < length data"
    using assms(3) that seek(2) by (auto simp: run_fetch_def with_estimate_def split: sum.splits)
  show "rows = take limit (rev (take i data))"
    if "fetch = Backward (tuple_at (os_key_cols spec) (data ! i))" "i < length data"
    using assms(3) that seek(3) by (auto simp: run_fetch_def with_estimate_def split: sum.splits)
  have ie: "interpolable spec key exact = None" if "interpolable spec key False = None"
    using that by (auto simp: interpolable_def split: option.splits prod.splits)
  show "rows = take limit (drop ordinal data) \<and> \<not> est"
    if "fetch = Jump ordinal exact" "interpolable spec key False = None"
    using assms(3) that(1) ie [OF that(2)] jump by (auto simp: run_fetch_def with_estimate_def split: sum.splits)
  show "\<exists>j. rows = take limit (drop j data)" if "fetch = Jump ordinal exact"
    using assms(3) that seek(4) jump
    by (auto simp: run_fetch_def with_estimate_def split: sum.splits option.splits prod.splits if_splits) blast+
qed

lemma tracksI:
  assumes "window S data off r" "ex \<and> kr_rows r \<noteq> [] \<Longrightarrow> kr_anchor r = off \<and> (kr_at_start r \<longrightarrow> off = 0)"
    and "ex \<Longrightarrow> \<not> kr_estimated r"
  shows "tracks ex S data r"
  using assms unfolding tracks_def by blast

lemma keys_pending [simp]:
  "last_key (r\<lparr>kr_pending := p\<rparr>) = last_key r" "first_key (r\<lparr>kr_pending := p\<rparr>) = first_key r"
  by (simp_all add: last_key_def first_key_def cong: list.case_cong)

lemma apply_forward_fields:
  assumes "key_eq after (last_key r)" "kr_pending r = Some seq"
    and "r' = run_apply S (Forward after) rows est seq n r"
  shows "kr_rows r' = kr_rows r @ map (row_new S) rows" "kr_at_end r' = (length rows < kr_page r)"
    "kr_estimated r' = (kr_rows r \<noteq> [] \<and> \<not> length rows < kr_page r \<and> kr_estimated r)"
    "kr_anchor r' = (if length rows < kr_page r then n - length (kr_rows r')
       else if kr_rows r = [] then 0 else kr_anchor r)"
    "kr_at_start r' = (kr_rows r = [] \<or> kr_at_start r)"
  using assms(1,2) by (auto simp: assms(3) run_apply_def Let_def)

lemma apply_backward_fields:
  assumes "kr_rows r \<noteq> []" "key_eq (Some before) (first_key r)" "kr_pending r = Some seq"
    and "r' = run_apply S (Backward before) rows est seq n r"
    and "touch = (length rows < kr_page r \<or> kr_anchor r - length rows = 0)"
  shows "kr_rows r' = fold (#) (map (row_new S) rows) (kr_rows r)" "kr_at_end r' = kr_at_end r"
    "kr_estimated r' = (\<not> touch \<and> kr_estimated r)"
    "kr_anchor r' = (if touch then 0 else kr_anchor r - length rows)"
    "kr_at_start r' = (touch \<or> kr_at_start r)"
  using assms(1-3) by (auto simp: assms(4,5) run_apply_def Let_def)

lemma apply_jump_fields:
  assumes "kr_pending r = Some seq" "r' = run_apply S (Jump ordinal exact) rows est seq n r"
  shows "kr_rows r' = map (row_new S) rows" "kr_at_end r' = (length rows < kr_page r)"
    "kr_estimated r' = (\<not> length rows < kr_page r \<and> est)"
    "kr_anchor r' = (if length rows < kr_page r then n - length rows else min ordinal (n - length rows))"
    "kr_at_start r' = (kr_anchor r' = 0)"
  using assms(1) by (auto simp: assms(2) run_apply_def Let_def)

lemma tracks_forward:
  assumes "tracks ex S data r" "keys_unique (kr_key_cols r) data" "kr_pending r = Some seq"
    and "after = None \<Longrightarrow> rows = take (kr_page r) data"
    and "\<And>k. after = Some k \<Longrightarrow> \<exists>i < length data. k = tuple_at (kr_key_cols r) (data ! i) \<and>
      rows = take (kr_page r) (drop (i + 1) data)"
  shows "tracks ex S data (run_apply S (Forward after) rows est seq (length data) r)"
proof (cases "key_eq after (last_key r)")
  case False
  with assms(1,3) show ?thesis by (simp add: run_apply_def)
next
  case same: True
  obtain off where off: "window S data off r"
    "ex \<and> kr_rows r \<noteq> [] \<longrightarrow> kr_anchor r = off \<and> (kr_at_start r \<longrightarrow> off = 0)" "ex \<longrightarrow> \<not> kr_estimated r"
    using assms(1) by (auto simp: tracks_def)
  define r' where "r' = run_apply S (Forward after) rows est seq (length data) r"
  note r' = apply_forward_fields [OF same assms(3) r'_def]
  show ?thesis
  proof (cases "kr_rows r = []")
    case True
    then have "after = None" using same by (cases after) (auto simp: last_key_def)
    then have rows: "rows = take (kr_page r) (drop 0 data)" using assms(4) by simp
    have "window S data 0 r'"
      using window_transfer [OF window_jump [OF rows, of S r], of r'] r'(1,2) True by simp
    then show ?thesis unfolding r'_def [symmetric]
      by (rule tracksI) (auto simp: r' True rows)
  next
    case False
    then obtain k where k: "after = Some k" using same by (cases after) (auto simp: last_key_def)
    obtain i where i: "i < length data" "k = tuple_at (kr_key_cols r) (data ! i)"
      "rows = take (kr_page r) (drop (i + 1) data)" using assms(5) [OF k] by blast
    note keys = window_keys [OF off(1) False]
    have "i = off + length (kr_rows r) - 1"
      using same k i(1,2) keys(2,3) assms(2) by (auto simp: keys_unique_def)
    then have "i + 1 = off + length (kr_rows r)" using False by (cases "kr_rows r") auto
    then have rows: "rows = take (kr_page r) (drop (off + length (kr_rows r)) data)" using i(3) by simp
    have w: "window S data off r'"
      using window_transfer [OF window_forward [OF off(1) rows], of r'] r'(1,2) by simp
    then have "kr_at_end r' \<longrightarrow> length data - length (kr_rows r') = off" by (auto simp: window_def)
    with w show ?thesis unfolding r'_def [symmetric]
      using off(2,3) False by (intro tracksI) (auto simp: r'(2-5))
  qed
qed

lemma tracks_backward:
  assumes "tracks ex S data r" "keys_unique (kr_key_cols r) data" "kr_pending r = Some seq"
    and "i < length data" "before = tuple_at (kr_key_cols r) (data ! i)"
    and "rows = take (kr_page r) (rev (take i data))"
  shows "tracks ex S data (run_apply S (Backward before) rows est seq (length data) r)"
proof (cases "kr_rows r = [] \<or> \<not> key_eq (Some before) (first_key r)")
  case True
  with assms(1,3) show ?thesis by (auto simp: run_apply_def)
next
  case False
  then have ne: "kr_rows r \<noteq> []" and same: "key_eq (Some before) (first_key r)" by auto
  obtain off where off: "window S data off r"
    "ex \<and> kr_rows r \<noteq> [] \<longrightarrow> kr_anchor r = off \<and> (kr_at_start r \<longrightarrow> off = 0)" "ex \<longrightarrow> \<not> kr_estimated r"
    using assms(1) by (auto simp: tracks_def)
  define r' where "r' = run_apply S (Backward before) rows est seq (length data) r"
  note keys = window_keys [OF off(1) ne]
  have "i = off" using same keys(1,4) assms(2,4,5) by (auto simp: keys_unique_def)
  then have rows: "rows = take (kr_page r) (rev (take off data))" using assms(6) by simp
  note bk = window_backward [OF off(1) rows]
  define touch where "touch = (length rows < kr_page r \<or> kr_anchor r - length rows = 0)"
  note r' = apply_backward_fields [OF ne same assms(3) r'_def touch_def]
  have "window S data (off - length rows) r'"
    using window_transfer [OF bk [THEN conjunct2], of r'] r'(1,2) by simp
  moreover have "length rows < kr_page r \<Longrightarrow> off - length rows = 0"
    using off(1) by (auto simp: rows window_def min_def split: if_splits)
  ultimately show ?thesis unfolding r'_def [symmetric]
    using off(2,3) ne by (intro tracksI) (auto simp: r'(3-5) touch_def)
qed

lemma tracks_jump:
  assumes "tracks ex S data r" "kr_pending r = Some seq"
    and "rows = take (kr_page r) (drop j data)" "ex \<Longrightarrow> j = ordinal \<and> \<not> est"
  shows "tracks ex S data (run_apply S (Jump ordinal exact) rows est seq (length data) r)"
proof -
  define r' where "r' = run_apply S (Jump ordinal exact) rows est seq (length data) r"
  note r' = apply_jump_fields [OF assms(2) r'_def]
  have "window S data (min j (length data)) r'"
    using window_transfer [OF window_jump [OF assms(3), of S r], of r'] r'(1,2) by simp
  moreover have "kr_anchor r' = min j (length data)" if "ex" "kr_rows r' \<noteq> []"
    using that assms(3,4) by (auto simp: r'(1,4) min_def)
  ultimately show ?thesis unfolding r'_def [symmetric]
    using assms(4) by (intro tracksI) (auto simp: r'(3,5))
qed

lemma tracks_apply:
  assumes "honest D spec key data" "points_ok (os_key_cols spec) data (os_checkpoints spec)"
    and "tracks ex S data r" "kr_key_cols r = os_key_cols spec" "keys_unique (os_key_cols spec) data"
    and "fetch_ok (os_key_cols spec) data fetch"
    and "run_fetch D spec key fetch (kr_page r) = Some (Inr (rows, est))"
    and "ex \<Longrightarrow> interpolable spec key False = None"
  shows "tracks ex S data (run_apply S fetch rows est seq (length data) r)"
proof (cases "kr_pending r = Some seq")
  case False
  with assms(3) show ?thesis by (simp add: run_apply_def)
next
  case pending: True
  note reply = run_fetch_reply [OF assms(1,2,7)]
  show ?thesis
  proof (cases fetch)
    case (Forward after)
    show ?thesis unfolding Forward
    proof (rule tracks_forward [OF assms(3) _ pending])
      show "keys_unique (kr_key_cols r) data" using assms(4,5) by simp
      show "rows = take (kr_page r) data" if "after = None" using reply(1) that Forward by simp
      show "\<exists>i < length data. k = tuple_at (kr_key_cols r) (data ! i) \<and> rows = take (kr_page r) (drop (i + 1) data)"
        if "after = Some k" for k
        using assms(4,6) reply(2) that Forward by auto
    qed
  next
    case (Backward before)
    with assms(6) obtain i where i: "i < length data" "before = tuple_at (os_key_cols spec) (data ! i)" by auto
    show ?thesis unfolding Backward
      using tracks_backward [OF assms(3) _ pending i(1)] reply(3) [of i] i assms(4,5) Backward by simp
  next
    case (Jump ordinal exact)
    obtain j where j: "rows = take (kr_page r) (drop j data)" "ex \<Longrightarrow> j = ordinal \<and> \<not> est"
      using reply(4,5) [OF Jump] assms(8) by (cases ex) auto
    show ?thesis unfolding Jump by (rule tracks_jump [OF assms(3) pending j])
  qed
qed

section \<open>The system\<close>

text \<open>
  A state is the buffer and every message sent so far. A message is never taken off the wire, so its
  reply can come late, more than once or not at all. The checkpoint index a reply is served from is any
  truthful one.
\<close>

inductive grid_step ::
  "(fp \<Rightarrow> string) \<Rightarrow> 'e driver \<Rightarrow> open_spec \<Rightarrow> key_spec \<Rightarrow> db_value list list \<Rightarrow> nat
     \<Rightarrow> grid_buffer \<times> command list \<Rightarrow> grid_buffer \<times> command list \<Rightarrow> bool"
  for S D spec key data epoch where
  paint: "ensure rng (length data) epoch b = (ok, b', sent) \<Longrightarrow>
     grid_step S D spec key data epoch (b, wire) (b', wire @ sent)"
| go_to: "gb_mode b = Keyed r \<Longrightarrow> jump_exact ordinal epoch r = (r', sent) \<Longrightarrow>
     grid_step S D spec key data epoch (b, wire) (b\<lparr>gb_mode := Keyed r'\<rparr>, wire @ sent)"
| loaded: "FetchRun epoch fetch limit seq \<in> set wire \<Longrightarrow> points_ok (os_key_cols spec) data idx \<Longrightarrow>
     run_fetch D (spec\<lparr>os_checkpoints := idx\<rparr>) key fetch limit = Some (Inr (rows, est)) \<Longrightarrow>
     grid_step S D spec key data epoch (b, wire) (apply_run S fetch rows est seq (length data) b, wire)"
| page_loaded: "FetchPage off limit epoch \<in> set wire \<Longrightarrow> dv_page D (os_sql spec) off limit None = Inr rows \<Longrightarrow>
     grid_step S D spec key data epoch (b, wire) (insert_page S off rows b, wire)"
| failed: "FetchRun epoch fetch limit seq \<in> set wire \<Longrightarrow>
     grid_step S D spec key data epoch (b, wire) (run_failed seq b, wire)"

definition message_ok :: "nat list \<Rightarrow> db_value list list \<Rightarrow> nat \<Rightarrow> command \<Rightarrow> bool" where
  "message_ok cols data page c \<longleftrightarrow>
     (case c of FetchRun e f limit seq \<Rightarrow> limit = page \<and> fetch_ok cols data f | FetchPage _ _ _ \<Rightarrow> True)"

definition pages_ok :: "(fp \<Rightarrow> string) \<Rightarrow> db_value list list \<Rightarrow> offset_pages \<Rightarrow> bool" where
  "pages_ok S data p \<longleftrightarrow> (\<forall>(k, row) \<in> set (op_rows p). k < length data \<and> row = row_new S (data ! k))"

definition mode_ok ::
  "bool \<Rightarrow> (fp \<Rightarrow> string) \<Rightarrow> open_spec \<Rightarrow> db_value list list \<Rightarrow> nat \<Rightarrow> buffer_mode \<Rightarrow> bool" where
  "mode_ok ex S spec data page m \<longleftrightarrow>
     (case m of
        Keyed r \<Rightarrow> tracks ex S data r \<and> kr_key_cols r = os_key_cols spec \<and> kr_page r = page
      | Offset p \<Rightarrow> pages_ok S data p)"

definition sys_ok ::
  "bool \<Rightarrow> (fp \<Rightarrow> string) \<Rightarrow> open_spec \<Rightarrow> db_value list list \<Rightarrow> nat \<Rightarrow> grid_buffer \<times> command list \<Rightarrow> bool" where
  "sys_ok ex S spec data page s \<longleftrightarrow>
     mode_ok ex S spec data page (gb_mode (fst s)) \<and>
     list_all (message_ok (os_key_cols spec) data page) (snd s)"

lemma mode_ok_Keyed [simp]:
  "mode_ok ex S spec data page (Keyed r) \<longleftrightarrow>
     tracks ex S data r \<and> kr_key_cols r = os_key_cols spec \<and> kr_page r = page"
  by (simp add: mode_ok_def)

lemma mode_ok_Offset [simp]: "mode_ok ex S spec data page (Offset p) \<longleftrightarrow> pages_ok S data p"
  by (simp add: mode_ok_def)

lemma set_update_subset: "set (AList.update k v al) \<subseteq> Set.insert (k, v) (set al)"
  by (induction al) auto

lemma pages_ok_insert:
  assumes "pages_ok S data p" "rows = take limit (drop off data)"
  shows "pages_ok S data (p\<lparr>op_requested := q,
    op_rows := fold (\<lambda>(i, vals). AList.update (off + i) (row_new S vals)) (enumerate m (drop m rows)) (op_rows p)\<rparr>)"
  using assms(1)
proof (induction "length rows - m" arbitrary: m p)
  case 0
  then show ?case by (simp add: pages_ok_def)
next
  case (Suc n)
  have m: "m < length rows" using Suc(2) by simp
  have "off + m < length data \<and> rows ! m = data ! (off + m)" using m by (auto simp: assms(2))
  then have "pages_ok S data (p\<lparr>op_rows := AList.update (off + m) (row_new S (rows ! m)) (op_rows p)\<rparr>)"
    using Suc.prems set_update_subset [of "off + m" "row_new S (rows ! m)" "op_rows p"] by (auto simp: pages_ok_def)
  moreover have "n = length rows - Suc m" using Suc(2) by simp
  ultimately show ?case using Suc(1) m by (fastforce simp: Cons_nth_drop_Suc [symmetric])
qed

lemma request_page_rows: "op_rows (fst (request_page n epoch page st)) = op_rows (fst st) \<and>
    (\<forall>c \<in> set (snd (request_page n epoch page st)). c \<in> set (snd st) \<or> (\<exists>a b e. c = FetchPage a b e))"
  by (auto simp: request_page_def Let_def split: prod.splits)

lemma request_pages_rows: "op_rows (fst (fold (request_page n epoch) ps st)) = op_rows (fst st) \<and>
    (\<forall>c \<in> set (snd (fold (request_page n epoch) ps st)). c \<in> set (snd st) \<or> (\<exists>a b e. c = FetchPage a b e))"
proof (induction ps arbitrary: st)
  case (Cons q ps)
  from Cons [of "request_page n epoch q st"] request_page_rows [of n epoch q st] show ?case by fastforce
qed simp

lemma ensure_offset:
  assumes "ensure rng n epoch b = (ok, b', sent)" "gb_mode b = Offset p"
  obtains p' where "gb_mode b' = Offset p'"
    "op_rows p' = op_rows (pages_evict (fst rng - MARGIN_PAGES * gb_page b) (min (snd rng + MARGIN_PAGES * gb_page b) n) p)"
    "\<forall>c \<in> set sent. \<exists>a l e. c = FetchPage a l e"
proof -
  define lo hi where "lo = fst rng - MARGIN_PAGES * gb_page b" and "hi = min (snd rng + MARGIN_PAGES * gb_page b) n"
  define q where "q = pages_evict lo hi p"
  obtain p2 sent2 where p2: "pages_request rng n epoch q = (p2, sent2)" by fastforce
  have "op_rows p2 = op_rows q" "\<forall>c \<in> set sent2. \<exists>a l e. c = FetchPage a l e"
    using request_pages_rows [of n epoch "[fst rng div op_page q..<Suc ((snd rng - 1) div op_page q)]" "(q, [])"] p2
    by (auto simp: pages_request_def)
  moreover have "gb_mode b' = Offset q \<and> sent = [] \<or> gb_mode b' = Offset p2 \<and> sent = sent2"
    using assms p2 by (auto simp: ensure_def Let_def mode_evict_def mode_unhalt_def mode_request_def
        lo_def [symmetric] hi_def [symmetric] q_def [symmetric] split: if_splits)
  ultimately show ?thesis using that by (auto simp: q_def lo_def hi_def)
qed

lemma evict_fields [simp]:
  "kr_key_cols (evict lo hi r) = kr_key_cols r" "kr_page (evict lo hi r) = kr_page r"
  "kr_pending (evict lo hi r) = kr_pending r" "kr_seq (evict lo hi r) = kr_seq r"
  "kr_halted (evict lo hi r) = kr_halted r" "kr_estimated (evict lo hi r) = kr_estimated r"
  by (simp_all add: evict_def evict_back_eq evict_front_eq Let_def)

lemma run_apply_fields [simp]:
  "kr_key_cols (run_apply S fetch rows est seq n r) = kr_key_cols r"
  "kr_page (run_apply S fetch rows est seq n r) = kr_page r"
  by (auto simp: run_apply_def Let_def split: run_fetch.splits)

lemma issue_keeps:
  assumes "issue f epoch r = (r', sent)" "tracks ex S data r" "fetch_ok (kr_key_cols r) data f"
  shows "tracks ex S data r'" "kr_key_cols r' = kr_key_cols r" "kr_page r' = kr_page r"
    "list_all (message_ok (kr_key_cols r) data (kr_page r)) sent"
  using issue_fields [OF assms(1)] assms(2,3) by (auto simp: message_ok_def)

lemma run_request_keeps:
  assumes "run_request rng n epoch r = (r', sent)" "tracks ex S data r"
  shows "tracks ex S data r' \<and> kr_key_cols r' = kr_key_cols r \<and> kr_page r' = kr_page r \<and>
    list_all (message_ok (kr_key_cols r) data (kr_page r)) sent"
  using assms(1)
proof (cases rule: run_request_cases)
  case idle
  with assms(2) show ?thesis by simp
next
  case (sent f)
  obtain off where "window S data off r" using assms(2) by (auto simp: tracks_def)
  with sent(3) have "fetch_ok (kr_key_cols r) data f" by (rule may_ask_ok)
  from issue_keeps [OF sent(1) assms(2) this] show ?thesis by simp
qed

text \<open>What a paint does to a keyed buffer: it evicts, may lift a halt, and may ask.\<close>

definition evicted :: "nat \<times> nat \<Rightarrow> nat \<Rightarrow> grid_buffer \<Rightarrow> keyed_run \<Rightarrow> keyed_run" where
  "evicted rng n b r = evict (fst rng - MARGIN_PAGES * gb_page b) (min (snd rng + MARGIN_PAGES * gb_page b) n) r"

definition unhalted :: "nat \<times> nat \<Rightarrow> grid_buffer \<Rightarrow> keyed_run \<Rightarrow> keyed_run" where
  "unhalted rng b r = (if kr_halted r \<and> gb_last_start b \<noteq> Some (fst rng) then r\<lparr>kr_halted := False\<rparr> else r)"

definition settled :: "nat \<times> nat \<Rightarrow> grid_buffer \<Rightarrow> bool" where
  "settled rng b = (case gb_last_start b of None \<Rightarrow> True
     | Some prev \<Rightarrow> abs_diff (fst rng) prev \<le> FLING_PAGES * gb_page b)"

lemma ensure_keyed_eq:
  assumes "gb_mode b = Keyed r"
  shows "ensure rng n epoch b =
    (if snd rng \<le> fst rng then (True, b\<lparr>gb_mode := Keyed (evicted rng n b r)\<rparr>, [])
     else
       let h = unhalted rng b (evicted rng n b r); b1 = b\<lparr>gb_mode := Keyed h, gb_last_start := Some (fst rng)\<rparr> in
       if settled rng b then (True, b1\<lparr>gb_mode := Keyed (fst (run_request rng n epoch h))\<rparr>, snd (run_request rng n epoch h))
       else (False, b1, []))"
  unfolding ensure_def evicted_def [symmetric] unhalted_def settled_def
  by (simp add: assms Let_def mode_evict_def mode_unhalt_def mode_request_def evicted_def [symmetric]
      case_prod_beta split: option.splits)

lemma ensure_ok:
  assumes "ensure rng (length data) epoch b = (ok, b', sent)" "sys_ok ex S spec data page (b, wire)"
  shows "sys_ok ex S spec data page (b', wire @ sent)"
proof (cases "gb_mode b")
  case (Offset p)
  obtain p' where p': "gb_mode b' = Offset p'" "set (op_rows p') \<subseteq> set (op_rows p)"
    "\<forall>c \<in> set sent. \<exists>a l e. c = FetchPage a l e"
    by (rule ensure_offset [OF assms(1) Offset]) (auto simp: pages_evict_def)
  have "list_all (message_ok (os_key_cols spec) data page) sent"
    using p'(3) by (fastforce simp: list_all_iff message_ok_def)
  with p'(1,2) assms(2) Offset show ?thesis by (auto simp: sys_ok_def pages_ok_def)
next
  case (Keyed r)
  with assms(2) have r: "gb_mode b = Keyed r" "tracks ex S data r" "kr_key_cols r = os_key_cols spec" "kr_page r = page"
    by (auto simp: sys_ok_def)
  define e h where "e = evicted rng (length data) b r" and "h = unhalted rng b e"
  have e: "tracks ex S data e" "kr_key_cols e = os_key_cols spec" "kr_page e = page"
    using r by (simp_all add: e_def evicted_def tracks_evict)
  then have h: "tracks ex S data h" "kr_key_cols h = os_key_cols spec" "kr_page h = page"
    by (simp_all add: h_def unhalted_def)
  obtain r2 sent2 where q: "run_request rng (length data) epoch h = (r2, sent2)" by fastforce
  note keeps = run_request_keeps [OF q h(1)]
  have "gb_mode b' = Keyed e \<and> sent = [] \<or> gb_mode b' = Keyed h \<and> sent = [] \<or> gb_mode b' = Keyed r2 \<and> sent = sent2"
    using assms(1) by (auto simp: ensure_keyed_eq [OF r(1)] e_def [symmetric] h_def [symmetric] q Let_def split: if_splits)
  with e h keeps assms(2) show ?thesis by (auto simp: sys_ok_def)
qed

lemma sys_ok_step:
  assumes "grid_step S D spec key data epoch s s'" "sys_ok ex S spec data page s"
    and "honest D spec key data" "keys_unique (os_key_cols spec) data"
    and "ex \<Longrightarrow> interpolable spec key False = None"
  shows "sys_ok ex S spec data page s'"
  using assms(1)
proof cases
  case (paint rng b ok b' sent wire)
  with assms(2) ensure_ok show ?thesis by blast
next
  case (go_to b r ordinal r' sent wire)
  have "tracks ex S data (r\<lparr>kr_rows := [], kr_at_start := False, kr_at_end := False, kr_estimated := False, kr_halted := False\<rparr>)"
    by (rule tracksI [of _ _ 0]) (auto simp: window_def)
  from issue_keeps [OF go_to(4) [unfolded jump_exact_def] this] assms(2) go_to(1-3) show ?thesis
    by (auto simp: sys_ok_def)
next
  case (loaded fetch limit seq wire idx rows est b)
  show ?thesis
  proof (cases "gb_mode b")
    case (Offset p)
    with assms(2) loaded(1,2) show ?thesis by (simp add: sys_ok_def apply_run_def)
  next
    case (Keyed r)
    with assms(2) loaded(1) have r: "tracks ex S data r" "kr_key_cols r = os_key_cols spec" "kr_page r = page"
      by (auto simp: sys_ok_def)
    have m: "limit = kr_page r" "fetch_ok (os_key_cols spec) data fetch"
      using assms(2) loaded(1,3) r(3) by (auto simp: sys_ok_def list_all_iff message_ok_def)
    have "tracks ex S data (run_apply S fetch rows est seq (length data) r)"
      using tracks_apply [of D "spec\<lparr>os_checkpoints := idx\<rparr>" key data ex S r fetch rows est seq] loaded(4,5) r m assms(3-5)
      by (simp add: honest_def interpolable_def)
    with assms(2) loaded(1,2) r Keyed show ?thesis by (simp add: sys_ok_def apply_run_def)
  qed
next
  case (page_loaded off limit wire rows b)
  have "rows = take limit (drop off data)" using honest_seek(7) [OF assms(3) page_loaded(4)] .
  from pages_ok_insert [OF _ this, where m = 0] assms(2) page_loaded(1,2) show ?thesis
    by (auto simp: sys_ok_def insert_page_def split: buffer_mode.splits)
next
  case (failed fetch limit seq wire b)
  with assms(2) show ?thesis by (auto simp: sys_ok_def run_failed_def split: buffer_mode.splits)
qed

lemma sys_ok_run:
  assumes "(grid_step S D spec key data epoch)\<^sup>*\<^sup>* s s'" "sys_ok ex S spec data page s"
    and "honest D spec key data" "keys_unique (os_key_cols spec) data"
    and "ex \<Longrightarrow> interpolable spec key False = None"
  shows "sys_ok ex S spec data page s'"
  using assms(1,2) by (induction rule: rtranclp_induct) (auto intro: sys_ok_step [OF _ _ assms(3-5)])

text \<open>The buffer a keyed result starts with.\<close>

definition keyed_buffer :: "nat list \<Rightarrow> nat \<Rightarrow> grid_buffer" where
  "keyed_buffer cols page = \<lparr>gb_mode = Keyed (run_new cols page), gb_page = page, gb_last_start = None\<rparr>"

text \<open>\<^verbatim>\<open>on_ready\<close> opens an offset buffer, and turns it into a keyed one where the service resolved a key.\<close>

definition opened :: "nat list \<Rightarrow> nat \<Rightarrow> grid_buffer \<Rightarrow> bool" where
  "opened cols page b \<longleftrightarrow> b = buffer_new page \<or> b = keyed_buffer cols page"

lemma opened_ok:
  assumes "opened (os_key_cols spec) page b"
  shows "sys_ok ex S spec data page (b, [])"
proof -
  have "tracks ex S data (run_new (os_key_cols spec) page)"
    by (rule tracksI [of _ _ 0]) (auto simp: run_new_def window_def)
  with assms show ?thesis
    by (auto simp: opened_def sys_ok_def keyed_buffer_def buffer_new_def offset_new_def Let_def pages_ok_def run_new_def)
qed

text \<open>A first paint of the small table and its reply.\<close>

abbreviation demo_step :: "grid_buffer \<times> command list \<Rightarrow> grid_buffer \<times> command list \<Rightarrow> bool" where
  "demo_step \<equiv> grid_step (\<lambda>_. []) (list_driver 0 demo_rows) demo_spec (key_single ''id'' KeyInt) demo_rows 7"

definition demo_painted :: grid_buffer where
  "demo_painted = fst (snd (ensure (0, 2) 3 7 (keyed_buffer [0] 2)))"

definition demo_loaded :: grid_buffer where
  "demo_loaded = apply_run (\<lambda>_. []) (Forward None) (take 2 demo_rows) False 1 3 demo_painted"

lemma demo_run: "demo_step\<^sup>*\<^sup>* (keyed_buffer (os_key_cols demo_spec) 2, []) (demo_loaded, [FetchRun 7 (Forward None) 2 1])"
proof -
  have cols: "os_key_cols demo_spec = [0]" and n: "length demo_rows = 3" by (simp_all add: demo_spec_def demo_rows_def)
  have "ensure (0, 2) (length demo_rows) 7 (keyed_buffer [0] 2) = (True, demo_painted, [FetchRun 7 (Forward None) 2 1])"
    by (simp add: demo_painted_def n keyed_buffer_def run_new_def ensure_keyed_eq settled_def unhalted_def evicted_def
        evict_def evict_front_eq evict_back_eq Let_def run_request_def issue_def)
  from grid_step.paint [OF this, of "\<lambda>_. []" "list_driver 0 demo_rows" demo_spec "key_single ''id'' KeyInt" "[]"]
  have 1: "demo_step (keyed_buffer (os_key_cols demo_spec) 2, []) (demo_painted, [FetchRun 7 (Forward None) 2 1])"
    by (simp add: cols)
  have "run_fetch (list_driver 0 demo_rows) (demo_spec\<lparr>os_checkpoints := os_checkpoints demo_spec\<rparr>)
      (key_single ''id'' KeyInt) (Forward None) 2 = Some (Inr (take 2 demo_rows, False))"
    by (simp add: run_fetch_def list_driver_def with_estimate_def)
  from grid_step.loaded [OF _ demo_points [folded cols] this, of 7 1 "[FetchRun 7 (Forward None) 2 1]" "\<lambda>_. []" demo_painted]
  have 2: "demo_step (demo_painted, [FetchRun 7 (Forward None) 2 1]) (demo_loaded, [FetchRun 7 (Forward None) 2 1])"
    by (simp add: demo_loaded_def n)
  from 1 2 show ?thesis by (meson r_into_rtranclp rtranclp_trans)
qed

lemma demo_row: "buffer_row demo_loaded 1 = Some (row_new (\<lambda>_. []) [Integer 5])"
  by (simp add: demo_loaded_def demo_painted_def keyed_buffer_def run_new_def ensure_keyed_eq settled_def unhalted_def
      evicted_def evict_def evict_front_eq evict_back_eq Let_def run_request_def issue_def apply_run_def run_apply_def
      last_key_def buffer_row_def keyed_row_def demo_rows_def)

lemma demo_opened: "opened (os_key_cols demo_spec) 2 (keyed_buffer (os_key_cols demo_spec) 2)"
  by (simp add: opened_def)

lemma demo_unique: "keys_unique (os_key_cols demo_spec) demo_rows"
  using list_driver_keys_unique [OF demo_rows_keyed] by (simp add: keys_unique_def demo_spec_def)



text \<open>
  Even where jumps are interpolated the run never has a hole or a foreign row: after any interleaving,
  the resident rows are consecutive rows of the result, shown at consecutive ordinals.
\<close>

theorem grid_rows_are_consecutive:
  assumes "honest D spec key data" "keys_unique (os_key_cols spec) data"
    and "opened (os_key_cols spec) page b0"
    and "(grid_step S D spec key data epoch)\<^sup>*\<^sup>* (b0, []) (b, wire)"
  shows "\<exists>first off. \<forall>ix row. buffer_row b ix = Some row \<longrightarrow>
    first \<le> ix \<and> off + (ix - first) < length data \<and> row = row_new S (data ! (off + (ix - first)))"
proof -
  have "sys_ok False S spec data page (b, wire)"
    by (rule sys_ok_run [OF assms(4) opened_ok [OF assms(3)] assms(1,2)]) simp
  then have ok: "mode_ok False S spec data page (gb_mode b)" by (simp add: sys_ok_def)
  show ?thesis
  proof (cases "gb_mode b")
    case (Offset p)
    with ok have "\<forall>ix row. buffer_row b ix = Some row \<longrightarrow> ix < length data \<and> row = row_new S (data ! ix)"
      by (auto simp: buffer_row_def pages_ok_def dest: map_of_SomeD)
    then show ?thesis by (intro exI [of _ 0]) simp
  next
    case (Keyed r)
    with ok obtain off where r: "window S data off r" by (auto simp: tracks_def)
    have "kr_anchor r \<le> ix \<and> off + (ix - kr_anchor r) < length data \<and> row = row_new S (data ! (off + (ix - kr_anchor r)))"
      if "buffer_row b ix = Some row" for ix row
      using that r Keyed by (auto simp: buffer_row_def keyed_row_def window_def split: if_splits)
    then show ?thesis by blast
  qed
qed

lemma grid_rows_are_consecutive_witness:
  "\<exists>first off. \<forall>ix row. buffer_row demo_loaded ix = Some row \<longrightarrow>
     first \<le> ix \<and> off + (ix - first) < length demo_rows \<and> row = row_new (\<lambda>_. []) (demo_rows ! (off + (ix - first)))"
  using grid_rows_are_consecutive [OF demo_facts(1) demo_unique demo_opened demo_run] .

end
