(* ===== verification/Grid_Live.thy ===== *)
theory Grid_Live
  imports Grid_System
begin

text \<open>
  The grid over time: the buffer stays small, and a viewport that stands still is filled after finitely
  many paints, each answered before the next. The last section holds the cases where the code falls
  short of its comments: a page superseded by its neighbour, an estimate taken for exact, and a jump to
  the first row that misses it.
\<close>

section \<open>Memory\<close>

definition pages_distinct :: "grid_buffer \<Rightarrow> bool" where
  "pages_distinct b = (case gb_mode b of Offset p \<Rightarrow> distinct (map fst (op_rows p)) | Keyed _ \<Rightarrow> True)"

lemma evicted_bounds:
  assumes "kr_rows (evict lo hi r) \<noteq> []"
  shows "lo \<le> kr_anchor (evict lo hi r)" "kr_anchor (evict lo hi r) + length (kr_rows (evict lo hi r)) \<le> hi"
  using assms by (auto simp: evict_def evict_back_eq evict_front_eq Let_def)

lemma run_request_rows: "kr_rows (fst (run_request rng n epoch r)) = kr_rows r"
  using run_request_shape [of rng n epoch r] by (auto simp: issue_def Let_def)

lemma run_request_anchor: "kr_anchor (fst (run_request rng n epoch r)) = kr_anchor r"
  using run_request_shape [of rng n epoch r] by (auto simp: issue_def Let_def)

lemma pages_evict_length:
  assumes "distinct (map fst (op_rows p))"
  shows "length (op_rows (pages_evict lo hi p)) \<le> hi - lo"
proof -
  have "set (map fst (op_rows (pages_evict lo hi p))) \<subseteq> {lo..<hi}" by (auto simp: pages_evict_def)
  moreover have d: "distinct (map fst (op_rows (pages_evict lo hi p)))"
    using assms by (simp add: pages_evict_def distinct_map_filter)
  ultimately have "card (set (map fst (op_rows (pages_evict lo hi p)))) \<le> card {lo..<hi}" by (intro card_mono) auto
  with d show ?thesis by (metis card_atLeastLessThan distinct_card length_map)
qed

lemma run_apply_length: "length (kr_rows (run_apply S fetch rows est seq n r)) \<le> length (kr_rows r) + length rows"
  by (auto simp: run_apply_def Let_def fold_Cons_rev split: run_fetch.splits)



section \<open>Progress\<close>

text \<open>One paint, with every message it sends answered before the next paint.\<close>

definition deliver ::
  "(fp \<Rightarrow> string) \<Rightarrow> 'e driver \<Rightarrow> open_spec \<Rightarrow> key_spec \<Rightarrow> nat \<Rightarrow> command \<Rightarrow> grid_buffer \<Rightarrow> grid_buffer" where
  "deliver S D spec key n c b =
     (case c of
        FetchRun e f l seq \<Rightarrow>
          (case run_fetch D spec key f l of
             Some (Inr (rows, est)) \<Rightarrow> apply_run S f rows est seq n b
           | Some (Inl _) \<Rightarrow> run_failed seq b
           | None \<Rightarrow> b)
      | FetchPage off l e \<Rightarrow>
          (case dv_page D (os_sql spec) off l None of Inr rows \<Rightarrow> insert_page S off rows b | Inl _ \<Rightarrow> b))"

definition paint_round ::
  "(fp \<Rightarrow> string) \<Rightarrow> 'e driver \<Rightarrow> open_spec \<Rightarrow> key_spec \<Rightarrow> nat \<Rightarrow> nat \<Rightarrow> nat \<times> nat \<Rightarrow> grid_buffer \<Rightarrow> grid_buffer" where
  "paint_round S D spec key n epoch rng b =
     (case ensure rng n epoch b of (ok, b', sent) \<Rightarrow> fold (deliver S D spec key n) sent b')"

definition reliable :: "'e driver \<Rightarrow> bool" where
  "reliable D \<longleftrightarrow>
     (\<forall>sql key b d l. \<exists>rows. dv_seek D sql key b d l = Inr rows) \<and>
     (\<forall>sql key b k l. \<exists>rows. dv_seek_skip D sql key b k l = Inr rows) \<and>
     (\<forall>sql o1 l k. \<exists>rows. dv_page D sql o1 l k = Inr rows)"

text \<open>The run is ready to be asked: nothing in flight, nothing halted, not known to be empty.\<close>

definition ready :: "(fp \<Rightarrow> string) \<Rightarrow> open_spec \<Rightarrow> db_value list list \<Rightarrow> nat \<Rightarrow> keyed_run \<Rightarrow> bool" where
  "ready S spec data page r \<longleftrightarrow>
     tracks True S data r \<and> kr_key_cols r = os_key_cols spec \<and> kr_page r = page \<and>
     kr_pending r = None \<and> \<not> kr_halted r \<and> (kr_rows r = [] \<longrightarrow> \<not> kr_at_end r)"

definition far :: "nat \<Rightarrow> nat \<times> nat \<Rightarrow> keyed_run \<Rightarrow> bool" where
  "far page rng r \<longleftrightarrow>
     kr_rows r = [] \<or> kr_anchor r + length (kr_rows r) + 2 * page \<le> fst rng \<or> snd rng + 2 * page \<le> kr_anchor r"

text \<open>How far the run is from covering the viewport.\<close>

definition shortfall :: "nat \<Rightarrow> nat \<Rightarrow> nat \<times> nat \<Rightarrow> keyed_run \<Rightarrow> nat" where
  "shortfall n page rng r =
     (if far page rng r then 2 * n + 1
      else (kr_anchor r - fst rng) + (snd rng - (kr_anchor r + length (kr_rows r))))"

lemma shortfall_zero:
  "shortfall n page rng r = 0 \<longleftrightarrow>
     \<not> far page rng r \<and> kr_anchor r \<le> fst rng \<and> snd rng \<le> kr_anchor r + length (kr_rows r)"
  by (auto simp: shortfall_def)

lemma ready_window:
  assumes "ready S spec data page r" "kr_rows r \<noteq> []"
  shows "window S data (kr_anchor r) r" "kr_at_start r \<longrightarrow> kr_anchor r = 0"
    "kr_anchor r + length (kr_rows r) \<le> length data"
    "kr_at_end r \<longrightarrow> kr_anchor r + length (kr_rows r) = length data"
  using assms by (auto simp: ready_def tracks_def window_def)

lemma ready_evict:
  assumes "ready S spec data page r" "fst rng < snd rng" "snd rng \<le> length data" "0 < page"
  defines "v \<equiv> evict (fst rng - 2 * page) (min (snd rng + 2 * page) (length data)) r"
  shows "ready S spec data page v \<and> shortfall (length data) page rng v = shortfall (length data) page rng r"
proof -
  define m where "m = 2 * page"
  define k where "k = min (fst rng - m - kr_anchor r) (length (kr_rows r))"
  define t where "t = min (length (kr_rows r) - k) (min (snd rng + m) (length data) - (kr_anchor r + k))"
  have v: "kr_rows v = take t (drop k (kr_rows r))" "kr_anchor v = kr_anchor r + k"
    "kr_at_end v = (kr_at_end r \<and> t = length (kr_rows r) - k)"
    by (simp_all add: v_def evict_def evict_back_eq evict_front_eq Let_def m_def k_def t_def)
  have len: "length (kr_rows v) = t" by (auto simp: v(1) t_def)
  have tracks: "tracks True S data v" using assms(1) by (simp add: ready_def v_def tracks_evict)
  have "kr_rows v = [] \<longrightarrow> \<not> kr_at_end v"
  proof (cases "kr_rows r = []")
    case True
    with assms(1) show ?thesis by (simp add: ready_def v(3))
  next
    case False
    then have "0 < length (kr_rows r)" by simp
    then have "kr_at_end r \<longrightarrow> k < length (kr_rows r)"
      using ready_window(4) [OF assms(1) False] assms(2,3) unfolding k_def min_def by (auto, linarith)
    with len v(3) show ?thesis by auto
  qed
  with tracks assms(1) have ready: "ready S spec data page v" by (simp add: ready_def v_def)
  have "shortfall (length data) page rng v = shortfall (length data) page rng r"
  proof (cases "far page rng r")
    case True
    then have "length (kr_rows r) \<le> k \<or> min (snd rng + m) (length data) \<le> kr_anchor r + k"
      unfolding far_def k_def m_def by (elim disjE) (simp, linarith, linarith)
    then have "t = 0" unfolding t_def by linarith
    with len have "far page rng v" by (simp add: far_def)
    with True show ?thesis by (simp add: shortfall_def)
  next
    case False
    then have near: "kr_rows r \<noteq> []" "fst rng < kr_anchor r + length (kr_rows r) + m" "kr_anchor r < snd rng + m"
      by (auto simp: far_def m_def)
    note w = ready_window(3) [OF assms(1) near(1)]
    have pos: "0 < length (kr_rows r)" using near(1) by simp
    have k: "k < length (kr_rows r)" "kr_anchor r + k = max (kr_anchor r) (fst rng - m)"
      unfolding k_def using near(2,3) pos by linarith+
    have lt: "kr_anchor r + k < min (snd rng + m) (length data)"
      using k w near(3) assms(2,3) by linarith
    then have "0 < t" and t: "kr_anchor r + k + t = min (kr_anchor r + length (kr_rows r)) (min (snd rng + m) (length data))"
      unfolding t_def using k(1) by linarith+
    moreover have "\<not> kr_anchor r + k + t + m \<le> fst rng" using t near(2) assms(2,3) by linarith
    moreover have "\<not> snd rng + m \<le> kr_anchor r + k" using lt by linarith
    ultimately have "\<not> far page rng v" using len by (auto simp: far_def v(2) m_def [symmetric])
    moreover have "kr_anchor r + k - fst rng = kr_anchor r - fst rng" using k(2) by linarith
    moreover have "snd rng - (kr_anchor r + k + t) = snd rng - (kr_anchor r + length (kr_rows r))"
      using t assms(3) by linarith
    ultimately show ?thesis using False by (simp add: shortfall_def v(2) len)
  qed
  with ready show ?thesis by blast
qed

lemma key_eq_row:
  assumes "keys_unique cols data" "i < length data"
  shows "key_eq (Some (tuple_at cols (data ! i))) (Some (tuple_at cols (data ! i)))"
  using assms by (simp add: keys_unique_def)

lemma reliable_reply:
  assumes "reliable D" "interpolable spec key False = None"
  shows "\<exists>rows est. run_fetch D spec key fetch limit = Some (Inr (rows, est))"
proof -
  have seek: "\<exists>rows. dv_seek D sql k b d l = Inr rows" "\<exists>rows. dv_seek_skip D sql k b sk l = Inr rows"
    "\<exists>rows. dv_page D sql o1 l ko = Inr rows" for sql k b d l sk o1 ko
    using assms(1) by (auto simp: reliable_def)
  have jump: "\<exists>rows. exact_jump D spec key ordinal exact limit = Inr rows" for ordinal exact
    using seek by (auto simp: exact_jump_def Let_def split: option.splits)
  have ie: "interpolable spec key exact = None" for exact
    using assms(2) by (cases exact) (auto simp: interpolable_def split: option.splits)
  show ?thesis
  proof (cases fetch)
    case (Forward after)
    obtain rows where "dv_seek D (os_sql spec) key after Asc limit = Inr rows" using seek(1) by blast
    then show ?thesis by (auto simp: Forward run_fetch_def with_estimate_def)
  next
    case (Backward before)
    obtain rows where "dv_seek D (os_sql spec) key (Some before) Desc limit = Inr rows" using seek(1) by blast
    then show ?thesis by (auto simp: Backward run_fetch_def with_estimate_def)
  next
    case (Jump ordinal exact)
    obtain rows where "exact_jump D spec key ordinal exact limit = Inr rows" using jump by blast
    then show ?thesis by (auto simp: Jump run_fetch_def with_estimate_def ie)
  qed
qed

text \<open>What is asked while the viewport is not covered.\<close>

lemma request_when_short:
  assumes "ready S spec data page r" "0 < shortfall (length data) page rng r"
    and "fst rng < snd rng" "snd rng \<le> length data" "0 < page"
  obtains (seed) "kr_rows r = []" "fst rng = 0" "run_request rng (length data) epoch r = issue (Forward None) epoch r"
  | (jump) "far page rng r" "run_request rng (length data) epoch r = issue (Jump (fst rng) False) epoch r"
  | (bwd) "\<not> far page rng r" "fst rng < kr_anchor r"
      "run_request rng (length data) epoch r = issue (Backward (tuple_at (os_key_cols spec) (data ! kr_anchor r))) epoch r"
  | (fwd) "\<not> far page rng r" "kr_anchor r \<le> fst rng" "kr_anchor r + length (kr_rows r) < snd rng"
      "run_request rng (length data) epoch r =
         issue (Forward (Some (tuple_at (os_key_cols spec) (data ! (kr_anchor r + length (kr_rows r) - 1))))) epoch r"
proof (cases "kr_rows r = []")
  case True
  with assms(1) seed jump show ?thesis by (cases "fst rng = 0") (auto simp: ready_def run_request_def Let_def far_def)
next
  case False
  have r: "kr_pending r = None" "\<not> kr_halted r" "kr_page r = page" "kr_key_cols r = os_key_cols spec"
    using assms(1) by (simp_all add: ready_def)
  note w = ready_window [OF assms(1) False]
  note keys = window_keys(1,2) [OF w(1) False, unfolded r(4)]
  show ?thesis
  proof (cases "far page rng r")
    case True
    with False r jump show ?thesis by (auto simp: run_request_def Let_def far_def JUMP_PAGES_def)
  next
    case near: False
    then have n: "\<not> (kr_anchor r + length (kr_rows r) + 2 * page \<le> fst rng \<or> snd rng + 2 * page \<le> kr_anchor r)"
      by (auto simp: far_def)
    show ?thesis
    proof (cases "fst rng < kr_anchor r")
      case True
      with w(2) have "\<not> kr_at_start r" by auto
      moreover have "fst rng - 2 * page < kr_anchor r" using True by simp
      ultimately have "run_request rng (length data) epoch r =
          issue (Backward (tuple_at (os_key_cols spec) (data ! kr_anchor r))) epoch r"
        using True False r n keys(1) by (simp add: run_request_def Let_def JUMP_PAGES_def MARGIN_PAGES_def)
      with near True show ?thesis by (rule bwd)
    next
      case covered: False
      with near assms(2) have short: "kr_anchor r + length (kr_rows r) < snd rng" by (auto simp: shortfall_def)
      with w(4) assms(4) have "\<not> kr_at_end r" by auto
      moreover have "kr_anchor r + length (kr_rows r) < min (snd rng + 2 * page) (length data)" using short assms(4) by simp
      ultimately have "run_request rng (length data) epoch r =
          issue (Forward (Some (tuple_at (os_key_cols spec) (data ! (kr_anchor r + length (kr_rows r) - 1))))) epoch r"
        using covered False r n keys(2) by (simp add: run_request_def Let_def JUMP_PAGES_def MARGIN_PAGES_def)
      with near covered short show ?thesis by (intro fwd) auto
    qed
  qed
qed

lemma run_apply_answered:
  assumes "kr_pending r = Some seq"
  shows "kr_pending (run_apply S f rows est seq n r) = None" "kr_halted (run_apply S f rows est seq n r) = kr_halted r"
  using assms by (auto simp: run_apply_def Let_def split: run_fetch.splits)

lemma near_shortfall:
  assumes "kr_rows r \<noteq> []" "fst rng < kr_anchor r + length (kr_rows r) + 2 * page" "kr_anchor r < snd rng + 2 * page"
  shows "shortfall n page rng r = (kr_anchor r - fst rng) + (snd rng - (kr_anchor r + length (kr_rows r)))"
  using assms by (auto simp: shortfall_def far_def)

lemma landed_shortfall:
  assumes "kr_rows r \<noteq> []" "kr_anchor r = fst rng" "snd rng \<le> n" "fst rng < snd rng" "0 < page"
  shows "shortfall n page rng r < 2 * n + 1"
proof -
  have "shortfall n page rng r = (kr_anchor r - fst rng) + (snd rng - (kr_anchor r + length (kr_rows r)))"
    using assms by (intro near_shortfall) auto
  with assms(2,3) show ?thesis by simp
qed

lemma reply_progress:
  assumes env: "honest D spec key data" "points_ok (os_key_cols spec) data (os_checkpoints spec)"
      "keys_unique (os_key_cols spec) data" "interpolable spec key False = None"
    and ready: "ready S spec data page r" "0 < shortfall (length data) page rng r"
    and rng: "fst rng < snd rng" "snd rng \<le> length data" "0 < page"
    and req: "run_request rng (length data) epoch r = issue f epoch r" "issue f epoch r = (r1, sent)"
    and reply: "run_fetch D spec key f page = Some (Inr (rows, est))"
    and r': "r' = run_apply S f rows est (kr_seq r + 1) (length data) r1"
  shows "shortfall (length data) page rng r' < shortfall (length data) page rng r \<and> kr_rows r' \<noteq> []"
proof -
  have r1: "r1 = r\<lparr>kr_seq := kr_seq r + 1, kr_pending := Some (kr_seq r + 1)\<rparr>" using issue_fields [OF req(2)] by simp
  have p: "kr_pending r1 = Some (kr_seq r + 1)" "kr_page r1 = page" "kr_rows r1 = kr_rows r" "kr_anchor r1 = kr_anchor r"
    using ready(1) by (simp_all add: r1 ready_def)
  have keys: "first_key r1 = first_key r" "last_key r1 = last_key r"
    by (simp_all add: r1 first_key_def last_key_def cong: list.case_cong)
  have cols: "kr_key_cols r = os_key_cols spec" using ready(1) by (simp add: ready_def)
  have inj: "f = g" if "issue f epoch r = issue g epoch r" for g using that by (simp add: issue_def Let_def)
  note rep = run_fetch_reply [OF env(1,2) reply]
  show ?thesis
    using ready rng
  proof (cases rule: request_when_short [where epoch = epoch])
    case seed
    then have f: "f = Forward None" using inj req(1) by simp
    have rows: "rows = take page data" using rep(1) [OF f] .
    have ne: "rows \<noteq> []" using rows rng by (cases data) auto
    have "key_eq None (last_key r1)" using seed(1) by (simp add: last_key_def p(3))
    note fields = apply_forward_fields [OF this p(1) r' [unfolded f]]
    have "kr_anchor r' = 0" using fields(1,4) seed(1) p rows by (simp add: min_def)
    with ne fields(1) seed landed_shortfall [of r' rng "length data" page] rng show ?thesis
      by (auto simp: shortfall_def far_def)
  next
    case jump
    then have f: "f = Jump (fst rng) False" using inj req(1) by simp
    have rows: "rows = take page (drop (fst rng) data)" using rep(5) [OF f env(4)] by simp
    have ne: "rows \<noteq> []" using rows rng by auto
    note fields = apply_jump_fields [OF p(1) r' [unfolded f]]
    have "length rows < page \<longrightarrow> length rows = length data - fst rng" "length rows \<le> length data - fst rng"
      using rows by auto
    then have "kr_anchor r' = fst rng" using fields(4) rng(1,2) by (auto simp: p)
    with ne fields(1) jump(1) landed_shortfall [of r' rng "length data" page] rng show ?thesis
      by (auto simp: shortfall_def)
  next
    case bwd
    then have f: "f = Backward (tuple_at (os_key_cols spec) (data ! kr_anchor r))" using inj req(1) by simp
    have ne: "kr_rows r \<noteq> []" using bwd(1) by (auto simp: far_def)
    note w = ready_window [OF ready(1) ne]
    note wk = window_keys [OF w(1) ne, unfolded cols]
    have rows: "rows = take page (rev (take (kr_anchor r) data))" using rep(3) [OF f wk(4)] .
    have len: "length rows = min page (kr_anchor r)" using wk(4) by (simp add: rows)
    have "key_eq (Some (tuple_at (os_key_cols spec) (data ! kr_anchor r))) (first_key r1)"
      using key_eq_row [OF env(3) wk(4)] by (simp add: keys wk(1))
    note fields = apply_backward_fields [OF ne [folded p(3)] this p(1) r' [unfolded f] refl]
    have a: "kr_anchor r' = kr_anchor r - length rows" using fields(4) len by (auto simp: p)
    have l: "length (kr_rows r') = length (kr_rows r) + length rows" using fields(1) by (simp add: p fold_Cons_rev)
    have "kr_rows r' \<noteq> []" using l ne by auto
    moreover have "shortfall (length data) page rng r' = (kr_anchor r' - fst rng) + (snd rng - (kr_anchor r' + length (kr_rows r')))"
      using bwd(1) a l len calculation by (intro near_shortfall) (auto simp: far_def)
    moreover have "shortfall (length data) page rng r = (kr_anchor r - fst rng) + (snd rng - (kr_anchor r + length (kr_rows r)))"
      using bwd(1) by (simp add: shortfall_def)
    moreover have "0 < length rows" "length rows \<le> kr_anchor r" using len bwd(2) rng(3) by auto
    ultimately show ?thesis using bwd(2) a l by linarith
  next
    case fwd
    define i where "i = kr_anchor r + length (kr_rows r) - 1"
    have f: "f = Forward (Some (tuple_at (os_key_cols spec) (data ! i)))" using inj req(1) fwd(4) by (simp add: i_def)
    have ne: "kr_rows r \<noteq> []" using fwd(1) by (auto simp: far_def)
    note w = ready_window [OF ready(1) ne]
    note wk = window_keys [OF w(1) ne, unfolded cols i_def [symmetric]]
    have i1: "i + 1 = kr_anchor r + length (kr_rows r)" using ne by (cases "kr_rows r") (auto simp: i_def)
    have rows: "rows = take page (drop (kr_anchor r + length (kr_rows r)) data)" using rep(2) [OF f wk(3)] i1 by simp
    have len: "0 < length rows" "length rows \<le> length data - (kr_anchor r + length (kr_rows r))"
      "length rows < page \<longrightarrow> length rows = length data - (kr_anchor r + length (kr_rows r))"
      using rows fwd(3) rng(2,3) by auto
    have "key_eq (Some (tuple_at (os_key_cols spec) (data ! i))) (last_key r1)"
      using key_eq_row [OF env(3) wk(3)] by (simp add: keys wk(2))
    note fields = apply_forward_fields [OF this p(1) r' [unfolded f]]
    have l: "length (kr_rows r') = length (kr_rows r) + length rows" using fields(1) by (simp add: p)
    have a: "kr_anchor r' = kr_anchor r" using fields(4) len w(3) ne by (auto simp: p l)
    have "kr_rows r' \<noteq> []" using l ne by auto
    moreover have "shortfall (length data) page rng r' = (kr_anchor r' - fst rng) + (snd rng - (kr_anchor r' + length (kr_rows r')))"
      using fwd(1) a l calculation by (intro near_shortfall) (auto simp: far_def)
    moreover have "shortfall (length data) page rng r = (kr_anchor r - fst rng) + (snd rng - (kr_anchor r + length (kr_rows r)))"
      using fwd(1) by (simp add: shortfall_def)
    ultimately show ?thesis using fwd(2,3) a l len(1) by linarith
  qed
qed

lemma round_keyed:
  assumes env: "honest D spec key data" "points_ok (os_key_cols spec) data (os_checkpoints spec)"
      "keys_unique (os_key_cols spec) data" "interpolable spec key False = None" "reliable D"
    and rng: "fst rng < snd rng" "snd rng \<le> length data" "0 < page"
    and b: "gb_mode b = Keyed r" "ready S spec data page r" "gb_page b = page" "settled rng b"
    and short: "0 < shortfall (length data) page rng r"
  shows "\<exists>r'. gb_mode (paint_round S D spec key (length data) epoch rng b) = Keyed r' \<and>
    ready S spec data page r' \<and> shortfall (length data) page rng r' < shortfall (length data) page rng r \<and>
    gb_page (paint_round S D spec key (length data) epoch rng b) = page \<and>
    gb_last_start (paint_round S D spec key (length data) epoch rng b) = Some (fst rng)"
proof -
  define v where "v = evicted rng (length data) b r"
  have v: "ready S spec data page v" "shortfall (length data) page rng v = shortfall (length data) page rng r"
    using ready_evict [OF b(2) rng] b(3) by (simp_all add: v_def evicted_def MARGIN_PAGES_def)
  have h: "unhalted rng b v = v" using v(1) by (simp add: unhalted_def ready_def)
  obtain r1 sent where q: "run_request rng (length data) epoch v = (r1, sent)" by fastforce
  have ens: "ensure rng (length data) epoch b = (True, b\<lparr>gb_last_start := Some (fst rng), gb_mode := Keyed r1\<rparr>, sent)"
    using rng(1) b(4) by (simp add: ensure_keyed_eq [OF b(1)] v_def [symmetric] h q Let_def)
  have pos: "0 < shortfall (length data) page rng v" using v(2) short by simp
  obtain f where f: "run_request rng (length data) epoch v = issue f epoch v"
    using v(1) pos rng by (cases rule: request_when_short [where epoch = epoch]) blast+
  then have i: "issue f epoch v = (r1, sent)" using q by simp
  obtain rows est where reply: "run_fetch D spec key f page = Some (Inr (rows, est))"
    using reliable_reply [OF env(5,4)] by blast
  define r' where "r' = run_apply S f rows est (kr_seq v + 1) (length data) r1"
  note prog = reply_progress [OF env(1-4) v(1) pos rng f i reply r'_def]
  have r1: "r1 = v\<lparr>kr_seq := kr_seq v + 1, kr_pending := Some (kr_seq v + 1)\<rparr>"
    and sent: "sent = [FetchRun epoch f page (kr_seq v + 1)]"
    using issue_fields [OF i] v(1) by (simp_all add: ready_def)
  obtain off where "window S data off v" using v(1) by (auto simp: ready_def tracks_def)
  moreover have "may_ask rng v f"
    using run_request_shape [of rng "length data" epoch v] f i by (auto simp: issue_def Let_def)
  ultimately have "fetch_ok (os_key_cols spec) data f"
    using may_ask_ok [of rng v f S data off] v(1) by (simp add: ready_def)
  then have "tracks True S data r'"
    using tracks_apply [OF env(1,2), of True S r1 f rows est "kr_seq v + 1"] v(1) env(3,4) reply
    by (simp add: r1 r'_def ready_def)
  moreover have "kr_pending r' = None" "\<not> kr_halted r'"
    using run_apply_answered [of r1 "kr_seq v + 1"] v(1) by (simp_all add: r'_def r1 ready_def)
  ultimately have "ready S spec data page r'" using prog v(1) by (simp add: ready_def r'_def r1)
  with prog v(2) ens sent reply b(3) show ?thesis
    by (simp add: paint_round_def deliver_def apply_run_def r'_def)
qed

lemma covered_rows:
  assumes "gb_mode b = Keyed r" "shortfall n page rng r = 0" "fst rng \<le> ix" "ix < snd rng"
  shows "buffer_row b ix \<noteq> None"
  using assms by (auto simp: shortfall_zero buffer_row_def keyed_row_def)



section \<open>Where the code falls short\<close>

text \<open>
  Scrolling back from an interpolated jump. When the estimated anchor runs out before the result does,
  the run claims to start at the first row, with exact ordinals, although \<open>off - page\<close> rows precede it.
\<close>

lemma backward_pins_an_estimate:
  assumes "window S data off r" "kr_rows r \<noteq> []" "kr_estimated r" "kr_pending r = Some seq" "0 < kr_page r"
    and "keys_unique (kr_key_cols r) data" "kr_anchor r \<le> kr_page r" "kr_page r < off"
    and "r' = run_apply S (Backward (tuple_at (kr_key_cols r) (data ! off))) (take (kr_page r) (rev (take off data)))
      False seq (length data) r"
  shows "kr_at_start r' \<and> kr_anchor r' = 0 \<and> \<not> kr_estimated r' \<and> kr_rows r' ! 0 = row_new S (data ! (off - kr_page r))"
proof -
  note wk = window_keys [OF assms(1,2)]
  have "key_eq (Some (tuple_at (kr_key_cols r) (data ! off))) (first_key r)"
    using key_eq_row [OF assms(6) wk(4)] by (simp add: wk(1))
  note fields = apply_backward_fields [OF assms(2) this assms(4,9) refl]
  have len: "length (take (kr_page r) (rev (take off data))) = kr_page r" using wk(4) assms(8) by simp
  have "kr_rows r' ! 0 = row_new S (data ! (off - kr_page r))"
    using window_backward [OF assms(1) refl, of "kr_page r"] assms(5,8) len
    by (auto simp: window_def fields(1) fold_Cons_rev)
  then show ?thesis using fields(3-5) len assms(7) by auto
qed

text \<open>
  A jump to the first row of a result whose smallest key needs more than 53 bits: the key rounds up, the
  seek starts behind the first row, and the reply is not marked as an estimate.
\<close>

lemma fp_round_53:
  assumes "pow2 53 \<le> x" "x < pow2 54" "of_int (round_even (x / 2)) * 2 = v" "v < pow2 1024" "0 < v"
  shows "fp_round F64 x = Fin v"
proof -
  have x: "0 < x" using assms(1) pow2_pos [of 53] by linarith
  have "floor_log2 \<bar>x\<bar> = 53" using assms(1,2) x by (intro floor_log2_unique) auto
  from fp_round_Fin [OF this, of 2 F64 v] assms x show ?thesis by (simp add: F64_def pow2_def)
qed

lemma jump_to_first_row_misses_it:
  "run_fetch (list_driver 0 [[Integer (2 ^ 53 + 3)], [Integer (2 ^ 53 + 7)]])
     (demo_spec\<lparr>os_bounds := Some (2 ^ 53 + 3, 2 ^ 53 + 7), os_total := Some 2\<rparr>)
     (key_single ''id'' KeyInt) (Jump 0 False) 1 = Some (Inr ([[Integer (2 ^ 53 + 7)]], False))"
proof -
  have p: "pow2 53 = 9007199254740992" "pow2 54 = 18014398509481984" by (simp_all add: pow2_def power_int_def)
  have big: "x < pow2 1024" if "x < pow2 54" for x using that pow2_mono_iff [of 54 1024] by linarith
  have fl: "\<lfloor>9007199254740995 / 2 :: rat\<rfloor> = 4503599627370497" "\<lfloor>9007199254740999 / 2 :: rat\<rfloor> = 4503599627370499"
    by (rule floor_unique; simp)+
  have "fp_round F64 9007199254740995 = Fin 9007199254740996"
    by (rule fp_round_53) (simp_all add: p big round_even_def fl)
  moreover have "fp_round F64 9007199254740999 = Fin 9007199254741000"
    by (rule fp_round_53) (simp_all add: p big round_even_def fl)
  moreover have "fp_round F64 9007199254740996 = Fin 9007199254740996"
    by (rule fp_round_53) (simp_all add: p big round_even_def)
  moreover have "fp_of_int F64 1 = Fin 1" "fp_of_int F64 4 = Fin 4" "fp_of_int F64 0 = Zero False"
    by (simp_all add: fp_of_int_exact)
  ultimately have "interp_bound Asc 9007199254740995 9007199254740999 2 0 = Some 9007199254740995"
    by (simp add: interp_bound_def is_descending_def fp_of_int_def fp_sub_def fp_clamp_def with_sign_def fp_round_def
        [of _ 0] sat_i64_def)
  then show ?thesis
    by (simp add: run_fetch_def interpolable_def demo_spec_def key_single_def list_driver_def lead_def tuple_at_def)
qed

text \<open>
  A viewport across a page boundary asks for both pages. Only the newer request survives in the service;
  when its page has arrived, the other page is still marked as requested, no paint asks for it again,
  and its row stays empty.
\<close>

lemma straddled_page_starves:
  fixes S :: "fp \<Rightarrow> string" and e :: nat
  defines "b2 \<equiv> insert_page S 2 [[Integer 3], [Integer 4]] (fst (snd (ensure (1, 3) 10 e (buffer_new 2))))"
  shows "snd (snd (ensure (1, 3) 10 e (buffer_new 2))) = [FetchPage 0 2 e, FetchPage 2 2 e]"
    and "fst (supersede PageSlot s2 (snd (supersede PageSlot s1 fl))) = Some s1"
    and "ensure (1, 3) 10 e b2 = (True, b2, [])" "buffer_row b2 1 = None"
proof -
  have up: "[0..<2] = [0, 1 :: nat]" "[2..<4] = [2, 3 :: nat]" by (simp_all add: upt_conv_Cons)
  define rows where "rows = [(2 :: nat, row_new S [Integer 3]), (3, row_new S [Integer 4])]"
  have b1: "ensure (1, 3) 10 e (buffer_new 2) =
      (True, \<lparr>gb_mode = Offset \<lparr>op_rows = [], op_requested = {0, 1}, op_page = 2\<rparr>, gb_page = 2, gb_last_start = Some 1\<rparr>,
       [FetchPage 0 2 e, FetchPage 2 2 e])"
    by (auto simp: ensure_def buffer_new_def offset_new_def Let_def mode_evict_def pages_evict_def mode_unhalt_def
        mode_request_def pages_request_def request_page_def page_resident_def up numeral_2_eq_2 [symmetric])
  then show "snd (snd (ensure (1, 3) 10 e (buffer_new 2))) = [FetchPage 0 2 e, FetchPage 2 2 e]" by simp
  have b2: "b2 = \<lparr>gb_mode = Offset \<lparr>op_rows = rows, op_requested = {0}, op_page = 2\<rparr>, gb_page = 2, gb_last_start = Some 1\<rparr>"
    unfolding b2_def b1 by (auto simp: insert_page_def rows_def)
  show "ensure (1, 3) 10 e b2 = (True, b2, [])"
    by (auto simp: ensure_def b2 Let_def mode_evict_def pages_evict_def mode_unhalt_def abs_diff_def MARGIN_PAGES_def
        mode_request_def pages_request_def request_page_def page_resident_def up rows_def numeral_2_eq_2 [symmetric])
  show "buffer_row b2 1 = None" by (simp add: b2 buffer_row_def rows_def)
  show "fst (supersede PageSlot s2 (snd (supersede PageSlot s1 fl))) = Some s1"
    by (simp add: supersede_def update_conv)
qed

end
