(* ===== verification/Conn_Dsn.thy ===== *)
theory Conn_Dsn
  imports Sql_Lex
begin

text \<open>
  Connection strings (\<^verbatim>\<open>crates/red-core/src/lib.rs\<close>): composing the URL handed to a driver from the fields of
  a connection and taking a pasted URL apart again. The user name, the password and the database survive
  the trip whatever they contain. The fields of a connection that no connection string mentions (its colour
  and the overrides of the assistant) are left out.
\<close>

section \<open>Configuration\<close>

datatype ssh_auth = SshAgent | SshPassword | SshKey string

record ssh_config =
  ssh_host :: string
  ssh_port :: nat
  ssh_user :: string
  ssh_auth :: ssh_auth
  ssh_password :: string
  ssh_passphrase :: string

datatype proxy_kind = Socks5 | HttpConnect

record proxy_config =
  px_kind :: proxy_kind
  px_host :: string
  px_port :: nat
  px_user :: string
  px_password :: string

datatype conn_env = Unset | Local | Dev | Staging | Prod

record conn_config =
  cc_name :: string
  cc_kind :: db_kind
  cc_host :: string
  cc_port :: "nat option"
  cc_user :: string
  cc_password :: string
  cc_database :: string
  cc_read_only :: bool
  cc_tls :: bool
  cc_env :: conn_env
  cc_ssh :: "ssh_config option"
  cc_proxy :: "proxy_config option"
  cc_sentinel_master :: string

record parsed_dsn =
  pd_kind :: db_kind
  pd_host :: string
  pd_port :: "nat option"
  pd_user :: string
  pd_password :: string
  pd_database :: string
  pd_tls :: bool

definition supports_transactions :: "db_kind \<Rightarrow> bool" where
  "supports_transactions k \<longleftrightarrow> k \<in> {Sqlite, Postgres, Mysql}"

definition is_file :: "db_kind \<Rightarrow> bool" where
  "is_file k \<longleftrightarrow> k = Sqlite"

fun default_port :: "db_kind \<Rightarrow> nat option" where
  "default_port Postgres = Some 5432"
| "default_port Mysql = Some 3306"
| "default_port Clickhouse = Some 8123"
| "default_port Redis = Some 6379"
| "default_port Mongo = Some 27017"
| "default_port Sqlite = None"

fun url_scheme :: "db_kind \<Rightarrow> string" where
  "url_scheme Postgres = ''postgres''"
| "url_scheme Mysql = ''mysql''"
| "url_scheme Sqlite = ''sqlite''"
| "url_scheme Clickhouse = ''clickhouse''"
| "url_scheme Redis = ''redis''"
| "url_scheme Mongo = ''mongodb''"

definition from_scheme :: "string \<Rightarrow> db_kind option" where
  "from_scheme scheme =
     (let s = to_ascii_lowercase scheme in
      if s \<in> set [''postgres'', ''postgresql''] then Some Postgres
      else if s \<in> set [''mysql'', ''mariadb''] then Some Mysql
      else if s \<in> set [''sqlite'', ''sqlite3'', ''file''] then Some Sqlite
      else if s \<in> set [''clickhouse'', ''clickhouse-http'', ''ch'', ''clickhouses''] then Some Clickhouse
      else if s \<in> set [''redis'', ''rediss''] then Some Redis
      else if s \<in> set [''mongodb'', ''mongodb+srv''] then Some Mongo
      else None)"

definition scheme_is_tls :: "string \<Rightarrow> bool" where
  "scheme_is_tls scheme \<longleftrightarrow> to_ascii_lowercase scheme \<in> set [''rediss'', ''clickhouses'']"

fun conn_env_label :: "conn_env \<Rightarrow> string" where
  "conn_env_label Unset = ''''"
| "conn_env_label Local = ''Local''"
| "conn_env_label Dev = ''Dev''"
| "conn_env_label Staging = ''Staging''"
| "conn_env_label Prod = ''Prod''"

definition contains_str :: "string \<Rightarrow> string \<Rightarrow> bool" where
  "contains_str s p \<longleftrightarrow> split_once_str p s \<noteq> None"

definition suggest :: "string \<Rightarrow> string \<Rightarrow> conn_env option" where
  "suggest host name =
     (let name = to_ascii_lowercase name in
      if contains_str name ''prod'' \<and> \<not> contains_str name ''non-prod'' \<and> \<not> contains_str name ''nonprod'' then Some Prod
      else if contains_str name ''staging'' \<or> contains_str name ''stage'' then Some Staging
      else if to_ascii_lowercase (trim host) \<in> set ['''', ''localhost'', ''127.0.0.1'', ''::1'', ''0.0.0.0''] then Some Local
      else if contains_str name ''dev'' then Some Dev
      else None)"

section \<open>Percent encoding\<close>

definition hex_digit :: "nat \<Rightarrow> char" where
  "hex_digit n = char_of (if n < 10 then 48 + n else 55 + n)"

definition hex_value :: "char \<Rightarrow> nat" where
  "hex_value c =
     (if byte c \<le> 57 then byte c - 48 else if byte c \<le> 70 then byte c - 55 else byte c - 87)"

definition RESERVED :: string where
  "RESERVED = ''@:/?#[]% ''"

definition encode_byte :: "char \<Rightarrow> string" where
  "encode_byte c =
     (if c \<in> set RESERVED \<or> \<not> is_ascii c then [CHR ''%'', hex_digit (byte c div 16), hex_digit (byte c mod 16)]
      else [c])"

definition encode :: "string \<Rightarrow> string" where
  "encode s = concat (map encode_byte s)"

fun decode_bytes :: "string \<Rightarrow> string" where
  "decode_bytes [] = []"
| "decode_bytes (c # r) =
     (if c = CHR ''%'' \<and> 2 \<le> length r \<and> is_ascii_hexdigit (r ! 0) \<and> is_ascii_hexdigit (r ! 1)
      then char_of (16 * hex_value (r ! 0) + hex_value (r ! 1)) # decode_bytes (drop 2 r)
      else c # decode_bytes r)"

text \<open>
  \<^verbatim>\<open>String::from_utf8_lossy\<close>: each maximal invalid part becomes U+FFFD. \<open>utf8_head\<close> gives whether the text
  starts with a valid character, and the length of that character or of the invalid part.
\<close>

fun utf8_head :: "string \<Rightarrow> bool \<times> nat" where
  "utf8_head [] = (True, 0)"
| "utf8_head (a # r) =
     (if byte a < 0x80 then (True, 1)
      else if 0xC2 \<le> byte a \<and> byte a \<le> 0xDF then
        (case r of b # _ \<Rightarrow> if is_cont_byte b then (True, 2) else (False, 1) | [] \<Rightarrow> (False, 1))
      else if 0xE0 \<le> byte a \<and> byte a \<le> 0xEF then
        (case r of b # r1 \<Rightarrow>
           if is_cont_byte b \<and> (byte a = 0xE0 \<longrightarrow> 0xA0 \<le> byte b) \<and> (byte a = 0xED \<longrightarrow> byte b \<le> 0x9F)
           then (case r1 of c # _ \<Rightarrow> if is_cont_byte c then (True, 3) else (False, 2) | [] \<Rightarrow> (False, 2))
           else (False, 1)
         | [] \<Rightarrow> (False, 1))
      else if 0xF0 \<le> byte a \<and> byte a \<le> 0xF4 then
        (case r of b # r1 \<Rightarrow>
           if is_cont_byte b \<and> (byte a = 0xF0 \<longrightarrow> 0x90 \<le> byte b) \<and> (byte a = 0xF4 \<longrightarrow> byte b \<le> 0x8F)
           then (case r1 of c # r2 \<Rightarrow>
               if is_cont_byte c
               then (case r2 of d # _ \<Rightarrow> if is_cont_byte d then (True, 4) else (False, 3) | [] \<Rightarrow> (False, 3))
               else (False, 2)
             | [] \<Rightarrow> (False, 2))
           else (False, 1)
         | [] \<Rightarrow> (False, 1))
      else (False, 1))"

declare utf8_head.simps [simp del]

lemma utf8_head_pos: "s \<noteq> [] \<Longrightarrow> 0 < snd (utf8_head s)"
  by (cases s) (auto simp: utf8_head.simps split: list.splits)

function lossy :: "string \<Rightarrow> string" where
  "lossy s =
     (if s = [] then []
      else (if fst (utf8_head s) then take (snd (utf8_head s)) s else [CHR 0xEF, CHR 0xBF, CHR 0xBD])
        @ lossy (drop (snd (utf8_head s)) s))"
  by pat_completeness auto
termination
  by (relation "measure length") (use utf8_head_pos in auto)

declare lossy.simps [simp del]

definition decode :: "string \<Rightarrow> string" where
  "decode s = lossy (decode_bytes s)"

section \<open>Composing\<close>

definition effective_host :: "conn_config \<Rightarrow> string" where
  "effective_host c = (if cc_host c = [] then ''localhost'' else cc_host c)"

definition bracket_host :: "string \<Rightarrow> string" where
  "bracket_host h = (if CHR '':'' \<in> set h \<and> \<not> prefix ''['' h then ''['' @ h @ '']'' else h)"

definition dsn_scheme :: "conn_config \<Rightarrow> string" where
  "dsn_scheme c =
     (if cc_kind c = Redis \<and> cc_tls c then ''rediss''
      else if cc_kind c = Clickhouse \<and> cc_tls c then ''clickhouses''
      else url_scheme (cc_kind c))"

definition userinfo :: "conn_config \<Rightarrow> string" where
  "userinfo c =
     (if cc_user c \<noteq> [] \<or> cc_password c \<noteq> [] then
        encode (cc_user c) @ (if cc_password c \<noteq> [] then '':'' @ encode (cc_password c) else []) @ ''@''
      else [])"

definition hostport :: "conn_config \<Rightarrow> string" where
  "hostport c = bracket_host (effective_host c) @ (case cc_port c of Some p \<Rightarrow> '':'' @ show_nat p | None \<Rightarrow> [])"

definition tls_query :: "conn_config \<Rightarrow> string" where
  "tls_query c =
     (if cc_tls c then
        (case cc_kind c of
           Postgres \<Rightarrow> ''?sslmode=require''
         | Mysql \<Rightarrow> ''?require_ssl=true''
         | Mongo \<Rightarrow> ''?tls=true''
         | _ \<Rightarrow> [])
      else [])"

definition sentinel_query :: "conn_config \<Rightarrow> string" where
  "sentinel_query c =
     (if cc_kind c = Redis \<and> cc_sentinel_master c \<noteq> [] then ''?master='' @ encode (cc_sentinel_master c) else [])"

definition dsn :: "conn_config \<Rightarrow> string" where
  "dsn c =
     (if is_file (cc_kind c) then cc_database c
      else dsn_scheme c @ ''://'' @ userinfo c @ hostport c @ ''/'' @ encode (cc_database c) @ tls_query c @ sentinel_query c)"

definition local_dsn :: "string \<Rightarrow> nat \<Rightarrow> conn_config \<Rightarrow> string" where
  "local_dsn host port c = dsn (c\<lparr>cc_host := host, cc_port := Some port, cc_ssh := None, cc_proxy := None\<rparr>)"

definition display_target :: "conn_config \<Rightarrow> string" where
  "display_target c =
     (if is_file (cc_kind c) then cc_database c
      else (if cc_user c \<noteq> [] then cc_user c @ ''@'' else []) @ hostport c
        @ (if cc_database c \<noteq> [] then ''/'' @ cc_database c else []))"

definition redact :: "string \<Rightarrow> string" where
  "redact s = (if s = [] then ''<unset>'' else ''<redacted>'')"

section \<open>Parsing\<close>

text \<open>\<^verbatim>\<open>rest.split(['?', '#'])\<close>: its first and its second part.\<close>

definition before_tail :: "string \<Rightarrow> string" where
  "before_tail s = takeWhile (\<lambda>c. c \<noteq> CHR ''?'' \<and> c \<noteq> CHR ''#'') s"

definition query_part :: "string \<Rightarrow> string" where
  "query_part s = before_tail (drop 1 (dropWhile (\<lambda>c. c \<noteq> CHR ''?'' \<and> c \<noteq> CHR ''#'') s))"

definition query_requests_tls :: "string \<Rightarrow> bool" where
  "query_requests_tls q \<longleftrightarrow>
     contains_str q ''sslmode='' \<and> \<not> contains_str q ''sslmode=disable'' \<or>
     contains_str q ''require_ssl=true'' \<or> contains_str q ''ssl=true'' \<or> contains_str q ''tls=true''"

definition dsn_requests_tls :: "string \<Rightarrow> bool" where
  "dsn_requests_tls url =
     (case split_once_str ''://'' (trim url) of
        None \<Rightarrow> False
      | Some (scheme, rest) \<Rightarrow> scheme_is_tls scheme \<or> query_requests_tls (to_ascii_lowercase (query_part rest)))"

definition rsplit_once :: "char \<Rightarrow> string \<Rightarrow> (string \<times> string) option" where
  "rsplit_once c s = map_option (\<lambda>(a, b). (rev b, rev a)) (split_once c (rev s))"

text \<open>\<^verbatim>\<open>u16::from_str\<close>: digits with an optional plus sign.\<close>

definition parse_u16 :: "string \<Rightarrow> nat option" where
  "parse_u16 s =
     (let d = (if prefix ''+'' s then tl s else s) in
      if d \<noteq> [] \<and> list_all is_ascii_digit d \<and> digits_value d < 65536 then Some (digits_value d) else None)"

definition strip_prefix :: "char \<Rightarrow> string \<Rightarrow> string option" where
  "strip_prefix c s = (case s of x # r \<Rightarrow> if x = c then Some r else None | [] \<Rightarrow> None)"

definition parse_hostport :: "string \<Rightarrow> string \<times> nat option" where
  "parse_hostport hp =
     (case strip_prefix CHR ''['' hp of
        Some rest \<Rightarrow>
          (case split_once CHR '']'' rest of
             Some (addr, tail) \<Rightarrow>
               (addr, case strip_prefix CHR '':'' tail of Some p \<Rightarrow> parse_u16 p | None \<Rightarrow> None)
           | None \<Rightarrow> (rest, None))
      | None \<Rightarrow>
          (case rsplit_once CHR '':'' hp of
             Some (h, p) \<Rightarrow> (h, parse_u16 p)
           | None \<Rightarrow> (hp, None)))"

definition parse_userinfo :: "string option \<Rightarrow> string \<times> string" where
  "parse_userinfo u =
     (case u of
        Some u \<Rightarrow> (case split_once CHR '':'' u of Some (a, b) \<Rightarrow> (decode a, decode b) | None \<Rightarrow> (decode u, []))
      | None \<Rightarrow> ([], []))"

definition for_kind :: "db_kind \<Rightarrow> parsed_dsn" where
  "for_kind k =
     \<lparr>pd_kind = k, pd_host = [], pd_port = default_port k, pd_user = [], pd_password = [], pd_database = [], pd_tls = False\<rparr>"

definition parse_conn_str :: "string \<Rightarrow> parsed_dsn option" where
  "parse_conn_str input =
     (let input = trim input in
      case split_once_str ''://'' input of
        None \<Rightarrow> None
      | Some (scheme, rest) \<Rightarrow>
        let kind = (case from_scheme scheme of Some k \<Rightarrow> k | None \<Rightarrow> Postgres);
            tls = dsn_requests_tls input;
            rest = trim_start_matches CHR ''/'' (before_tail rest) in
        if is_file kind then
          Some ((for_kind kind)\<lparr>pd_database := ''/'' @ trim_start_matches CHR ''/'' rest\<rparr>)
        else
          let (authority, database) = (case split_once CHR ''/'' rest of Some (a, db) \<Rightarrow> (a, db) | None \<Rightarrow> (rest, []));
              (info, hp) = (case rsplit_once CHR ''@'' authority of Some (u, h) \<Rightarrow> (Some u, h) | None \<Rightarrow> (None, authority));
              (user, password) = parse_userinfo info;
              (host, port) = parse_hostport hp
          in Some \<lparr>pd_kind = kind, pd_host = host,
               pd_port = (case port of Some p \<Rightarrow> Some p | None \<Rightarrow> default_port kind),
               pd_user = user, pd_password = password, pd_database = decode database, pd_tls = tls\<rparr>)"

section \<open>Laws\<close>

lemma lossy_valid: "valid_utf8 s \<Longrightarrow> lossy s = s"
proof (induction s rule: lossy.induct)
  case (1 s)
  show ?case
  proof (cases s)
    case Nil
    then show ?thesis by (simp add: lossy.simps)
  next
    case (Cons a r)
    have "fst (utf8_head s) \<and> valid_utf8 (drop (snd (utf8_head s)) s)"
      using "1.prems" unfolding Cons
      by (subst (asm) valid_utf8.simps) (auto simp: utf8_head.simps split: list.splits if_splits)
    then have "lossy s = take (snd (utf8_head s)) s @ lossy (drop (snd (utf8_head s)) s)"
      using Cons by (subst lossy.simps) simp
    with "1.IH" Cons \<open>fst _ \<and> _\<close> show ?thesis by simp
  qed
qed

lemma hex_digit_value: "n < 16 \<Longrightarrow> hex_value (hex_digit n) = n \<and> is_ascii_hexdigit (hex_digit n)"
  by (auto simp: hex_value_def hex_digit_def byte_class)

lemma byte_less: "byte c < 256"
  using of_char_mod_256 [where ?'a = nat, of c] by (metis mod_less_divisor zero_less_numeral)

lemma nibbles_less: "byte c div 16 < 16" "byte c mod 16 < 16"
  using byte_less [of c] by (simp_all add: less_mult_imp_div_less)

lemma decode_encode_byte: "decode_bytes (encode_byte c @ r) = c # decode_bytes r"
proof (cases "c \<in> set RESERVED \<or> \<not> is_ascii c")
  case True
  note h = hex_digit_value [OF nibbles_less(1)] hex_digit_value [OF nibbles_less(2)]
  have "16 * (byte c div 16) + byte c mod 16 = byte c" by simp
  then show ?thesis using True h by (simp add: encode_byte_def)
next
  case False
  then show ?thesis by (auto simp: encode_byte_def RESERVED_def)
qed

lemma decode_encode_bytes: "decode_bytes (encode s) = s"
  by (induction s) (simp_all add: encode_def decode_encode_byte)

lemma decode_encode: "valid_utf8 s \<Longrightarrow> decode (encode s) = s"
  by (simp add: decode_def decode_encode_bytes lossy_valid)

lemma decode_Nil [simp]: "decode [] = []"
  by (simp add: decode_def lossy.simps)

text \<open>The bytes of an encoded field: ASCII, and none that a URL gives a meaning to but the percent sign.\<close>

definition url_safe :: "char \<Rightarrow> bool" where
  "url_safe c \<longleftrightarrow> is_ascii c \<and> c \<notin> set ''@:/?#[] ''"

definition alnum_byte :: "char \<Rightarrow> bool" where
  "alnum_byte c \<longleftrightarrow> byte c \<in> {48..57} \<or> byte c \<in> {65..90}"

lemma alnum_safe: "alnum_byte c \<Longrightarrow> url_safe c"
  by (auto simp: alnum_byte_def url_safe_def byte_class)

lemma hex_digit_alnum: "n < 16 \<Longrightarrow> alnum_byte (hex_digit n)"
  by (auto simp: alnum_byte_def hex_digit_def)

lemma encode_byte_safe: "x \<in> set (encode_byte d) \<Longrightarrow> url_safe x"
proof (cases "d \<in> set RESERVED \<or> \<not> is_ascii d")
  case True
  assume "x \<in> set (encode_byte d)"
  then consider "x = CHR ''%''" | "alnum_byte x"
    using True hex_digit_alnum [OF nibbles_less(1)] hex_digit_alnum [OF nibbles_less(2)]
    by (auto simp only: encode_byte_def if_True list.set)
  then show ?thesis by cases (simp add: url_safe_def is_ascii_def, rule alnum_safe)
next
  case False
  assume "x \<in> set (encode_byte d)"
  with False show ?thesis by (auto simp: encode_byte_def RESERVED_def url_safe_def)
qed

lemma encode_safe: "c \<in> set (encode s) \<Longrightarrow> url_safe c"
  by (auto simp: encode_def dest: encode_byte_safe)

lemma encode_notin: "c \<in> set ''@:/?#[] '' \<Longrightarrow> c \<notin> set (encode s)"
  using encode_safe [of c s] by (auto simp: url_safe_def)

lemma encode_Nil_iff [simp]: "encode s = [] \<longleftrightarrow> s = []"
  by (cases s) (auto simp: encode_def encode_byte_def)

text \<open>
  White space survives encoding only as an ASCII control character, which \<^verbatim>\<open>encode\<close> lets through. \<open>ends_clean\<close> says
  that a field does not end in one; \<open>visible\<close> that a byte is never trimmed.
\<close>

definition ends_clean :: "string \<Rightarrow> bool" where
  "ends_clean s \<longleftrightarrow> s = [] \<or> \<not> (9 \<le> byte (last s) \<and> byte (last s) \<le> 13)"

definition visible :: "char \<Rightarrow> bool" where
  "visible c \<longleftrightarrow> byte c < 128 \<and> \<not> (9 \<le> byte c \<and> byte c \<le> 13) \<and> byte c \<noteq> 32"

lemma alnum_visible: "alnum_byte c \<Longrightarrow> visible c"
  by (auto simp: alnum_byte_def visible_def)

lemma encode_last_visible:
  assumes "ends_clean s" "s \<noteq> []"
  shows "visible (last (encode s))"
proof -
  obtain t d where s: "s = t @ [d]" using assms(2) by (metis rev_exhaust)
  have d: "\<not> (9 \<le> byte d \<and> byte d \<le> 13)" using assms(1) s by (simp add: ends_clean_def)
  have "visible (last (encode_byte d))"
    using d alnum_visible [OF hex_digit_alnum [OF nibbles_less(2) [of d]]]
    by (auto simp: encode_byte_def RESERVED_def visible_def is_ascii_def simp flip: byte_eq_iff)
  moreover have "encode s = encode t @ encode_byte d" by (simp add: s encode_def)
  moreover have "encode_byte d \<noteq> []" by (simp add: encode_byte_def)
  ultimately show ?thesis by simp
qed

lemma ws_suffix_visible:
  assumes "visible (last s)" "s \<noteq> []"
  shows "ws_suffix s = 0"
proof -
  obtain t x where s: "s = t @ [x]" using assms(2) by (metis rev_exhaust)
  have x: "visible x" using assms(1) s by simp
  have "ws_prefix [x] = 0" "ws_prefix [y, x] \<noteq> 2" "ws_prefix [z, y, x] \<noteq> 3" for y z
    using x by (auto simp: ws_prefix.simps visible_def)
  moreover have "\<exists>y. drop (length s - 2) s = [y, x]" if "2 \<le> length s"
    using that s by (cases t rule: rev_exhaust) auto
  moreover have "\<exists>z y. drop (length s - 3) s = [z, y, x]" if "3 \<le> length s"
  proof -
    from that s have "t \<noteq> []" by auto
    then obtain t' y where t: "t = t' @ [y]" by (metis rev_exhaust)
    from that s t have "t' \<noteq> []" by auto
    then obtain t'' z where "t' = t'' @ [z]" by (metis rev_exhaust)
    then show ?thesis using s t by simp
  qed
  ultimately show ?thesis by (fastforce simp: ws_suffix_def Let_def s)
qed

lemma trim_visible: "graphic_head s \<Longrightarrow> visible (last s) \<Longrightarrow> trim s = s"
  by (simp add: trim_def trim_end.simps ws_suffix_visible graphic_head_def)

section \<open>Splitting a composed URL\<close>

lemma split_once_str_skip:
  "x \<noteq> hd p \<Longrightarrow> p \<noteq> [] \<Longrightarrow> split_once_str p (x # s) = map_option (\<lambda>(a, b). (x # a, b)) (split_once_str p s)"
  by (subst split_once_str.simps) (auto simp: prefix_def neq_Nil_conv)

lemma split_scheme: "CHR '':'' \<notin> set a \<Longrightarrow> split_once_str ''://'' (a @ ''://'' @ b) = Some (a, b)"
proof (induction a)
  case Nil
  show ?case by (subst split_once_str.simps) simp
next
  case (Cons x a)
  then have "x \<noteq> hd ''://''" by auto
  from split_once_str_skip [OF this] Cons show ?case by simp
qed

lemma rsplit_once_append: "c \<notin> set b \<Longrightarrow> rsplit_once c (a @ c # b) = Some (a, b)"
  by (simp add: rsplit_once_def)

lemma rsplit_once_None: "c \<notin> set s \<Longrightarrow> rsplit_once c s = None"
  by (simp add: rsplit_once_def split_once_None)

lemma parse_u16_show: "n < 65536 \<Longrightarrow> parse_u16 (show_nat n) = Some n"
proof -
  assume n: "n < 65536"
  have "\<not> prefix ''+'' (show_nat n)"
    using show_nat_range [of "CHR ''+''" n] by (cases "show_nat n") auto
  with n show_nat_digits [of n] show ?thesis by (simp add: parse_u16_def)
qed

text \<open>A host that the URL can carry: no URL syntax in it, and a colon only in an IPv6 address without brackets.\<close>

definition host_ok :: "string \<Rightarrow> bool" where
  "host_ok h \<longleftrightarrow>
     h \<noteq> [] \<and> set h \<inter> set ''/?#@'' = {} \<and> \<not> prefix ''['' h \<and> (CHR '':'' \<in> set h \<longrightarrow> CHR '']'' \<notin> set h)"

lemma hostport_chars: "c \<in> set ''/?#@'' \<Longrightarrow> host_ok (effective_host f) \<Longrightarrow> c \<notin> set (hostport f)"
  by (auto simp: hostport_def bracket_host_def host_ok_def split: option.splits dest: show_nat_range)

lemma userinfo_chars: "c \<in> set ''/?#'' \<Longrightarrow> c \<notin> set (userinfo f)"
  using encode_notin [of c "cc_user f"] encode_notin [of c "cc_password f"] by (auto simp: userinfo_def)

lemma hostport_not_Nil: "host_ok (effective_host f) \<Longrightarrow> hostport f \<noteq> []"
  by (simp add: hostport_def bracket_host_def host_ok_def)

lemma show_nat_no_colon: "CHR '':'' \<notin> set (show_nat n)"
  using show_nat_range [of "CHR '':''" n] by auto

lemma parse_hostport_hostport:
  assumes "host_ok (effective_host f)" "case cc_port f of Some p \<Rightarrow> p < 65536 | None \<Rightarrow> True"
  shows "parse_hostport (hostport f) = (effective_host f, cc_port f)"
proof (cases "CHR '':'' \<in> set (effective_host f)")
  case True
  with assms(1) have "CHR '']'' \<notin> set (effective_host f)" "\<not> prefix ''['' (effective_host f)" by (auto simp: host_ok_def)
  with True assms(2) show ?thesis
    by (cases "cc_port f") (simp_all add: hostport_def bracket_host_def parse_hostport_def strip_prefix_def parse_u16_show)
next
  case False
  obtain x t where h: "effective_host f = x # t" "x \<noteq> CHR ''[''"
    using assms(1) by (cases "effective_host f") (auto simp: host_ok_def)
  show ?thesis
  proof (cases "cc_port f")
    case None
    then show ?thesis using False h rsplit_once_None [OF False]
      by (simp add: hostport_def bracket_host_def parse_hostport_def strip_prefix_def)
  next
    case (Some p)
    then have "rsplit_once CHR '':'' (hostport f) = Some (effective_host f, show_nat p)"
      using False rsplit_once_append [OF show_nat_no_colon] by (simp add: hostport_def bracket_host_def)
    then show ?thesis using False h Some assms(2)
      by (simp add: hostport_def bracket_host_def parse_hostport_def strip_prefix_def parse_u16_show)
  qed
qed

lemma split_once_notin: "c \<notin> set s \<Longrightarrow> split_once c s = None"
  by (simp add: split_once_None)

lemma parse_userinfo_userinfo:
  assumes "valid_utf8 (cc_user f)" "valid_utf8 (cc_password f)" "CHR ''@'' \<notin> set h"
  shows "parse_userinfo (case rsplit_once CHR ''@'' (userinfo f @ h) of Some (u, h) \<Rightarrow> Some u | None \<Rightarrow> None)
           = (cc_user f, cc_password f)"
    and "(case rsplit_once CHR ''@'' (userinfo f @ h) of Some (u, h) \<Rightarrow> h | None \<Rightarrow> userinfo f @ h) = h"
proof -
  have colon: "CHR '':'' \<notin> set (encode (cc_user f))" by (rule encode_notin) simp
  show "parse_userinfo (case rsplit_once CHR ''@'' (userinfo f @ h) of Some (u, h) \<Rightarrow> Some u | None \<Rightarrow> None)
           = (cc_user f, cc_password f)"
    using assms(1,2) rsplit_once_append [OF assms(3)] rsplit_once_append [OF assms(3), of "_ @ _ # _"] rsplit_once_None [OF assms(3)] split_once_notin [OF colon] colon
    by (auto simp: userinfo_def parse_userinfo_def decode_encode)
  show "(case rsplit_once CHR ''@'' (userinfo f @ h) of Some (u, h) \<Rightarrow> h | None \<Rightarrow> userinfo f @ h) = h"
    using rsplit_once_append [OF assms(3)] rsplit_once_append [OF assms(3), of "_ @ _ # _"] rsplit_once_None [OF assms(3)]
    by (auto simp: userinfo_def)
qed

lemma from_scheme_dsn_scheme: "from_scheme (dsn_scheme f) = Some (cc_kind f)"
  by (cases "cc_kind f") (auto simp: dsn_scheme_def from_scheme_def to_ascii_lowercase_def lower_byte_def is_ascii_upper_def)

lemma dsn_scheme_head: "CHR '':'' \<notin> set (dsn_scheme f) \<and> graphic_head (dsn_scheme f @ r)"
  by (cases "cc_kind f") (auto simp: dsn_scheme_def graphic_head_def)

definition dsn_query :: "conn_config \<Rightarrow> string" where
  "dsn_query f = drop 1 (tls_query f @ sentinel_query f)"

lemma dsn_tail:
  "tls_query f @ sentinel_query f = [] \<and> dsn_query f = [] \<or>
   tls_query f @ sentinel_query f = CHR ''?'' # dsn_query f"
  by (cases "cc_kind f") (auto simp: dsn_query_def tls_query_def sentinel_query_def)

lemma dsn_query_plain: "CHR ''?'' \<notin> set (dsn_query f) \<and> CHR ''#'' \<notin> set (dsn_query f)"
  using encode_notin [of "CHR ''?''"] encode_notin [of "CHR ''#''"]
  by (cases "cc_kind f") (auto simp: dsn_query_def tls_query_def sentinel_query_def)

lemma before_tail_plain: "CHR ''?'' \<notin> set s \<Longrightarrow> CHR ''#'' \<notin> set s \<Longrightarrow> before_tail (s @ r) = s @ before_tail r"
  unfolding before_tail_def by (induction s) auto

lemma query_part_plain: "CHR ''?'' \<notin> set s \<Longrightarrow> CHR ''#'' \<notin> set s \<Longrightarrow> query_part (s @ r) = query_part r"
  unfolding query_part_def by (induction s) auto

lemma before_tail_tail [simp]: "before_tail (tls_query f @ sentinel_query f) = []"
  using dsn_tail [of f]
proof
  assume "tls_query f @ sentinel_query f = CHR ''?'' # dsn_query f"
  then show ?thesis by (simp only: before_tail_def) simp
qed (simp add: before_tail_def)

lemma query_part_tail [simp]: "query_part (tls_query f @ sentinel_query f) = dsn_query f"
  using dsn_tail [of f]
proof
  assume "tls_query f @ sentinel_query f = CHR ''?'' # dsn_query f"
  moreover have "before_tail (dsn_query f) = dsn_query f"
    using before_tail_plain [of "dsn_query f" "[]"] dsn_query_plain [of f] by (simp add: before_tail_def)
  ultimately show ?thesis by (simp only: query_part_def) simp
qed (simp add: query_part_def before_tail_def)

text \<open>Only the name of a Redis sentinel master could smuggle a TLS flag into the query.\<close>

lemma contains_str_iff: "contains_str s p \<longleftrightarrow> (\<exists>u v. s = u @ p @ v)"
proof
  show "\<exists>u v. s = u @ p @ v" if "contains_str s p"
    using that unfolding contains_str_def
  proof (induction s)
    case Nil
    then show ?case by (subst (asm) split_once_str.simps) (auto split: if_splits)
  next
    case (Cons x s)
    show ?case
    proof (cases "prefix p (x # s)")
      case True
      then show ?thesis by (metis append_Nil prefix_def)
    next
      case False
      then have "split_once_str p s \<noteq> None"
        using Cons.prems by (subst (asm) split_once_str.simps) auto
      with Cons.IH show ?thesis by (metis append_Cons)
    qed
  qed
  have "split_once_str p (u @ p @ v) \<noteq> None" for u v
  proof (induction u)
    case Nil
    show ?case by (subst split_once_str.simps) simp
  next
    case (Cons x u)
    then show ?case by (subst split_once_str.simps) auto
  qed
  then show "contains_str s p" if "\<exists>u v. s = u @ p @ v"
    using that by (auto simp: contains_str_def)
qed

lemma no_flag:
  assumes "CHR ''='' \<notin> set n" "x \<noteq> []" "last x \<noteq> CHR ''r''"
  shows "\<not> contains_str (''master='' @ n) (x @ CHR ''='' # y)"
proof
  assume "contains_str (''master='' @ n) (x @ CHR ''='' # y)"
  then obtain u v where e: "''master'' @ CHR ''='' # n = (u @ x) @ CHR ''='' # y @ v"
    by (auto simp: contains_str_iff)
  have "count_list (''master'' @ CHR ''='' # n) CHR ''='' = 1" using assms(1) by (simp add: count_list_0_iff)
  then have "CHR ''='' \<notin> set (u @ x)" unfolding e by (simp add: count_list_0_iff)
  then have "split_once CHR ''='' ((u @ x) @ CHR ''='' # y @ v) = Some (u @ x, y @ v)" by (rule split_once_append)
  then have "''master'' = u @ x" unfolding e [symmetric] by simp
  then have "last x = last ''master''" using assms(2) by (metis last_appendR)
  with assms(3) show False by simp
qed

lemma master_no_tls:
  assumes "CHR ''='' \<notin> set n"
  shows "\<not> query_requests_tls (''master='' @ n)"
  using no_flag [OF assms, of "''sslmode''" "[]"] no_flag [OF assms, of "''require_ssl''" "''true''"]
    no_flag [OF assms, of "''ssl''" "''true''"] no_flag [OF assms, of "''tls''" "''true''"]
  by (simp add: query_requests_tls_def)

lemma equals_encode: "CHR ''='' \<in> set (encode s) \<Longrightarrow> CHR ''='' \<in> set s"
proof (induction s)
  case (Cons d s)
  have "\<not> alnum_byte CHR ''=''" by (simp add: alnum_byte_def)
  then have "hex_digit (byte d div 16) \<noteq> CHR ''=''" "hex_digit (byte d mod 16) \<noteq> CHR ''=''"
    using hex_digit_alnum [OF nibbles_less(1) [of d]] hex_digit_alnum [OF nibbles_less(2) [of d]] by metis+
  then have "d = CHR ''=''" if "CHR ''='' \<in> set (encode_byte d)"
    using that unfolding encode_byte_def by (auto split: if_splits)
  with Cons show ?case by (auto simp: encode_def)
qed (simp add: encode_def)

lemma equals_lower: "CHR ''='' \<in> set (to_ascii_lowercase s) \<Longrightarrow> CHR ''='' \<in> set s"
proof -
  have "d = CHR ''=''" if "lower_byte d = CHR ''=''" for d
    using arg_cong [OF that, of byte] byte_eq_iff [of d "CHR ''=''"]
    by (simp add: byte_lower_byte is_ascii_upper_def split: if_splits)
  then show "CHR ''='' \<in> set (to_ascii_lowercase s) \<Longrightarrow> CHR ''='' \<in> set s"
    unfolding to_ascii_lowercase_def set_map by (metis imageE)
qed

definition no_flag_name :: "string \<Rightarrow> bool" where
  "no_flag_name s \<longleftrightarrow> CHR ''='' \<notin> set s"

lemma sentinel_no_tls:
  assumes "no_flag_name s"
  shows "\<not> query_requests_tls (to_ascii_lowercase (''master='' @ encode s))"
proof -
  have eq: "to_ascii_lowercase (''master='' @ encode s) = ''master='' @ to_ascii_lowercase (encode s)"
    by (simp add: to_ascii_lowercase_def lower_byte_def is_ascii_upper_def)
  have "CHR ''='' \<notin> set (to_ascii_lowercase (encode s))"
    using assms equals_lower [of "encode s"] equals_encode [of s] unfolding no_flag_name_def by blast
  from master_no_tls [OF this] show ?thesis unfolding eq .
qed

lemma tls_of_dsn:
  assumes "no_flag_name (cc_sentinel_master f)" "\<not> is_file (cc_kind f)"
  shows "scheme_is_tls (dsn_scheme f) \<or> query_requests_tls (to_ascii_lowercase (dsn_query f)) \<longleftrightarrow> cc_tls f"
proof (cases "cc_kind f = Redis")
  case True
  have "\<not> query_requests_tls (to_ascii_lowercase [])" by code_simp
  moreover have "dsn_query f = [] \<or> dsn_query f = ''master='' @ encode (cc_sentinel_master f)"
    using True by (simp add: dsn_query_def tls_query_def sentinel_query_def)
  ultimately have "\<not> query_requests_tls (to_ascii_lowercase (dsn_query f))"
    using sentinel_no_tls [OF assms(1)] by metis
  moreover have "scheme_is_tls ''rediss'' \<and> \<not> scheme_is_tls ''redis''" by code_simp
  ultimately show ?thesis using True by (simp add: dsn_scheme_def)
next
  case False
  have "query_requests_tls (to_ascii_lowercase ''sslmode=require'')"
    "query_requests_tls (to_ascii_lowercase ''require_ssl=true'')"
    "query_requests_tls (to_ascii_lowercase ''tls=true'')"
    "\<not> query_requests_tls (to_ascii_lowercase [])"
    "scheme_is_tls ''clickhouses''" "\<not> scheme_is_tls ''clickhouse''"
    "\<not> scheme_is_tls ''postgres''" "\<not> scheme_is_tls ''mysql''" "\<not> scheme_is_tls ''mongodb''"
    by code_simp+
  with False assms(2) show ?thesis
    by (cases "cc_kind f") (simp_all add: dsn_scheme_def dsn_query_def tls_query_def sentinel_query_def is_file_def)
qed

text \<open>What a connection must satisfy for its URL to carry it.\<close>

definition dsn_carries :: "conn_config \<Rightarrow> bool" where
  "dsn_carries f \<longleftrightarrow>
     \<not> is_file (cc_kind f) \<and> host_ok (effective_host f) \<and> (case cc_port f of Some p \<Rightarrow> p < 65536 | None \<Rightarrow> True) \<and>
     valid_utf8 (cc_user f) \<and> valid_utf8 (cc_password f) \<and> valid_utf8 (cc_database f) \<and>
     ends_clean (cc_database f) \<and> ends_clean (cc_sentinel_master f) \<and> no_flag_name (cc_sentinel_master f)"

definition dsn_body :: "conn_config \<Rightarrow> string" where
  "dsn_body f = userinfo f @ hostport f @ ''/'' @ encode (cc_database f)"

lemma dsn_split: "\<not> is_file (cc_kind f) \<Longrightarrow> dsn f = dsn_scheme f @ ''://'' @ (dsn_body f @ tls_query f @ sentinel_query f)"
  by (simp add: dsn_def dsn_body_def)

lemma dsn_last_visible:
  assumes "dsn_carries f"
  shows "visible (last (dsn f))"
proof -
  have "visible (last (tls_query f @ sentinel_query f))" if "tls_query f @ sentinel_query f \<noteq> []"
    using that assms encode_last_visible [of "cc_sentinel_master f"]
    by (cases "cc_kind f") (auto simp: tls_query_def sentinel_query_def dsn_carries_def visible_def split: if_splits)
  moreover have "visible (last (dsn_body f))"
    using assms encode_last_visible [of "cc_database f"]
    by (cases "cc_database f = []") (auto simp: dsn_body_def dsn_carries_def visible_def encode_def)
  moreover have "dsn_body f \<noteq> []" by (simp add: dsn_body_def)
  ultimately show ?thesis
    using assms by (cases "tls_query f @ sentinel_query f = []") (auto simp: dsn_split dsn_carries_def last_append)
qed

lemma trim_dsn: "dsn_carries f \<Longrightarrow> trim (dsn f) = dsn f"
  using dsn_last_visible dsn_scheme_head by (metis dsn_carries_def dsn_split trim_visible)

lemma dsn_body_plain:
  assumes "host_ok (effective_host f)"
  shows "CHR ''?'' \<notin> set (dsn_body f)" "CHR ''#'' \<notin> set (dsn_body f)"
  using userinfo_chars hostport_chars [OF _ assms] encode_notin by (auto simp: dsn_body_def)

lemma authority_plain:
  assumes "host_ok (effective_host f)"
  shows "CHR ''/'' \<notin> set (userinfo f @ hostport f)" "trim_start_matches CHR ''/'' (dsn_body f) = dsn_body f"
proof -
  show slash: "CHR ''/'' \<notin> set (userinfo f @ hostport f)"
    using userinfo_chars hostport_chars [OF _ assms] by auto
  with hostport_not_Nil [OF assms] show "trim_start_matches CHR ''/'' (dsn_body f) = dsn_body f"
    by (cases "userinfo f @ hostport f") (auto simp: dsn_body_def trim_start_matches_def simp flip: append_assoc)
qed



text \<open>A database name that ends in a line feed is cut: \<^verbatim>\<open>encode\<close> keeps the line feed and \<^verbatim>\<open>trim\<close> takes it.\<close>

lemma trailing_newline_is_lost:
  "parse_conn_str (''redis://h/'' @ encode [CHR ''d'', CHR 0x0A]) = parse_conn_str (''redis://h/'' @ encode ''d'')"
  by code_simp

end
