(* ===== verification/Sql_Render.thy ===== *)
theory Sql_Render
  imports Red_Value Sql_Strip
begin

text \<open>
  The SQL a driver renders on the user's behalf (\<^verbatim>\<open>crates/red-driver/src/lib.rs\<close>, \<^verbatim>\<open>crates/red-core/src/ddl.rs\<close>
  and the edit operations of \<^verbatim>\<open>crates/red-core/src/lib.rs\<close>): quoting of identifiers and literals, the filters
  built from cell values, row edits and bulk inserts. The identifier quoter and the placeholder of an engine
  are arguments, as in the code; \<open>show_real\<close> is Rust's decimal form of a double.
\<close>

section \<open>Data\<close>

record table_ref =
  tr_schema :: "string option"
  tr_name :: string

record column_value =
  cv_column :: string
  cv_value :: db_value
  cv_decl_type :: "string option"

record column_decl =
  col_name :: string
  col_decl_type :: "string option"

datatype edit_op =
    EditUpdate table_ref "column_value list" "column_value list"
  | EditDelete table_ref "column_value list"
  | EditInsert table_ref "column_value list"

datatype cmp_op = CmpEq | CmpNe | CmpLt | CmpLe | CmpGt | CmpGe | CmpLike | CmpContains | CmpIsNull | CmpIsNotNull

record column_predicate =
  cp_column :: string
  cp_op :: cmp_op
  cp_value :: "db_value option"

definition takes_value :: "cmp_op \<Rightarrow> bool" where
  "takes_value p \<longleftrightarrow> p \<noteq> CmpIsNull \<and> p \<noteq> CmpIsNotNull"

definition is_null :: "db_value \<Rightarrow> bool" where
  "is_null v = (case v of Null \<Rightarrow> True | _ \<Rightarrow> False)"

fun edit_table :: "edit_op \<Rightarrow> table_ref" where
  "edit_table (EditUpdate t _ _) = t"
| "edit_table (EditDelete t _) = t"
| "edit_table (EditInsert t _) = t"

fun edit_verb :: "edit_op \<Rightarrow> string" where
  "edit_verb (EditUpdate _ _ _) = ''Update''"
| "edit_verb (EditDelete _ _) = ''Delete''"
| "edit_verb (EditInsert _ _) = ''Insert''"

section \<open>Quoting\<close>

text \<open>\<^verbatim>\<open>str::replace\<close> of a character, and the quoters of the engines.\<close>

definition replace_char :: "char \<Rightarrow> string \<Rightarrow> string \<Rightarrow> string" where
  "replace_char c r s = concat (map (\<lambda>x. if x = c then r else [x]) s)"

definition quote_generic :: "string \<Rightarrow> string" where
  "quote_generic ident = [CHR 0x22] @ replace_char CHR 0x22 [CHR 0x22, CHR 0x22] ident @ [CHR 0x22]"

definition pg_quote :: "string \<Rightarrow> string" where
  "pg_quote ident = [CHR 0x22] @ replace_char CHR 0x22 [CHR 0x22, CHR 0x22] ident @ [CHR 0x22]"

definition sqlite_quote_ident :: "string \<Rightarrow> string" where
  "sqlite_quote_ident ident = [CHR 0x22] @ replace_char CHR 0x22 [CHR 0x22, CHR 0x22] ident @ [CHR 0x22]"

definition escape_ident :: "string \<Rightarrow> string" where
  "escape_ident s = replace_char CHR ''`'' ''``'' s"

definition mysql_quote_ident :: "string \<Rightarrow> string" where
  "mysql_quote_ident ident = ''`'' @ escape_ident ident @ ''`''"

definition ch_quote :: "string \<Rightarrow> string" where
  "ch_quote ident =
     ''`'' @ replace_char CHR ''`'' ''``'' (replace_char CHR 0x5C [CHR 0x5C, CHR 0x5C] ident) @ ''`''"

definition qualify_table :: "table_ref \<Rightarrow> (string \<Rightarrow> string) \<Rightarrow> string" where
  "qualify_table t quote =
     (case tr_schema t of
        Some s \<Rightarrow> if s \<noteq> [] then quote s @ ''.'' @ quote (tr_name t) else quote (tr_name t)
      | None \<Rightarrow> quote (tr_name t))"

text \<open>The literal of a value in executed SQL, and the pattern literal of a substring search.\<close>

definition single_quoted :: "string \<Rightarrow> string" where
  "single_quoted s = [CHR 0x27] @ s @ [CHR 0x27]"

definition string_literal :: "bool \<Rightarrow> string \<Rightarrow> string" where
  "string_literal backslash_escapes s =
     (let lit = replace_char CHR 0x27 [CHR 0x27, CHR 0x27] s in
      single_quoted (if backslash_escapes then replace_char CHR 0x5C [CHR 0x5C, CHR 0x5C] lit else lit))"

fun sql_literal :: "(fp \<Rightarrow> string) \<Rightarrow> bool \<Rightarrow> db_value \<Rightarrow> string" where
  "sql_literal show_real backslash_escapes (Integer n) = show_int n"
| "sql_literal show_real backslash_escapes (Real x) = show_real x"
| "sql_literal show_real backslash_escapes (Text s) = string_literal backslash_escapes s"
| "sql_literal show_real backslash_escapes Null = ''NULL''"
| "sql_literal show_real backslash_escapes (Blob _) = ''NULL''"
| "sql_literal show_real backslash_escapes (Capped _) = ''NULL''"

definition like_escape :: "string \<Rightarrow> string" where
  "like_escape term =
     concat (map (\<lambda>c. if c = CHR 0x5C \<or> c = CHR ''%'' \<or> c = CHR ''_'' then [CHR 0x5C, c] else [c]) term)"

definition like_pattern :: "string \<Rightarrow> bool \<Rightarrow> string" where
  "like_pattern term backslash_escapes = string_literal backslash_escapes (''%'' @ like_escape term @ ''%'')"

definition is_blob_type :: "string \<Rightarrow> bool" where
  "is_blob_type ty \<longleftrightarrow>
     base_type ty \<in> set [''blob'', ''bytea'', ''binary'', ''varbinary'', ''tinyblob'', ''mediumblob'', ''longblob'', ''bit'']"

section \<open>Filters\<close>

text \<open>The trailing \<^verbatim>\<open>ESCAPE\<close> clause of a pattern match.\<close>

definition escape_text :: "bool \<Rightarrow> bool \<Rightarrow> string" where
  "escape_text backslash_escapes escape_clause =
     (if \<not> escape_clause then []
      else if backslash_escapes then '' ESCAPE '' @ single_quoted [CHR 0x5C, CHR 0x5C]
      else '' ESCAPE '' @ single_quoted [CHR 0x5C])"

definition contains_clause ::
  "column_meta list \<Rightarrow> string \<Rightarrow> (string \<Rightarrow> string) \<Rightarrow> (string \<Rightarrow> string) \<Rightarrow> string \<Rightarrow> bool \<Rightarrow> bool \<Rightarrow> string option" where
  "contains_clause columns term quote as_text like_op backslash_escapes escape_clause =
     (let pattern = like_pattern term backslash_escapes;
          preds = map (\<lambda>c. as_text (quote (cm_name c)) @ '' '' @ like_op @ '' '' @ pattern
                        @ escape_text backslash_escapes escape_clause)
                    (filter (\<lambda>c. \<not> (case cm_type c of Some t \<Rightarrow> is_blob_type t | None \<Rightarrow> False)) columns)
      in if preds \<noteq> [] then Some (''('' @ join_with '' OR '' preds @ '')'') else None)"

definition eq_clause :: "(fp \<Rightarrow> string) \<Rightarrow> column_value list \<Rightarrow> (string \<Rightarrow> string) \<Rightarrow> bool \<Rightarrow> string" where
  "eq_clause show_real pairs quote backslash_escapes =
     join_with '' AND '' (map (\<lambda>cv. quote (cv_column cv) @ '' = '' @ sql_literal show_real backslash_escapes (cv_value cv)) pairs)"

fun value_text :: "(fp \<Rightarrow> string) \<Rightarrow> db_value \<Rightarrow> string" where
  "value_text show_real (Text s) = s"
| "value_text show_real (Integer n) = show_int n"
| "value_text show_real (Real x) = show_real x"
| "value_text show_real Null = []"
| "value_text show_real (Blob _) = []"
| "value_text show_real (Capped _) = []"

fun cmp_op_sql :: "cmp_op \<Rightarrow> string" where
  "cmp_op_sql CmpEq = ''=''"
| "cmp_op_sql CmpNe = ''<>''"
| "cmp_op_sql CmpLt = ''<''"
| "cmp_op_sql CmpLe = ''<=''"
| "cmp_op_sql CmpGt = ''>''"
| "cmp_op_sql CmpGe = ''>=''"
| "cmp_op_sql CmpLike = ''LIKE''"
| "cmp_op_sql CmpContains = ''LIKE''"
| "cmp_op_sql CmpIsNull = ''IS NULL''"
| "cmp_op_sql CmpIsNotNull = ''IS NOT NULL''"

definition cmp_term ::
  "(fp \<Rightarrow> string) \<Rightarrow> (string \<Rightarrow> string) \<Rightarrow> (string \<Rightarrow> string) \<Rightarrow> string \<Rightarrow> bool \<Rightarrow> bool \<Rightarrow> column_predicate \<Rightarrow> string" where
  "cmp_term show_real quote as_text like_op backslash_escapes escape_clause p =
     (let col = quote (cp_column p);
          is_null_value = (\<not> takes_value (cp_op p) \<or> (case cp_value p of None \<Rightarrow> True | Some v \<Rightarrow> is_null v))
      in if cp_op p = CmpIsNull \<or> cp_op p = CmpEq \<and> is_null_value then col @ '' IS NULL''
         else if cp_op p = CmpIsNotNull \<or> cp_op p = CmpNe \<and> is_null_value then col @ '' IS NOT NULL''
         else if cp_op p = CmpContains then
           as_text col @ '' '' @ like_op @ '' ''
             @ like_pattern (case cp_value p of Some v \<Rightarrow> value_text show_real v | None \<Rightarrow> []) backslash_escapes
             @ escape_text backslash_escapes escape_clause
         else col @ '' '' @ cmp_op_sql (cp_op p) @ '' ''
           @ sql_literal show_real backslash_escapes (case cp_value p of Some v \<Rightarrow> v | None \<Rightarrow> Null))"

definition cmp_clause ::
  "(fp \<Rightarrow> string) \<Rightarrow> column_predicate list \<Rightarrow> (string \<Rightarrow> string) \<Rightarrow> (string \<Rightarrow> string) \<Rightarrow> string \<Rightarrow> bool \<Rightarrow> bool \<Rightarrow> string" where
  "cmp_clause show_real preds quote as_text like_op backslash_escapes escape_clause =
     join_with '' AND '' (map (cmp_term show_real quote as_text like_op backslash_escapes escape_clause) preds)"

section \<open>Seeks\<close>

definition seek_clauses ::
  "key_spec \<Rightarrow> nat \<Rightarrow> sort_direction \<Rightarrow> bool \<Rightarrow> (string \<Rightarrow> string) \<Rightarrow> (nat \<Rightarrow> string) \<Rightarrow> string \<times> string" where
  "seek_clauses key bound_len scroll inclusive quote placeholder =
     (let cols = map quote (column_names key);
          effective = reversed_when (ks_direction key) (is_descending scroll);
          strict = (if is_descending effective then ''<'' else ''>'');
          dir = (if is_descending effective then ''DESC'' else ''ASC'');
          cmp = (if inclusive then strict @ ''='' else strict);
          order_by = join_with '', '' (map (\<lambda>c. c @ '' '' @ dir) cols);
          where_clause =
            (if bound_len = 0 then []
             else ''WHERE ('' @ join_with '', '' (take bound_len cols) @ '') '' @ cmp @ '' (''
               @ join_with '', '' (map placeholder [0..<bound_len]) @ '') '')
      in (where_clause, order_by))"

definition key_positions :: "key_spec \<Rightarrow> column_decl list \<Rightarrow> nat option list" where
  "key_positions key columns =
     (let find = (\<lambda>name. let i = length (takeWhile (\<lambda>c. col_name c \<noteq> name) columns) in
                    if i < length columns then Some i else None)
      in [find (ks_column key), case ks_tiebreak key of Some t \<Rightarrow> find t | None \<Rightarrow> None])"

datatype page_cap = DisplayCap "key_spec option" | FullCap

record cell_cap =
  cap_max_bytes :: nat
  cap_key_cols :: "nat option list"

definition cap_resolve :: "nat \<Rightarrow> page_cap \<Rightarrow> column_decl list \<Rightarrow> cell_cap option" where
  "cap_resolve display_cell_cap cap columns =
     (case cap of
        FullCap \<Rightarrow> None
      | DisplayCap key \<Rightarrow>
          Some \<lparr>cap_max_bytes = display_cell_cap,
            cap_key_cols = (case key of Some k \<Rightarrow> key_positions k columns | None \<Rightarrow> [None, None])\<rparr>)"

definition cap_display :: "nat \<Rightarrow> nat option list \<Rightarrow> cell_cap option" where
  "cap_display display_cell_cap key_cols = Some \<lparr>cap_max_bytes = display_cell_cap, cap_key_cols = key_cols\<rparr>"

definition cap_caps :: "cell_cap option \<Rightarrow> nat \<Rightarrow> nat option" where
  "cap_caps cap i =
     (case cap of Some c \<Rightarrow> if Some i \<notin> set (cap_key_cols c) then Some (cap_max_bytes c) else None | None \<Rightarrow> None)"

section \<open>Edits and inserts\<close>

text \<open>The closure \<^verbatim>\<open>slot\<close>: a bound placeholder that pushes its value, or the keyword NULL.\<close>

type_synonym binds = "db_value list"

definition bind_slot :: "(nat \<Rightarrow> column_value \<Rightarrow> string) \<Rightarrow> column_value \<Rightarrow> binds \<Rightarrow> string \<times> binds" where
  "bind_slot placeholder cv params =
     (if is_null (cv_value cv) then (''NULL'', params)
      else (placeholder (length params) cv, params @ [cv_value cv]))"

fun map_binds :: "('a \<Rightarrow> binds \<Rightarrow> string \<times> binds) \<Rightarrow> 'a list \<Rightarrow> binds \<Rightarrow> string list \<times> binds" where
  "map_binds f [] params = ([], params)"
| "map_binds f (x # xs) params =
     (let (t, params1) = f x params; (ts, params2) = map_binds f xs params1 in (t # ts, params2))"

definition bind_assign :: "(string \<Rightarrow> string) \<Rightarrow> (nat \<Rightarrow> column_value \<Rightarrow> string) \<Rightarrow> column_value \<Rightarrow> binds \<Rightarrow> string \<times> binds" where
  "bind_assign quote placeholder cv params =
     (let (t, params1) = bind_slot placeholder cv params in (quote (cv_column cv) @ '' = '' @ t, params1))"

definition bind_key :: "(string \<Rightarrow> string) \<Rightarrow> (nat \<Rightarrow> column_value \<Rightarrow> string) \<Rightarrow> column_value \<Rightarrow> binds \<Rightarrow> string \<times> binds" where
  "bind_key quote placeholder cv params =
     (if is_null (cv_value cv) then (quote (cv_column cv) @ '' IS NULL'', params)
      else bind_assign quote placeholder cv params)"

fun edit_sql :: "edit_op \<Rightarrow> (string \<Rightarrow> string) \<Rightarrow> (nat \<Rightarrow> column_value \<Rightarrow> string) \<Rightarrow> string \<times> binds" where
  "edit_sql (EditUpdate table keys set_cols) quote placeholder =
     (let (assigns, params1) = map_binds (bind_assign quote placeholder) set_cols [];
          (ids, params2) = map_binds (bind_key quote placeholder) keys params1
      in (''UPDATE '' @ qualify_table table quote @ '' SET '' @ join_with '', '' assigns
            @ '' WHERE '' @ join_with '' AND '' ids, params2))"
| "edit_sql (EditDelete table keys) quote placeholder =
     (let (ids, params1) = map_binds (bind_key quote placeholder) keys []
      in (''DELETE FROM '' @ qualify_table table quote @ '' WHERE '' @ join_with '' AND '' ids, params1))"
| "edit_sql (EditInsert table vals) quote placeholder =
     (let (slots, params1) = map_binds (bind_slot placeholder) vals []
      in (''INSERT INTO '' @ qualify_table table quote @ '' ('' @ join_with '', '' (map (quote \<circ> cv_column) vals)
            @ '') VALUES ('' @ join_with '', '' slots @ '')'', params1))"

text \<open>The preview of an edit in the confirmation, values inlined.\<close>

fun preview_literal :: "(fp \<Rightarrow> string) \<Rightarrow> db_value \<Rightarrow> string" where
  "preview_literal show_real Null = ''NULL''"
| "preview_literal show_real (Integer n) = show_int n"
| "preview_literal show_real (Real x) = show_real x"
| "preview_literal show_real (Text s) = single_quoted (replace_char CHR 0x27 [CHR 0x27, CHR 0x27] s)"
| "preview_literal show_real (Blob b) = bytes_summary (length b)"
| "preview_literal show_real (Capped c) =
     (if cc_blob c then bytes_summary (cc_len c)
      else single_quoted (replace_char CHR 0x27 [CHR 0x27, CHR 0x27] (cc_head c) @ ELLIPSIS))"

definition preview_where :: "(fp \<Rightarrow> string) \<Rightarrow> column_value list \<Rightarrow> string" where
  "preview_where show_real keys =
     join_with '' AND ''
       (map (\<lambda>cv. if is_null (cv_value cv) then quote_generic (cv_column cv) @ '' IS NULL''
              else quote_generic (cv_column cv) @ '' = '' @ preview_literal show_real (cv_value cv)) keys)"

fun preview_sql :: "(fp \<Rightarrow> string) \<Rightarrow> edit_op \<Rightarrow> string" where
  "preview_sql show_real (EditUpdate table keys set_cols) =
     ''UPDATE '' @ qualify_table table quote_generic @ '' SET ''
       @ join_with '', '' (map (\<lambda>cv. quote_generic (cv_column cv) @ '' = '' @ preview_literal show_real (cv_value cv)) set_cols)
       @ '' WHERE '' @ preview_where show_real keys"
| "preview_sql show_real (EditDelete table keys) =
     ''DELETE FROM '' @ qualify_table table quote_generic @ '' WHERE '' @ preview_where show_real keys"
| "preview_sql show_real (EditInsert table vals) =
     ''INSERT INTO '' @ qualify_table table quote_generic @ '' ('' @ join_with '', '' (map (quote_generic \<circ> cv_column) vals)
       @ '') VALUES ('' @ join_with '', '' (map (preview_literal show_real \<circ> cv_value) vals) @ '')''"

text \<open>Bulk inserts: the statement of one chunk, and the chunks an engine's parameter cap allows.\<close>

definition bind_cell ::
  "(nat \<Rightarrow> db_value \<Rightarrow> string option \<Rightarrow> string) \<Rightarrow> db_value \<times> column_decl \<Rightarrow> binds \<Rightarrow> string \<times> binds" where
  "bind_cell placeholder x params =
     (case x of (cell, col) \<Rightarrow>
        if is_null cell then (''NULL'', params)
        else (placeholder (length params) cell (col_decl_type col), params @ [cell]))"

definition bind_row ::
  "(nat \<Rightarrow> db_value \<Rightarrow> string option \<Rightarrow> string) \<Rightarrow> column_decl list \<Rightarrow> db_value list \<Rightarrow> binds \<Rightarrow> string \<times> binds" where
  "bind_row placeholder columns row params =
     (let (cells, params1) = map_binds (bind_cell placeholder) (zip row columns) params
      in (''('' @ join_with '', '' cells @ '')'', params1))"

definition insert_sql ::
  "table_ref \<Rightarrow> column_decl list \<Rightarrow> db_value list list \<Rightarrow> (string \<Rightarrow> string)
     \<Rightarrow> (nat \<Rightarrow> db_value \<Rightarrow> string option \<Rightarrow> string) \<Rightarrow> string \<times> binds" where
  "insert_sql table columns rows quote placeholder =
     (let (tuples, params) = map_binds (bind_row placeholder columns) rows []
      in (''INSERT INTO '' @ qualify_table table quote @ '' ('' @ join_with '', '' (map (quote \<circ> col_name) columns)
            @ '') VALUES '' @ join_with '', '' tuples, params))"

definition insert_chunk_rows :: "nat \<Rightarrow> nat \<Rightarrow> nat" where
  "insert_chunk_rows columns param_cap = max (param_cap div max columns 1) 1"

text \<open>\<^verbatim>\<open>rows.chunks(max)\<close>, where \<^verbatim>\<open>max\<close> is at least 1.\<close>

function chunks :: "nat \<Rightarrow> 'a list \<Rightarrow> 'a list list" where
  "chunks n xs = (if n = 0 \<or> xs = [] then [] else take n xs # chunks n (drop n xs))"
  by pat_completeness auto
termination
  by (relation "measure (length \<circ> snd)") auto

declare chunks.simps [simp del]

definition SQLITE_PARAM_CAP :: nat where
  "SQLITE_PARAM_CAP = 30000"

text \<open>The statements \<^verbatim>\<open>insert_rows\<close> executes, in order, inside one transaction.\<close>

definition insert_statements ::
  "table_ref \<Rightarrow> column_decl list \<Rightarrow> db_value list list \<Rightarrow> nat \<Rightarrow> (string \<Rightarrow> string)
     \<Rightarrow> (nat \<Rightarrow> db_value \<Rightarrow> string option \<Rightarrow> string) \<Rightarrow> (string \<times> binds) list" where
  "insert_statements table columns rows param_cap quote placeholder =
     map (\<lambda>chunk. insert_sql table columns chunk quote placeholder)
       (chunks (insert_chunk_rows (length columns) param_cap) rows)"

section \<open>Literals read back\<close>

text \<open>
  How an engine reads a string literal behind its opening quote: a doubled quote is a quote and, where
  backslashes escape, \<open>esc\<close> is what the engine makes of an escaped byte. The result is the value and
  the text behind the literal.
\<close>

fun read_literal :: "(char \<Rightarrow> string) \<Rightarrow> bool \<Rightarrow> string \<Rightarrow> (string \<times> string) option" where
  "read_literal esc be [] = None"
| "read_literal esc be (c # r) =
     (if c = CHR 0x27 then
        (case r of
           d # r1 \<Rightarrow> if d = CHR 0x27 then map_option (apfst ((#) c)) (read_literal esc be r1) else Some ([], r)
         | [] \<Rightarrow> Some ([], []))
      else if be \<and> c = CHR 0x5C then
        (case r of [] \<Rightarrow> None | d # r1 \<Rightarrow> map_option (apfst ((@) (esc d))) (read_literal esc be r1))
      else map_option (apfst ((#) c)) (read_literal esc be r))"

text \<open>A character of a value as it stands in the literal.\<close>

definition lit_char :: "bool \<Rightarrow> char \<Rightarrow> string" where
  "lit_char be c =
     (if c = CHR 0x27 then [CHR 0x27, CHR 0x27] else if be \<and> c = CHR 0x5C then [CHR 0x5C, CHR 0x5C] else [c])"

definition lit_body :: "bool \<Rightarrow> string \<Rightarrow> string" where
  "lit_body be s = concat (map (lit_char be) s)"

lemma lit_body_simps [simp]:
  "lit_body be [] = []" "lit_body be (c # s) = lit_char be c @ lit_body be s"
  by (simp_all add: lit_body_def)

lemma string_literal_body: "string_literal be s = CHR 0x27 # lit_body be s @ [CHR 0x27]"
proof -
  have "replace_char CHR 0x5C [CHR 0x5C, CHR 0x5C] (replace_char CHR 0x27 [CHR 0x27, CHR 0x27] s) = lit_body True s"
    by (induction s) (simp_all add: replace_char_def lit_char_def)
  moreover have "replace_char CHR 0x27 [CHR 0x27, CHR 0x27] s = lit_body False s"
    by (induction s) (simp_all add: replace_char_def lit_char_def)
  ultimately show ?thesis by (cases be) (simp_all add: string_literal_def single_quoted_def)
qed

lemma read_literal_body:
  assumes "esc CHR 0x5C = [CHR 0x5C]" and "rest = [] \<or> hd rest \<noteq> CHR 0x27"
  shows "read_literal esc be (lit_body be s @ CHR 0x27 # rest) = Some (s, rest)"
proof (induction s)
  case Nil
  show ?case using assms(2) by (cases rest) auto
next
  case (Cons c s)
  then show ?case using assms(1) by (auto simp: lit_char_def)
qed

lemma skip_quoted_from_escape:
  "j + 1 < length b \<Longrightarrow> b ! j = CHR 0x5C \<Longrightarrow> q \<noteq> CHR 0x5C \<Longrightarrow>
     skip_quoted_from b q True j = skip_quoted_from b q True (j + 2)"
  by (subst skip_quoted_from.simps) auto

lemma skip_quoted_from_body:
  "rest = [] \<or> hd rest \<noteq> CHR 0x27 \<Longrightarrow>
    skip_quoted_from (x @ lit_body be s @ CHR 0x27 # rest) CHR 0x27 be (length x) = length x + length (lit_body be s) + 1"
proof (induction s arbitrary: x)
  case Nil
  then show ?case
    by (cases rest) (simp_all add: skip_quoted_from_close nth_append)
next
  case (Cons c s)
  let ?b = "x @ lit_body be (c # s) @ CHR 0x27 # rest"
  have "skip_quoted_from ?b CHR 0x27 be (length x) = skip_quoted_from ?b CHR 0x27 be (length (x @ lit_char be c))"
  proof -
    consider (quote) "c = CHR 0x27" | (escape) "c = CHR 0x5C" "be" | (plain) "c \<noteq> CHR 0x27" "\<not> (be \<and> c = CHR 0x5C)"
      by blast
    then show ?thesis
    proof cases
      case quote
      then show ?thesis
        using skip_quoted_from_double [of "length x" ?b "CHR 0x27" be] by (simp add: lit_char_def nth_append)
    next
      case escape
      then show ?thesis
        using skip_quoted_from_escape [of "length x" ?b "CHR 0x27"] by (simp add: lit_char_def nth_append)
    next
      case plain
      then show ?thesis
        using skip_quoted_from_step [of "length x" ?b "CHR 0x27" be] by (auto simp: lit_char_def nth_append)
    qed
  qed
  with Cons.IH [of "x @ lit_char be c"] Cons.prems show ?case by simp
qed



section \<open>Substring search\<close>

text \<open>
  The pattern match of SQL with the backslash as its escape; \<open>same\<close> is the engine's comparison of two bytes
  (case-insensitive for \<^verbatim>\<open>ILIKE\<close>).
\<close>

function like_match :: "(char \<Rightarrow> char \<Rightarrow> bool) \<Rightarrow> string \<Rightarrow> string \<Rightarrow> bool" where
  "like_match same [] s = (s = [])"
| "like_match same (c # p) s =
     (if c = CHR ''%'' then like_match same p s \<or> (case s of [] \<Rightarrow> False | _ # s1 \<Rightarrow> like_match same (c # p) s1)
      else if c = CHR ''_'' then (case s of [] \<Rightarrow> False | _ # s1 \<Rightarrow> like_match same p s1)
      else if c = CHR 0x5C then
        (case p of [] \<Rightarrow> False | d # p1 \<Rightarrow> (case s of [] \<Rightarrow> False | x # s1 \<Rightarrow> same d x \<and> like_match same p1 s1))
      else (case s of [] \<Rightarrow> False | x # s1 \<Rightarrow> same c x \<and> like_match same p s1))"
  by pat_completeness auto
termination
  by (relation "measures [\<lambda>(_, p, _). length p, \<lambda>(_, _, s). length s]") auto

declare like_match.simps [simp del]

lemma like_match_any: "like_match same (CHR ''%'' # p) s \<longleftrightarrow> (\<exists>u v. s = u @ v \<and> like_match same p v)"
proof (induction s)
  case Nil
  show ?case by (subst like_match.simps) simp
next
  case (Cons x s)
  have "(\<exists>u v. x # s = u @ v \<and> like_match same p v)
      \<longleftrightarrow> like_match same p (x # s) \<or> (\<exists>u v. s = u @ v \<and> like_match same p v)"
    by (auto simp: Cons_eq_append_conv)
  with Cons show ?case by (subst like_match.simps) simp
qed

lemma like_match_end: "like_match same [CHR ''%''] s"
  unfolding like_match_any by (rule exI [of _ s]) (simp add: like_match.simps)

lemma like_match_literal:
  "like_match same (like_escape t @ [CHR ''%'']) s \<longleftrightarrow> (\<exists>v w. s = v @ w \<and> list_all2 same t v)"
proof (induction t arbitrary: s)
  case Nil
  show ?case by (simp add: like_escape_def like_match_end)
next
  case (Cons c t)
  have "like_match same (like_escape (c # t) @ [CHR ''%'']) s
      \<longleftrightarrow> (case s of [] \<Rightarrow> False | x # s1 \<Rightarrow> same c x \<and> like_match same (like_escape t @ [CHR ''%'']) s1)"
    by (cases s) (auto simp: like_escape_def like_match.simps)
  also have "\<dots> \<longleftrightarrow> (\<exists>v w. s = v @ w \<and> list_all2 same (c # t) v)"
    by (cases s) (auto simp: Cons.IH list_all2_Cons1 Cons_eq_append_conv)
  finally show ?case .
qed

text \<open>
  C22. The quick filter means what it says: the literal it renders is read as a pattern that matches a text
  exactly when the term occurs in it, so no wildcard, quote or backslash of the term has a meaning.
\<close>

theorem like_pattern_is_substring:
  assumes "esc CHR 0x5C = [CHR 0x5C]" and "rest = [] \<or> hd rest \<noteq> CHR 0x27"
  shows "\<exists>pattern. read_literal esc be (tl (like_pattern t be) @ rest) = Some (pattern, rest) \<and>
           (\<forall>s. like_match same pattern s \<longleftrightarrow> (\<exists>u v w. s = u @ v @ w \<and> list_all2 same t v))"
proof (intro exI conjI allI)
  let ?pattern = "''%'' @ like_escape t @ ''%''"
  show "read_literal esc be (tl (like_pattern t be) @ rest) = Some (?pattern, rest)"
    unfolding like_pattern_def string_literal_body using read_literal_body [of esc rest be ?pattern, OF assms] by (simp del: lit_body_simps)
  show "like_match same ?pattern s \<longleftrightarrow> (\<exists>u v w. s = u @ v @ w \<and> list_all2 same t v)" for s
    by (auto simp: like_match_any like_match_literal)
qed

theorem like_pattern_is_substring_witness:
  "\<exists>pattern. read_literal (\<lambda>c. [c]) True (tl (like_pattern ''5%'' True) @ '' ESCAPE'') = Some (pattern, '' ESCAPE'') \<and>
     (\<forall>s. like_match (=) pattern s \<longleftrightarrow> (\<exists>u v w. s = u @ v @ w \<and> list_all2 (=) ''5%'' v))"
  by (rule like_pattern_is_substring) simp_all

section \<open>Bound values\<close>

definition bound_values :: "column_value list \<Rightarrow> binds" where
  "bound_values cvs = filter (\<lambda>v. \<not> is_null v) (map cv_value cvs)"

lemma bound_values_simps [simp]:
  "bound_values [] = []"
  "bound_values (cv # cvs) = (if is_null (cv_value cv) then [] else [cv_value cv]) @ bound_values cvs"
  by (simp_all add: bound_values_def)

text \<open>The texts of the slots, the first bound one having index \<open>n\<close>.\<close>

fun slot_texts :: "(nat \<Rightarrow> column_value \<Rightarrow> string) \<Rightarrow> nat \<Rightarrow> column_value list \<Rightarrow> string list" where
  "slot_texts ph n [] = []"
| "slot_texts ph n (cv # cvs) =
     (if is_null (cv_value cv) then ''NULL'' # slot_texts ph n cvs else ph n cv # slot_texts ph (Suc n) cvs)"

definition assign_text :: "(string \<Rightarrow> string) \<Rightarrow> column_value \<Rightarrow> string \<Rightarrow> string" where
  "assign_text quote cv t = quote (cv_column cv) @ '' = '' @ t"

definition key_text :: "(string \<Rightarrow> string) \<Rightarrow> column_value \<Rightarrow> string \<Rightarrow> string" where
  "key_text quote cv t = (if is_null (cv_value cv) then quote (cv_column cv) @ '' IS NULL'' else assign_text quote cv t)"

lemma map_binds_slot:
  "map_binds (bind_slot ph) cvs params = (slot_texts ph (length params) cvs, params @ bound_values cvs)"
  by (induction cvs arbitrary: params) (simp_all add: bind_slot_def)

lemma map_binds_assign:
  "map_binds (bind_assign quote ph) cvs params =
     (map2 (assign_text quote) cvs (slot_texts ph (length params) cvs), params @ bound_values cvs)"
  by (induction cvs arbitrary: params) (simp_all add: bind_slot_def bind_assign_def assign_text_def)

lemma map_binds_key:
  "map_binds (bind_key quote ph) cvs params =
     (map2 (key_text quote) cvs (slot_texts ph (length params) cvs), params @ bound_values cvs)"
  by (induction cvs arbitrary: params)
    (simp_all add: bind_slot_def bind_assign_def bind_key_def assign_text_def key_text_def)

lemmas map_binds_eqs = map_binds_slot map_binds_assign map_binds_key

fun edit_values :: "edit_op \<Rightarrow> column_value list" where
  "edit_values (EditUpdate t keys set_cols) = set_cols @ keys"
| "edit_values (EditDelete t keys) = keys"
| "edit_values (EditInsert t vals) = vals"

lemma bound_values_append [simp]: "bound_values (xs @ ys) = bound_values xs @ bound_values ys"
  by (simp add: bound_values_def)

lemma edit_sql_params: "snd (edit_sql op quote ph) = bound_values (edit_values op)"
  by (cases op) (simp_all add: map_binds_eqs)

lemma slot_texts_inlined:
  assumes "f Null = ''NULL''"
  shows "slot_texts (\<lambda>i _. f ((xs @ bound_values cvs @ ys) ! i)) (length xs) cvs = map (f \<circ> cv_value) cvs"
proof (induction cvs arbitrary: xs)
  case (Cons cv cvs)
  show ?case
  proof (cases "is_null (cv_value cv)")
    case True
    then have "cv_value cv = Null" by (cases "cv_value cv") (simp_all add: is_null_def)
    with True Cons.IH show ?thesis using assms by simp
  next
    case False
    with Cons.IH [of "xs @ [cv_value cv]"] show ?thesis by (simp add: nth_append)
  qed
qed simp

lemma preview_slots:
  "slot_texts (\<lambda>i _. preview_literal show_real ((xs @ bound_values cvs @ ys) ! i)) (length xs) cvs
     = map (preview_literal show_real \<circ> cv_value) cvs"
  by (rule slot_texts_inlined) simp

lemma preview_where_texts:
  "join_with '' AND '' (map2 (key_text quote_generic) keys (map (preview_literal show_real \<circ> cv_value) keys))
     = preview_where show_real keys"
  unfolding preview_where_def
  by (rule arg_cong [where f = "join_with _"], induction keys) (simp_all add: key_text_def assign_text_def)

lemma assign_texts: "map2 (assign_text quote) cvs (map f cvs) = map (\<lambda>cv. quote (cv_column cv) @ '' = '' @ f cv) cvs"
  by (induction cvs) (simp_all add: assign_text_def)


text \<open>The edit with every value but the nulls forgotten.\<close>

definition forget_value :: "column_value \<Rightarrow> column_value" where
  "forget_value cv = cv\<lparr>cv_value := if is_null (cv_value cv) then Null else Integer 0\<rparr>"

fun edit_shape :: "edit_op \<Rightarrow> edit_op" where
  "edit_shape (EditUpdate t keys set_cols) = EditUpdate t (map forget_value keys) (map forget_value set_cols)"
| "edit_shape (EditDelete t keys) = EditDelete t (map forget_value keys)"
| "edit_shape (EditInsert t vals) = EditInsert t (map forget_value vals)"

lemma forget_value_simps [simp]:
  "is_null (cv_value (forget_value cv)) = is_null (cv_value cv)" "cv_column (forget_value cv) = cv_column cv"
  "cv_decl_type (forget_value cv) = cv_decl_type cv" "key_text quote (forget_value cv) = key_text quote cv"
  "assign_text quote (forget_value cv) = assign_text quote cv"
  by (auto simp: forget_value_def is_null_def key_text_def assign_text_def fun_eq_iff)

lemma slot_texts_shape:
  "slot_texts (\<lambda>i cv. ph i (cv_column cv) (cv_decl_type cv)) n (map forget_value cvs) =
   slot_texts (\<lambda>i cv. ph i (cv_column cv) (cv_decl_type cv)) n cvs"
  by (induction cvs arbitrary: n) simp_all

lemma bound_values_shape: "length (bound_values (map forget_value cvs)) = length (bound_values cvs)"
  by (induction cvs) simp_all

lemma map2_forget:
  "map2 (key_text quote) (map forget_value cvs) ts = map2 (key_text quote) cvs ts"
  "map2 (assign_text quote) (map forget_value cvs) ts = map2 (assign_text quote) cvs ts"
  by (simp_all add: zip_map1 case_prod_unfold)

text \<open>
  No value reaches the text of an edit: with placeholders that look only at the position and at the
  declared column, the SQL is the same for any two edits that differ in their non-null values, and there
  is one bound value for each of them.
\<close>

theorem edit_values_are_bound:
  "fst (edit_sql op quote (\<lambda>i cv. placeholder i (cv_column cv) (cv_decl_type cv))) =
     fst (edit_sql (edit_shape op) quote (\<lambda>i cv. placeholder i (cv_column cv) (cv_decl_type cv))) \<and>
   snd (edit_sql op quote placeholder') = filter (\<lambda>v. \<not> is_null v) (map cv_value (edit_values op))"
proof
  show "fst (edit_sql op quote (\<lambda>i cv. placeholder i (cv_column cv) (cv_decl_type cv))) =
     fst (edit_sql (edit_shape op) quote (\<lambda>i cv. placeholder i (cv_column cv) (cv_decl_type cv)))"
    by (cases op) (simp_all add: map_binds_eqs slot_texts_shape bound_values_shape map2_forget comp_def)
  show "snd (edit_sql op quote placeholder') = filter (\<lambda>v. \<not> is_null v) (map cv_value (edit_values op))"
    by (simp add: edit_sql_params bound_values_def)
qed

section \<open>Bulk inserts\<close>

lemma concat_chunks: "0 < n \<Longrightarrow> concat (chunks n xs) = xs"
proof (induction n xs rule: chunks.induct)
  case (1 n xs)
  then show ?case by (subst chunks.simps) auto
qed

lemma chunks_bound: "c \<in> set (chunks n xs) \<Longrightarrow> length c \<le> n \<and> set c \<subseteq> set xs \<and> c \<noteq> []"
proof (induction n xs rule: chunks.induct)
  case (1 n xs)
  from "1.prems" have ne: "\<not> (n = 0 \<or> xs = [])" and c: "c = take n xs \<or> c \<in> set (chunks n (drop n xs))"
    by (subst (asm) chunks.simps, simp split: if_splits)+
  from c "1.IH" [OF ne] ne show ?case by (auto dest: in_set_takeD in_set_dropD)
qed

lemma bind_cells_params:
  "snd (map_binds (bind_cell ph) ps params) = params @ filter (\<lambda>v. \<not> is_null v) (map fst ps)"
proof (induction ps arbitrary: params)
  case (Cons p ps)
  obtain v c where p: "p = (v, c)" by (cases p)
  show ?case
    using Cons.IH [of params] Cons.IH [of "params @ [v]"]
    by (simp add: p bind_cell_def case_prod_unfold)
qed simp

lemma bind_rows_params:
  assumes "\<forall>row \<in> set rows. length row = length columns"
  shows "snd (map_binds (bind_row ph columns) rows params) = params @ filter (\<lambda>v. \<not> is_null v) (concat rows)"
  using assms
proof (induction rows arbitrary: params)
  case (Cons row rows)
  have "snd (bind_row ph columns row params) = params @ filter (\<lambda>v. \<not> is_null v) row"
    using Cons.prems by (simp add: bind_row_def case_prod_unfold bind_cells_params)
  with Cons show ?case by (simp add: case_prod_unfold)
qed simp

lemma insert_sql_params:
  "\<forall>row \<in> set rows. length row = length columns \<Longrightarrow>
     snd (insert_sql table columns rows quote ph) = filter (\<lambda>v. \<not> is_null v) (concat rows)"
  by (simp add: insert_sql_def case_prod_unfold bind_rows_params)

lemma insert_chunk_cells:
  assumes "length c \<le> insert_chunk_rows columns cap" and "columns \<le> cap"
  shows "length c * columns \<le> cap"
proof (cases "columns = 0")
  case False
  then have "1 \<le> cap div columns" using assms(2) by (simp add: less_eq_div_iff_mult_less_eq)
  moreover have "max columns 1 = columns" using False by linarith
  ultimately have "length c \<le> cap div columns" using assms(1) unfolding insert_chunk_rows_def by simp
  then have "length c * columns \<le> (cap div columns) * columns" by simp
  also have "\<dots> \<le> cap" by simp
  finally show ?thesis .
qed simp

lemma length_concat_width: "\<forall>row \<in> set rows. length row = n \<Longrightarrow> length (concat rows) = length rows * n"
  by (induction rows) auto

text \<open>
  A bulk insert writes every row once and in order and never exceeds the placeholder cap of the engine:
  the values bound by its statements are together the non-null cells of the rows in order, and each
  statement binds at most \<open>cap\<close> of them.
\<close>

theorem insert_statements_within_cap:
  assumes "\<forall>row \<in> set rows. length row = length columns" and "length columns \<le> cap"
  shows "concat (map snd (insert_statements table columns rows cap quote ph)) = filter (\<lambda>v. \<not> is_null v) (concat rows) \<and>
    (\<forall>st \<in> set (insert_statements table columns rows cap quote ph). length (snd st) \<le> cap)"
proof (rule conjI)
  let ?n = "insert_chunk_rows (length columns) cap"
  have n: "0 < ?n" by (simp add: insert_chunk_rows_def)
  have width: "\<forall>row \<in> set c. length row = length columns" if "c \<in> set (chunks ?n rows)" for c
    using chunks_bound [OF that] assms(1) by blast
  have params: "map snd (insert_statements table columns rows cap quote ph)
      = map (\<lambda>c. filter (\<lambda>v. \<not> is_null v) (concat c)) (chunks ?n rows)"
    using insert_sql_params [OF width] by (simp add: insert_statements_def)
  have "concat (map (\<lambda>c. filter (\<lambda>v. \<not> is_null v) (concat c)) cs) = filter (\<lambda>v. \<not> is_null v) (concat (concat cs))"
    for cs :: "db_value list list list" by (induction cs) simp_all
  then show "concat (map snd (insert_statements table columns rows cap quote ph)) = filter (\<lambda>v. \<not> is_null v) (concat rows)"
    by (simp only: params concat_chunks [OF n])
  have "length (filter (\<lambda>v. \<not> is_null v) (concat c)) \<le> cap" if "c \<in> set (chunks ?n rows)" for c
    using length_concat_width [OF width [OF that]] insert_chunk_cells [of c, OF _ assms(2)] chunks_bound [OF that]
      length_filter_le [of "\<lambda>v. \<not> is_null v" "concat c"] by linarith
  then show "\<forall>st \<in> set (insert_statements table columns rows cap quote ph). length (snd st) \<le> cap"
    using params by (metis (no_types, lifting) image_iff image_set)
qed

theorem insert_statements_within_cap_witness:
  "concat (map snd (insert_statements \<lparr>tr_schema = None, tr_name = ''t''\<rparr> [\<lparr>col_name = ''a'', col_decl_type = None\<rparr>]
      [[Integer 1], [Null], [Integer 3]] 2 quote_generic (\<lambda>_ _ _. ''?''))) = [Integer 1, Integer 3]"
  using insert_statements_within_cap [of "[[Integer 1], [Null], [Integer 3]]" "[\<lparr>col_name = ''a'', col_decl_type = None\<rparr>]" 2
      "\<lparr>tr_schema = None, tr_name = ''t''\<rparr>" quote_generic "\<lambda>_ _ _. ''?''"]
  by (simp add: is_null_def)

end
