(* ===== verification/Sql_Wrap.thy ===== *)
theory Sql_Wrap
  imports Sql_Render Conn_Dsn "HOL-Library.List_Lexorder" "HOL-Library.Char_ord" "HOL-Library.Multiset"
begin

text \<open>
  Statements wrapped around a result (\<^verbatim>\<open>crates/red-driver/src/lib.rs\<close>, \<^verbatim>\<open>format.rs\<close>): the column summary and how
  its row is read back, the lookup list, the inline expansion of foreign keys, and the catalog readers for
  enum types and foreign keys; with them the coercion of an edited cell.
\<close>

section \<open>Column summary\<close>

record stats_flags =
  sf_numeric :: bool
  sf_distinct :: bool

record column_stats =
  cs_total :: int
  cs_non_null :: int
  cs_distinct :: "int option"
  cs_min :: db_value
  cs_max :: db_value
  cs_sum :: "db_value option"
  cs_avg :: "db_value option"

definition strip_suffix_char :: "char \<Rightarrow> string \<Rightarrow> string" where
  "strip_suffix_char c s = (if s \<noteq> [] \<and> last s = c then butlast s else s)"

text \<open>\<^verbatim>\<open>rsplit('\n').next()\<close>: the last line.\<close>

definition last_line :: "string \<Rightarrow> string" where
  "last_line s = rev (takeWhile (\<lambda>c. c \<noteq> CHR 0x0A) (rev s))"

definition strip_trailing :: "string \<Rightarrow> string" where
  "strip_trailing sql =
     (let trimmed = trim (strip_suffix_char CHR '';'' (trim sql)); line = last_line trimmed in
      if contains_str line ''--'' \<or> CHR ''#'' \<in> set line then trimmed @ [CHR 0x0A] else trimmed)"

definition stats_items :: "string \<Rightarrow> stats_flags \<Rightarrow> string list" where
  "stats_items col flags =
     [''count(*)'', ''count('' @ col @ '')'']
     @ (if sf_distinct flags then [''count(distinct '' @ col @ '')''] else [])
     @ [''min('' @ col @ '')'', ''max('' @ col @ '')'']
     @ (if sf_numeric flags then [''sum('' @ col @ '')'', ''avg('' @ col @ '')''] else [])"

definition stats_sql :: "string \<Rightarrow> string \<Rightarrow> stats_flags \<Rightarrow> (string \<Rightarrow> string) \<Rightarrow> string" where
  "stats_sql sql column flags quote =
     ''SELECT '' @ join_with '', '' (stats_items (quote column) flags) @ '' FROM ('' @ strip_trailing sql @ '') AS _red''"

definition cell_at :: "db_value list \<Rightarrow> nat \<Rightarrow> db_value option" where
  "cell_at cells i = (if i < length cells then Some (cells ! i) else None)"

definition stats_int :: "db_value option \<Rightarrow> int" where
  "stats_int v =
     (case v of
        Some (Integer n) \<Rightarrow> n
      | Some (Real x) \<Rightarrow> fp_to_i64 x
      | Some (Text s) \<Rightarrow> (case parse_i64 (trim s) of Some n \<Rightarrow> n | None \<Rightarrow> 0)
      | _ \<Rightarrow> 0)"

definition non_null_val :: "db_value option \<Rightarrow> db_value option" where
  "non_null_val v = (case v of Some x \<Rightarrow> if is_null x then None else Some x | None \<Rightarrow> None)"

definition parse_stats :: "db_value list \<Rightarrow> stats_flags \<Rightarrow> column_stats" where
  "parse_stats cells flags =
     (let total = stats_int (cell_at cells 0);
          non_null = stats_int (cell_at cells 1);
          distinct_count = (if sf_distinct flags then Some (stats_int (cell_at cells 2)) else None);
          i = (if sf_distinct flags then 3 else 2);
          or_null = (\<lambda>v. case v of Some x \<Rightarrow> x | None \<Rightarrow> Null)
      in \<lparr>cs_total = total, cs_non_null = non_null, cs_distinct = distinct_count,
          cs_min = or_null (cell_at cells i), cs_max = or_null (cell_at cells (i + 1)),
          cs_sum = (if sf_numeric flags then non_null_val (cell_at cells (i + 2)) else None),
          cs_avg = (if sf_numeric flags then non_null_val (cell_at cells (i + 3)) else None)\<rparr>)"

definition lookup_sql :: "string \<Rightarrow> string \<Rightarrow> string option \<Rightarrow> nat \<Rightarrow> string" where
  "lookup_sql table ident label limit =
     (let proj = (case label of Some l \<Rightarrow> if l \<noteq> ident then ident @ '', '' @ l else ident | None \<Rightarrow> ident) in
      ''SELECT DISTINCT '' @ proj @ '' FROM '' @ table @ '' ORDER BY '' @ ident @ '' LIMIT '' @ show_nat limit)"

section \<open>Enum types\<close>

text \<open>The inner loop of \<^verbatim>\<open>parse_mysql_enum\<close>: a value behind its opening quote, and what is left.\<close>

fun enum_value :: "string \<Rightarrow> string \<times> string" where
  "enum_value [] = ([], [])"
| "enum_value (c # r) =
     (if c = CHR 0x27 then
        (case r of
           d # r1 \<Rightarrow> if d = CHR 0x27 then apfst ((#) CHR 0x27) (enum_value r1) else ([], r)
         | [] \<Rightarrow> ([], []))
      else apfst ((#) c) (enum_value r))"

declare enum_value.simps(2) [simp del]

lemma enum_value_quote [simp]: "enum_value (CHR 0x27 # CHR 0x27 # r) = apfst ((#) CHR 0x27) (enum_value r)"
  by (simp add: enum_value.simps(2))

lemma enum_value_char [simp]: "c \<noteq> CHR 0x27 \<Longrightarrow> enum_value (c # r) = apfst ((#) c) (enum_value r)"
  by (simp add: enum_value.simps(2))

lemma enum_value_close: "r = [] \<or> hd r \<noteq> CHR 0x27 \<Longrightarrow> enum_value (CHR 0x27 # r) = ([], r)"
  by (cases r) (simp_all add: enum_value.simps(2))

lemma enum_value_length: "length (snd (enum_value s)) \<le> length s"
proof (induction s rule: length_induct)
  case (1 s)
  show ?case
  proof (cases s)
    case (Cons c r)
    consider (char) "c \<noteq> CHR 0x27" | (quote) r1 where "c = CHR 0x27" "r = CHR 0x27 # r1"
      | (close) "c = CHR 0x27" "r = [] \<or> hd r \<noteq> CHR 0x27"
      by (cases r) auto
    then show ?thesis
    proof cases
      case char
      have "length (snd (enum_value r)) \<le> length r" using 1 Cons by simp
      with char Cons show ?thesis by simp
    next
      case quote
      have "length (snd (enum_value r1)) \<le> length r1" using 1 Cons quote by simp
      with quote Cons show ?thesis by simp
    next
      case close
      with Cons show ?thesis by (simp add: enum_value_close)
    qed
  qed simp
qed

function enum_values :: "string \<Rightarrow> string list" where
  "enum_values s =
     (case dropWhile (\<lambda>c. c \<noteq> CHR 0x27) s of
        [] \<Rightarrow> []
      | _ # r \<Rightarrow> fst (enum_value r) # enum_values (snd (enum_value r)))"
  by pat_completeness auto
termination
proof (relation "measure length")
  fix s :: string and a r
  assume "dropWhile (\<lambda>c. c \<noteq> CHR 0x27) s = a # r"
  then have "length r < length s" using length_dropWhile_le [of "\<lambda>c. c \<noteq> CHR 0x27" s] by simp
  with enum_value_length [of r] show "(snd (enum_value r), s) \<in> measure length" by simp
qed simp

declare enum_values.simps [simp del]

definition strip_prefix_str :: "string \<Rightarrow> string \<Rightarrow> string option" where
  "strip_prefix_str p s = (if prefix p s then Some (drop (length p) s) else None)"

definition enum_inner :: "string \<Rightarrow> string option" where
  "enum_inner s =
     (case find_map_option (\<lambda>p. strip_prefix_str p s) [''enum('', ''set('', ''ENUM('', ''SET(''] of
        Some r \<Rightarrow> if r \<noteq> [] \<and> last r = CHR '')'' then Some (butlast r) else None
      | None \<Rightarrow> None)"

definition parse_mysql_enum :: "string \<Rightarrow> string list" where
  "parse_mysql_enum column_type = (case enum_inner (trim column_type) of None \<Rightarrow> [] | Some s \<Rightarrow> enum_values s)"

section \<open>Foreign keys\<close>

record fk_edge =
  fe_from_schema :: "string option"
  fe_from_table :: string
  fe_to_schema :: "string option"
  fe_to_table :: string
  fe_columns :: "(string \<times> string) list"

record fk_row =
  fr_from_schema :: "string option"
  fr_from_table :: string
  fr_from_column :: string
  fr_to_schema :: "string option"
  fr_to_table :: string
  fr_to_column :: string
  fr_constraint :: string

definition fk_row_key :: "fk_row \<Rightarrow> string \<times> string \<times> string" where
  "fk_row_key r = ((case fr_from_schema r of Some s \<Rightarrow> s | None \<Rightarrow> []), fr_from_table r, fr_constraint r)"

definition fk_row_edge :: "fk_row \<Rightarrow> fk_edge" where
  "fk_row_edge r =
     \<lparr>fe_from_schema = fr_from_schema r, fe_from_table = fr_from_table r, fe_to_schema = fr_to_schema r,
      fe_to_table = fr_to_table r, fe_columns = [(fr_from_column r, fr_to_column r)]\<rparr>"

definition push_column :: "string \<times> string \<Rightarrow> fk_edge list \<Rightarrow> fk_edge list" where
  "push_column c edges =
     (if edges = [] then [] else butlast edges @ [(last edges)\<lparr>fe_columns := fe_columns (last edges) @ [c]\<rparr>])"

fun group_fk_step :: "fk_row \<Rightarrow> fk_edge list \<times> (string \<times> string \<times> string) option \<Rightarrow> fk_edge list \<times> (string \<times> string \<times> string) option" where
  "group_fk_step r (edges, current) =
     (if current = Some (fk_row_key r) then (push_column (fr_from_column r, fr_to_column r) edges, current)
      else (edges @ [fk_row_edge r], Some (fk_row_key r)))"

definition group_fk_edges :: "fk_row list \<Rightarrow> fk_edge list" where
  "group_fk_edges rows = fst (fold group_fk_step rows ([], None))"

record fk_join =
  fj_alias :: string
  fj_parent_alias :: string
  fj_on :: "(string \<times> string) list"
  fj_to_schema :: "string option"
  fj_to_table :: string
  fj_select :: "(string \<times> string) list"

definition BASE_ALIAS :: string where
  "BASE_ALIAS = ''_red_base''"

definition join_from :: "(string \<Rightarrow> string) \<Rightarrow> fk_join \<Rightarrow> string" where
  "join_from quote j =
     '' LEFT JOIN '' @ qualify_table \<lparr>tr_schema = fj_to_schema j, tr_name = fj_to_table j\<rparr> quote @ '' AS '' @ fj_alias j @ '' ON ''
       @ join_with '' AND ''
           (map (\<lambda>(p, c). fj_parent_alias j @ ''.'' @ quote p @ '' = '' @ fj_alias j @ ''.'' @ quote c) (fj_on j))"

text \<open>\<^verbatim>\<open>str::split\<close> on a character.\<close>

fun split_char :: "char \<Rightarrow> string \<Rightarrow> string list" where
  "split_char c [] = [[]]"
| "split_char c (x # s) =
     (if x = c then [] # split_char c s else (x # hd (split_char c s)) # tl (split_char c s))"

text \<open>A joined column: its dotted path, its alias, the source column and the output name.\<close>

type_synonym joined_col = "string list \<times> string \<times> string \<times> string"

definition joined_cols :: "fk_join list \<Rightarrow> joined_col list" where
  "joined_cols joins = concat (map (\<lambda>j. map (\<lambda>(leaf, out). (split_char CHR ''.'' out, fj_alias j, leaf, out)) (fj_select j)) joins)"

definition render_joined :: "(string \<Rightarrow> string) \<Rightarrow> joined_col \<Rightarrow> string" where
  "render_joined quote g = (case g of (_, alias, leaf, out) \<Rightarrow> alias @ ''.'' @ quote leaf @ '' AS '' @ quote out)"

definition anchored_at :: "string \<Rightarrow> joined_col \<Rightarrow> bool" where
  "anchored_at bc g \<longleftrightarrow> fst g \<noteq> [] \<and> hd (fst g) = bc"

definition join_selects :: "string list \<Rightarrow> fk_join list \<Rightarrow> (string \<Rightarrow> string) \<Rightarrow> string list" where
  "join_selects base_cols joins quote =
     (let joined = joined_cols joins; render = map (render_joined quote) \<circ> sort_key fst in
      if base_cols = [] then (BASE_ALIAS @ ''.*'') # render joined
      else concat (map (\<lambda>bc. (BASE_ALIAS @ ''.'' @ quote bc) # render (filter (anchored_at bc) joined)) base_cols)
        @ render (filter (\<lambda>g. \<not> (fst g \<noteq> [] \<and> hd (fst g) \<in> set base_cols)) joined))"

definition join_wrap :: "string \<Rightarrow> string list \<Rightarrow> fk_join list \<Rightarrow> (string \<Rightarrow> string) \<Rightarrow> string" where
  "join_wrap base base_cols joins quote =
     (if joins = [] then base
      else ''SELECT '' @ join_with '', '' (join_selects base_cols joins quote) @ '' FROM ('' @ strip_trailing base
        @ '') AS '' @ BASE_ALIAS @ concat (map (join_from quote) joins))"

section \<open>Coercion of an edited cell\<close>

text \<open>
  \<^verbatim>\<open>f64::from_str\<close>: an optional sign, then \<^verbatim>\<open>inf\<close>, \<^verbatim>\<open>infinity\<close> or \<^verbatim>\<open>nan\<close> in any case, or digits with an
  optional point (at least one digit in all) and an optional exponent; the value is rounded once.
\<close>

definition split_exponent :: "string \<Rightarrow> (string \<times> int) option" where
  "split_exponent s =
     (let m = takeWhile (\<lambda>c. c \<noteq> CHR ''e'' \<and> c \<noteq> CHR ''E'') s; r = dropWhile (\<lambda>c. c \<noteq> CHR ''e'' \<and> c \<noteq> CHR ''E'') s in
      case r of
        [] \<Rightarrow> Some (m, 0)
      | _ # e \<Rightarrow>
          let (neg, d) = (case e of c # r1 \<Rightarrow> if c = CHR ''-'' then (True, r1) else if c = CHR ''+'' then (False, r1) else (False, e)
                          | [] \<Rightarrow> (False, []))
          in if d \<noteq> [] \<and> list_all is_ascii_digit d
             then Some (m, if neg then - int (digits_value d) else int (digits_value d)) else None)"

definition parse_decimal :: "bool \<Rightarrow> string \<Rightarrow> fp option" where
  "parse_decimal neg s =
     (case split_exponent s of
        None \<Rightarrow> None
      | Some (m, e) \<Rightarrow>
          let (whole, frac) = (case split_once CHR ''.'' m of Some (a, b) \<Rightarrow> (a, b) | None \<Rightarrow> (m, [])) in
          if whole @ frac \<noteq> [] \<and> list_all is_ascii_digit (whole @ frac) then
            let v = of_nat (digits_value (whole @ frac)) * 10 powi (e - int (length frac)) in
            Some (if v = 0 then Zero neg else fp_round F64 (if neg then - v else v))
          else None)"

definition parse_f64 :: "string \<Rightarrow> fp option" where
  "parse_f64 s =
     (let (neg, d) = (case s of c # r \<Rightarrow> if c = CHR ''-'' then (True, r) else if c = CHR ''+'' then (False, r) else (False, s)
                      | [] \<Rightarrow> (False, []));
          l = to_ascii_lowercase d
      in if l = ''inf'' \<or> l = ''infinity'' then Some (Inf neg)
         else if l = ''nan'' then Some NaN
         else parse_decimal neg d)"

definition not_valid :: "string \<Rightarrow> string \<Rightarrow> string" where
  "not_valid text what =
     [CHR 0xE2, CHR 0x80, CHR 0x98] @ text @ [CHR 0xE2, CHR 0x80, CHR 0x99] @ '' is not a valid '' @ what"

definition coerce_edit_value :: "string \<Rightarrow> string option \<Rightarrow> string + db_value" where
  "coerce_edit_value text decl_type =
     (if text = [] then Inr Null
      else if (case decl_type of Some t \<Rightarrow> is_int_type t | None \<Rightarrow> False) then
        (case parse_i64 (trim text) of Some n \<Rightarrow> Inr (Integer n) | None \<Rightarrow> Inl (not_valid text ''integer''))
      else if (case decl_type of Some t \<Rightarrow> is_real_type t | None \<Rightarrow> False) then
        (case parse_f64 (trim text) of Some x \<Rightarrow> Inr (Real x) | None \<Rightarrow> Inl (not_valid text ''number''))
      else Inr (Text text))"

text \<open>The values a column of a declared type takes from the editor.\<close>

definition edit_typed :: "string option \<Rightarrow> db_value \<Rightarrow> bool" where
  "edit_typed decl_type v =
     (case v of
        Null \<Rightarrow> True
      | Integer n \<Rightarrow> - (2 ^ 63) \<le> n \<and> n < 2 ^ 63 \<and> (\<exists>t. decl_type = Some t \<and> is_int_type t)
      | Real x \<Rightarrow> \<exists>t. decl_type = Some t \<and> \<not> is_int_type t \<and> is_real_type t
      | Text s \<Rightarrow> s \<noteq> [] \<and> (\<forall>t. decl_type = Some t \<longrightarrow> \<not> is_int_type t \<and> \<not> is_real_type t)
      | _ \<Rightarrow> False)"

lemma parse_i64_range: "parse_i64 s = Some n \<Longrightarrow> - (2 ^ 63) \<le> n \<and> n < 2 ^ 63"
  by (auto simp: parse_i64_def Let_def case_prod_unfold split: if_splits)

text \<open>
  C24. What the cell editor binds has the type of its column: a coerced value is NULL, a 64-bit integer for
  an integer column, a double for a real one, and text otherwise.
\<close>

theorem coerced_value_is_typed:
  assumes "coerce_edit_value text decl_type = Inr v"
  shows "edit_typed decl_type v"
  using assms parse_i64_range
  by (auto simp: coerce_edit_value_def edit_typed_def split: if_splits option.splits)

theorem coerced_value_is_typed_witness: "edit_typed (Some ''INTEGER'') (Integer 42)"
proof (rule coerced_value_is_typed)
  show "coerce_edit_value ''42'' (Some ''INTEGER'') = Inr (Integer 42)" by code_simp
qed

section \<open>Reading back\<close>

text \<open>
  The summary row is read back aggregate by aggregate: whatever value the engine gives for each item of
  the summary query, the reader puts it in the field of that aggregate, for every combination of flags.
\<close>

theorem parse_stats_reads_items:
  "parse_stats (map engine (stats_items col flags)) flags =
     \<lparr>cs_total = stats_int (Some (engine ''count(*)'')),
      cs_non_null = stats_int (Some (engine (''count('' @ col @ '')''))),
      cs_distinct = (if sf_distinct flags then Some (stats_int (Some (engine (''count(distinct '' @ col @ '')'')))) else None),
      cs_min = engine (''min('' @ col @ '')''), cs_max = engine (''max('' @ col @ '')''),
      cs_sum = (if sf_numeric flags then non_null_val (Some (engine (''sum('' @ col @ '')''))) else None),
      cs_avg = (if sf_numeric flags then non_null_val (Some (engine (''avg('' @ col @ '')''))) else None)\<rparr>"
  by (simp add: parse_stats_def stats_items_def cell_at_def nth_append numeral_eq_Suc)

text \<open>The type text MySQL reports for an enum: its variants quoted, inner quotes doubled.\<close>

definition mysql_enum_type :: "string list \<Rightarrow> string" where
  "mysql_enum_type vs = ''enum('' @ join_with '','' (map (\<lambda>v. single_quoted (replace_char CHR 0x27 [CHR 0x27, CHR 0x27] v)) vs) @ '')''"

lemma replace_char_simps [simp]:
  "replace_char c r [] = []" "replace_char c r (x # s) = (if x = c then r else [x]) @ replace_char c r s"
  by (simp_all add: replace_char_def)

lemma enum_value_quoted:
  "r = [] \<or> hd r \<noteq> CHR 0x27 \<Longrightarrow> enum_value (replace_char CHR 0x27 [CHR 0x27, CHR 0x27] v @ CHR 0x27 # r) = (v, r)"
  by (induction v) (simp_all add: enum_value_close)

lemma enum_values_quoted:
  assumes "CHR 0x27 \<notin> set p" and "r = [] \<or> hd r \<noteq> CHR 0x27"
  shows "enum_values (p @ single_quoted (replace_char CHR 0x27 [CHR 0x27, CHR 0x27] v) @ r) = v # enum_values r"
proof -
  have "dropWhile (\<lambda>c. c \<noteq> CHR 0x27) (p @ CHR 0x27 # x) = CHR 0x27 # x" for x
    using assms(1) by (induction p) auto
  then show ?thesis
    by (subst enum_values.simps) (simp add: single_quoted_def enum_value_quoted [OF assms(2)])
qed

lemma join_with_rest: "join_with sep (x # xs) = x @ (if xs = [] then [] else sep @ join_with sep xs)"
  by (cases xs) simp_all

lemma enum_values_join:
  assumes "CHR 0x27 \<notin> set p"
  shows "enum_values (p @ join_with '','' (map (\<lambda>v. single_quoted (replace_char CHR 0x27 [CHR 0x27, CHR 0x27] v)) vs)) = vs"
  using assms
proof (induction vs arbitrary: p)
  case Nil
  then have "dropWhile (\<lambda>c. c \<noteq> CHR 0x27) p = []" by (auto simp: dropWhile_eq_Nil_conv)
  then show ?case by (subst enum_values.simps) (simp del: dropWhile_eq_Nil_conv)
next
  case (Cons v vs)
  show ?case
  proof (cases "vs = []")
    case True
    then show ?thesis using enum_values_quoted [OF Cons.prems, of "[]" v] by (simp add: enum_values.simps)
  next
    case False
    then show ?thesis
      using enum_values_quoted [OF Cons.prems, of "'','' @ _" v] Cons.IH [of "'',''"] by (simp add: join_with_rest)
  qed
qed

text \<open>
  The variants of a MySQL enum are read back from the type text of the catalog, whatever quotes, commas or
  parentheses they hold.
\<close>

theorem parse_mysql_enum_round_trip: "parse_mysql_enum (mysql_enum_type vs) = vs"
proof -
  have "trim (mysql_enum_type vs) = mysql_enum_type vs"
    by (rule trim_visible) (simp_all add: mysql_enum_type_def graphic_head_def visible_def)
  moreover have "enum_inner (mysql_enum_type vs)
      = Some (join_with '','' (map (\<lambda>v. single_quoted (replace_char CHR 0x27 [CHR 0x27, CHR 0x27] v)) vs))"
    by (simp add: enum_inner_def mysql_enum_type_def strip_prefix_str_def butlast_append)
  ultimately show ?thesis
    using enum_values_join [of "[]" vs] by (simp add: parse_mysql_enum_def)
qed

section \<open>Foreign keys in order\<close>

text \<open>The catalog rows of an edge: one per column pair, under the name of its constraint.\<close>

definition edge_rows :: "fk_edge \<times> string \<Rightarrow> fk_row list" where
  "edge_rows ec = (case ec of (e, name) \<Rightarrow>
     map (\<lambda>(a, b). \<lparr>fr_from_schema = fe_from_schema e, fr_from_table = fe_from_table e, fr_from_column = a,
       fr_to_schema = fe_to_schema e, fr_to_table = fe_to_table e, fr_to_column = b, fr_constraint = name\<rparr>) (fe_columns e))"

definition edge_key :: "fk_edge \<times> string \<Rightarrow> string \<times> string \<times> string" where
  "edge_key ec = ((case fe_from_schema (fst ec) of Some s \<Rightarrow> s | None \<Rightarrow> []), fe_from_table (fst ec), snd ec)"

fun neighbours_differ :: "('a \<Rightarrow> 'b) \<Rightarrow> 'b option \<Rightarrow> 'a list \<Rightarrow> bool" where
  "neighbours_differ f prev [] = True"
| "neighbours_differ f prev (x # xs) = (prev \<noteq> Some (f x) \<and> neighbours_differ f (Some (f x)) xs)"

lemma group_fk_extend:
  assumes "\<forall>r \<in> set rows. fk_row_key r = k"
  shows "fold group_fk_step rows (edges @ [e], Some k)
           = (edges @ [e\<lparr>fe_columns := fe_columns e @ map (\<lambda>r. (fr_from_column r, fr_to_column r)) rows\<rparr>], Some k)"
  using assms by (induction rows arbitrary: e) (simp_all add: push_column_def)

lemma group_fk_edge:
  assumes "fe_columns (fst ec) \<noteq> []" and "current \<noteq> Some (edge_key ec)"
  shows "fold group_fk_step (edge_rows ec) (edges, current) = (edges @ [fst ec], Some (edge_key ec))"
proof -
  obtain e name where ec: "ec = (e, name)" by (cases ec)
  obtain a b cs where cols: "fe_columns e = (a, b) # cs" using assms(1) ec by (cases "fe_columns e") auto
  let ?row = "\<lambda>(a, b). \<lparr>fr_from_schema = fe_from_schema e, fr_from_table = fe_from_table e, fr_from_column = a,
       fr_to_schema = fe_to_schema e, fr_to_table = fe_to_table e, fr_to_column = b, fr_constraint = name\<rparr>"
  have key: "fk_row_key (?row p) = edge_key ec" for p
    by (cases p) (simp add: fk_row_key_def edge_key_def ec)
  have "fold group_fk_step (edge_rows ec) (edges, current)
      = fold group_fk_step (map ?row cs) (edges @ [fk_row_edge (?row (a, b))], Some (edge_key ec))"
    using key [of "(a, b)"] assms(2) by (simp add: edge_rows_def ec cols)
  also have "\<dots> = (edges @ [(fk_row_edge (?row (a, b)))\<lparr>fe_columns := fe_columns (fk_row_edge (?row (a, b)))
       @ map (\<lambda>r. (fr_from_column r, fr_to_column r)) (map ?row cs)\<rparr>], Some (edge_key ec))"
    by (rule group_fk_extend) (use key in auto)
  also have "map (\<lambda>r. (fr_from_column r, fr_to_column r)) (map ?row cs) = cs"
    by (induction cs) auto
  finally show ?thesis by (simp add: fk_row_edge_def ec cols [symmetric] del: fold_simps)
qed

text \<open>
  Foreign keys survive the trip through the catalog: when the rows of each constraint arrive together in
  key order, folding them gives one edge per constraint with all its column pairs in order.
\<close>

theorem group_fk_edges_round_trip:
  assumes "\<forall>ec \<in> set ecs. fe_columns (fst ec) \<noteq> []" and "neighbours_differ edge_key None ecs"
  shows "group_fk_edges (concat (map edge_rows ecs)) = map fst ecs"
proof -
  have "fst (fold group_fk_step (concat (map edge_rows ecs)) (edges, current)) = edges @ map fst ecs"
    if "neighbours_differ edge_key current ecs" for edges current
    using assms(1) that
  proof (induction ecs arbitrary: edges current)
    case (Cons ec ecs)
    then show ?case by (simp add: group_fk_edge)
  qed simp
  from this [OF assms(2), of "[]"] show ?thesis by (simp add: group_fk_edges_def)
qed

theorem group_fk_edges_round_trip_witness:
  "let e = \<lparr>fe_from_schema = None, fe_from_table = ''t'', fe_to_schema = None, fe_to_table = ''u'', fe_columns = [(''a'', ''x''), (''b'', ''y'')]\<rparr>
   in group_fk_edges (edge_rows (e, ''c1'') @ edge_rows (e, ''c2'')) = [e, e]"
  using group_fk_edges_round_trip [of "[(\<lparr>fe_from_schema = None, fe_from_table = ''t'', fe_to_schema = None, fe_to_table = ''u'',
      fe_columns = [(''a'', ''x''), (''b'', ''y'')]\<rparr>, ''c1''), (\<lparr>fe_from_schema = None, fe_from_table = ''t'', fe_to_schema = None,
      fe_to_table = ''u'', fe_columns = [(''a'', ''x''), (''b'', ''y'')]\<rparr>, ''c2'')]"]
  by (simp add: edge_key_def Let_def)

lemma split_char_not_Nil [simp]: "split_char c s \<noteq> []"
  by (induction s) auto

lemma joined_path_not_Nil: "g \<in> set (joined_cols joins) \<Longrightarrow> fst g \<noteq> []"
  by (auto simp: joined_cols_def)

lemma mset_by_anchor:
  assumes "distinct bcs" and "\<forall>g \<in> set gs. fst g \<noteq> []"
  shows "mset (concat (map (\<lambda>bc. sort_key fst (filter (anchored_at bc) gs)) bcs))
           = mset (filter (\<lambda>g. hd (fst g) \<in> set bcs) gs)"
  using assms(1)
proof (induction bcs)
  case (Cons bc bcs)
  have "mset (filter (\<lambda>g. hd (fst g) \<in> set (bc # bcs)) gs)
      = mset (filter (anchored_at bc) gs) + mset (filter (\<lambda>g. hd (fst g) \<in> set bcs) gs)"
    using Cons.prems assms(2) by (induction gs) (auto simp: anchored_at_def)
  with Cons show ?case by simp
qed simp

lemma mset_concat_Cons: "mset (concat (map (\<lambda>b. f b # g b) bs)) = mset (map f bs) + mset (concat (map g bs))"
  by (induction bs) simp_all

lemma subseq_concat_Cons: "subseq (map f bs) (concat (map (\<lambda>b. f b # g b) bs))"
proof (induction bs)
  case (Cons b bs)
  then show ?case by (simp add: list_emb_append2)
qed simp

text \<open>
  Expanding foreign keys inline loses no column and invents none: the projection is the base columns, in
  their order, and every selected column of every join exactly once.
\<close>

theorem join_selects_complete:
  assumes "distinct base_cols" and "base_cols \<noteq> []"
  shows "mset (join_selects base_cols joins quote) =
           mset (map (\<lambda>bc. BASE_ALIAS @ ''.'' @ quote bc) base_cols) + mset (map (render_joined quote) (joined_cols joins)) \<and>
         subseq (map (\<lambda>bc. BASE_ALIAS @ ''.'' @ quote bc) base_cols) (join_selects base_cols joins quote)"
proof (rule conjI)
  let ?gs = "joined_cols joins" and ?base = "\<lambda>bc. BASE_ALIAS @ ''.'' @ quote bc"
  let ?group = "\<lambda>bc. map (render_joined quote) (sort_key fst (filter (anchored_at bc) ?gs))"
  have path: "\<forall>g \<in> set ?gs. fst g \<noteq> []" using joined_path_not_Nil by blast
  have orphans: "filter (\<lambda>g. \<not> (fst g \<noteq> [] \<and> hd (fst g) \<in> set base_cols)) ?gs = filter (\<lambda>g. hd (fst g) \<notin> set base_cols) ?gs"
    using path by (intro filter_cong) auto
  have sel: "join_selects base_cols joins quote = concat (map (\<lambda>bc. ?base bc # ?group bc) base_cols)
      @ map (render_joined quote) (sort_key fst (filter (\<lambda>g. hd (fst g) \<notin> set base_cols) ?gs))"
    using assms(2) orphans unfolding join_selects_def Let_def by (simp only: if_False comp_def)
  have "mset (concat (map ?group base_cols))
      = image_mset (render_joined quote) (mset (concat (map (\<lambda>bc. sort_key fst (filter (anchored_at bc) ?gs)) base_cols)))"
    by (induction base_cols) simp_all
  also have "\<dots> = image_mset (render_joined quote) (mset (filter (\<lambda>g. hd (fst g) \<in> set base_cols) ?gs))"
    using mset_by_anchor [OF assms(1) path] by simp
  finally have groups: "mset (concat (map ?group base_cols))
      = image_mset (render_joined quote) (mset (filter (\<lambda>g. hd (fst g) \<in> set base_cols) ?gs))" .
  have "mset ?gs = mset (filter (\<lambda>g. hd (fst g) \<in> set base_cols) ?gs) + mset (filter (\<lambda>g. hd (fst g) \<notin> set base_cols) ?gs)"
    by simp
  then have "image_mset (render_joined quote) (mset ?gs) = image_mset (render_joined quote) (mset (filter (\<lambda>g. hd (fst g) \<in> set base_cols) ?gs))
      + image_mset (render_joined quote) (mset (filter (\<lambda>g. hd (fst g) \<notin> set base_cols) ?gs))"
    by (metis image_mset_union)
  then show "mset (join_selects base_cols joins quote) = mset (map ?base base_cols) + mset (map (render_joined quote) ?gs)"
    unfolding sel mset_append mset_concat_Cons groups by simp
  show "subseq (map ?base base_cols) (join_selects base_cols joins quote)"
    unfolding sel by (rule subseq_order.trans [OF subseq_concat_Cons prefix_imp_subseq], rule prefixI, rule refl)
qed

theorem join_selects_complete_witness:
  "let j = \<lparr>fj_alias = ''_red_j0'', fj_parent_alias = BASE_ALIAS, fj_on = [(''t'', ''id'')], fj_to_schema = None, fj_to_table = ''tiers'',
         fj_select = [(''name'', ''t.name'')]\<rparr>
   in subseq [''_red_base.t'', ''_red_base.u''] (join_selects [''t'', ''u''] [j] (\<lambda>s. s)) \<and>
      mset (join_selects [''t'', ''u''] [j] (\<lambda>s. s)) = {#''_red_base.t'', ''_red_base.u'', ''_red_j0.name AS t.name''#}"
  using join_selects_complete [where base_cols = "[''t'', ''u'']" and quote = "\<lambda>s. s" and joins = "[\<lparr>fj_alias = ''_red_j0'', fj_parent_alias = BASE_ALIAS, fj_on = [(''t'', ''id'')],
      fj_to_schema = None, fj_to_table = ''tiers'', fj_select = [(''name'', ''t.name'')]\<rparr>]"]
  by (simp add: BASE_ALIAS_def joined_cols_def render_joined_def Let_def add_mset_commute)

end
