(* ===== verification/Schema_Types.thy ===== *)
theory Schema_Types
  imports Sql_Wrap
begin

text \<open>
  The engine-neutral type lattice (\<^verbatim>\<open>crates/red-core/src/typemap.rs\<close>) and the DDL rendered with it
  (\<^verbatim>\<open>crates/red-core/src/ddl.rs\<close>). The laws say which types survive a trip through an engine's spelling.
\<close>

section \<open>The lattice\<close>

datatype norm_type =
    NBool | NInt | NBigInt | NReal
  | NDecimal "nat option" "nat option"
  | NText "nat option"
  | NBlob | NUuid | NJson | NDate | NTime | NTimestamp | NTimestampTz
  | NUnknown string

text \<open>\<^verbatim>\<open>parse::<u8>\<close> and \<^verbatim>\<open>parse::<u32>\<close>: digits with an optional plus sign, below the bound.\<close>

definition parse_unsigned :: "nat \<Rightarrow> string \<Rightarrow> nat option" where
  "parse_unsigned bound s =
     (let d = (if prefix ''+'' s then tl s else s) in
      if d \<noteq> [] \<and> list_all is_ascii_digit d \<and> digits_value d < bound then Some (digits_value d) else None)"

definition parse_decimal_args :: "string \<Rightarrow> nat option \<times> nat option" where
  "parse_decimal_args args =
     (let parts = map (\<lambda>p. parse_unsigned 256 (trim p)) (split_char CHR '','' args) in
      (hd parts, case tl parts of [] \<Rightarrow> None | p # _ \<Rightarrow> p))"

definition parse_length :: "string \<Rightarrow> nat option" where
  "parse_length args = parse_unsigned (2 ^ 32) (trim (takeWhile (\<lambda>c. c \<noteq> CHR '','' \<and> c \<noteq> CHR '' '') args))"

definition ends_with :: "string \<Rightarrow> string \<Rightarrow> bool" where
  "ends_with s t \<longleftrightarrow> suffix t s"

definition type_base :: "string \<Rightarrow> string" where
  "type_base head = (case split_whitespace head of w # _ \<Rightarrow> w | [] \<Rightarrow> head)"

definition BIGINT_NAMES :: "string list" where
  "BIGINT_NAMES = [''bigint'', ''int8'', ''bigserial'', ''serial8'', ''int64'', ''uint64'', ''long'']"

definition INT_NAMES :: "string list" where
  "INT_NAMES = [''int'', ''integer'', ''int4'', ''serial'', ''serial4'', ''int32'', ''uint32'', ''smallint'', ''int2'',
     ''smallserial'', ''serial2'', ''int16'', ''uint16'', ''mediumint'', ''tinyint'', ''uint8'', ''year'']"

definition REAL_NAMES :: "string list" where
  "REAL_NAMES = [''real'', ''float'', ''float4'', ''float8'', ''double'', ''float32'', ''float64'']"

definition DECIMAL_NAMES :: "string list" where
  "DECIMAL_NAMES = [''decimal'', ''numeric'', ''dec'', ''money'', ''fixed'']"

definition TEXT_NAMES :: "string list" where
  "TEXT_NAMES = [''varchar'', ''char'', ''character'', ''varchar2'', ''nvarchar'', ''nchar'', ''varying'', ''text'', ''string'',
     ''clob'', ''tinytext'', ''mediumtext'', ''longtext'', ''ntext'', ''enum'', ''set'', ''name'', ''citext'', ''fixedstring'']"

definition BLOB_NAMES :: "string list" where
  "BLOB_NAMES = [''blob'', ''bytea'', ''binary'', ''varbinary'', ''tinyblob'', ''mediumblob'', ''longblob'', ''bytes'', ''image'']"

definition TIMESTAMP_NAMES :: "string list" where
  "TIMESTAMP_NAMES = [''timestamp'', ''datetime'', ''datetime64'', ''datetime2'', ''smalldatetime'']"

text \<open>The classification of a type that is not wrapped: \<open>raw\<close> as declared and \<open>lower\<close> in lower case.\<close>

definition classify :: "string \<Rightarrow> string \<Rightarrow> norm_type" where
  "classify raw lower =
     (let has_tz = contains_str lower ''with time zone'' \<or> ends_with lower ''tz'';
          (head, args) = (case split_once CHR ''('' lower of
              Some (h, rest) \<Rightarrow> (trim h, trim (trim_end_matches CHR '')'' rest))
            | None \<Rightarrow> (lower, []));
          base = type_base head
      in if base \<in> set [''bool'', ''boolean''] then NBool
         else if base = ''tinyint'' \<and> trim (takeWhile (\<lambda>c. c \<noteq> CHR '')'') args) = ''1'' then NBool
         else if base \<in> set BIGINT_NAMES then NBigInt
         else if base \<in> set INT_NAMES then NInt
         else if base \<in> set REAL_NAMES then NReal
         else if base \<in> set DECIMAL_NAMES then NDecimal (fst (parse_decimal_args args)) (snd (parse_decimal_args args))
         else if base \<in> set [''uuid'', ''uniqueidentifier''] then NUuid
         else if base \<in> set [''json'', ''jsonb''] then NJson
         else if base \<in> set TEXT_NAMES then NText (parse_length args)
         else if base \<in> set BLOB_NAMES then NBlob
         else if base = ''date'' then NDate
         else if base = ''time'' then NTime
         else if base = ''timestamptz'' then NTimestampTz
         else if base \<in> set TIMESTAMP_NAMES then (if has_tz then NTimestampTz else NTimestamp)
         else NUnknown raw)"

text \<open>The inner type of \<^verbatim>\<open>Nullable(T)\<close> or \<^verbatim>\<open>LowCardinality(T)\<close>.\<close>

definition unwrap_type :: "string \<Rightarrow> string option" where
  "unwrap_type lower =
     find_map_option (\<lambda>w. case strip_prefix_str w lower of
         Some rest \<Rightarrow> if rest \<noteq> [] \<and> last rest = CHR '')'' then Some (butlast rest) else None
       | None \<Rightarrow> None) [''nullable('', ''lowcardinality('']"

lemma unwrap_type_length: "unwrap_type s = Some t \<Longrightarrow> length t < length s"
  by (auto simp: unwrap_type_def strip_prefix_str_def split: if_splits option.splits)

lemma length_trim: "length (trim s) \<le> length s"
proof -
  have "length (trim_end t) \<le> length t" for t
    by (induction t rule: trim_end.induct) (subst trim_end.simps, auto)
  then show ?thesis unfolding trim_def using length_trim_start [of s] le_trans by blast
qed

function normalize_type :: "string \<Rightarrow> norm_type" where
  "normalize_type decl =
     (let raw = trim decl; lower = to_ascii_lowercase raw in
      if raw = [] then NText None
      else (case unwrap_type lower of Some inner \<Rightarrow> normalize_type inner | None \<Rightarrow> classify raw lower))"
  by pat_completeness auto
termination
proof (relation "measure length")
  fix decl raw lower inner :: string
  assume "raw = trim decl" "lower = to_ascii_lowercase raw" "unwrap_type lower = Some inner"
  then have "length inner < length (trim decl)"
    using unwrap_type_length [of lower inner] by (simp add: to_ascii_lowercase_def)
  with length_trim [of decl] show "(inner, decl) \<in> measure length" by simp
qed simp

declare normalize_type.simps [simp del]

section \<open>Spelling\<close>

definition decimal_spelling :: "string \<Rightarrow> nat option \<Rightarrow> nat option \<Rightarrow> string" where
  "decimal_spelling name precision scale =
     (case precision of
        Some p \<Rightarrow> (case scale of
            Some s \<Rightarrow> name @ ''('' @ show_nat p @ '','' @ show_nat s @ '')''
          | None \<Rightarrow> name @ ''('' @ show_nat p @ '')'')
      | None \<Rightarrow> name)"

fun spell_sqlite :: "norm_type \<Rightarrow> string" where
  "spell_sqlite NBool = ''INTEGER''"
| "spell_sqlite NInt = ''INTEGER''"
| "spell_sqlite NBigInt = ''INTEGER''"
| "spell_sqlite NReal = ''REAL''"
| "spell_sqlite (NDecimal _ _) = ''NUMERIC''"
| "spell_sqlite NBlob = ''BLOB''"
| "spell_sqlite (NUnknown s) = s"
| "spell_sqlite _ = ''TEXT''"

fun spell_postgres :: "norm_type \<Rightarrow> string" where
  "spell_postgres NBool = ''boolean''"
| "spell_postgres NInt = ''integer''"
| "spell_postgres NBigInt = ''bigint''"
| "spell_postgres NReal = ''double precision''"
| "spell_postgres (NDecimal p s) = decimal_spelling ''numeric'' p s"
| "spell_postgres (NText (Some l)) = ''varchar('' @ show_nat l @ '')''"
| "spell_postgres (NText None) = ''text''"
| "spell_postgres NBlob = ''bytea''"
| "spell_postgres NUuid = ''uuid''"
| "spell_postgres NJson = ''jsonb''"
| "spell_postgres NDate = ''date''"
| "spell_postgres NTime = ''time''"
| "spell_postgres NTimestamp = ''timestamp''"
| "spell_postgres NTimestampTz = ''timestamptz''"
| "spell_postgres (NUnknown s) = s"

fun spell_mysql :: "norm_type \<Rightarrow> string" where
  "spell_mysql NBool = ''tinyint(1)''"
| "spell_mysql NInt = ''int''"
| "spell_mysql NBigInt = ''bigint''"
| "spell_mysql NReal = ''double''"
| "spell_mysql (NDecimal p s) = decimal_spelling ''decimal'' p s"
| "spell_mysql (NText (Some l)) = (if l \<le> 16383 then ''varchar('' @ show_nat l @ '')'' else ''longtext'')"
| "spell_mysql (NText None) = ''longtext''"
| "spell_mysql NBlob = ''longblob''"
| "spell_mysql NUuid = ''char(36)''"
| "spell_mysql NJson = ''json''"
| "spell_mysql NDate = ''date''"
| "spell_mysql NTime = ''time''"
| "spell_mysql NTimestamp = ''datetime''"
| "spell_mysql NTimestampTz = ''datetime''"
| "spell_mysql (NUnknown s) = s"

fun spell_clickhouse :: "norm_type \<Rightarrow> string" where
  "spell_clickhouse NBool = ''Bool''"
| "spell_clickhouse NInt = ''Int32''"
| "spell_clickhouse NBigInt = ''Int64''"
| "spell_clickhouse NReal = ''Float64''"
| "spell_clickhouse (NDecimal p s) = decimal_spelling ''Decimal'' p s"
| "spell_clickhouse (NText _) = ''String''"
| "spell_clickhouse NJson = ''String''"
| "spell_clickhouse NBlob = ''String''"
| "spell_clickhouse NUuid = ''UUID''"
| "spell_clickhouse NDate = ''Date''"
| "spell_clickhouse NTime = ''String''"
| "spell_clickhouse NTimestamp = ''DateTime''"
| "spell_clickhouse NTimestampTz = ''DateTime''"
| "spell_clickhouse (NUnknown s) = s"

text \<open>Redis and MongoDB have no column model; a debug build asserts that they never get here.\<close>

fun spell :: "db_kind \<Rightarrow> norm_type \<Rightarrow> string" where
  "spell Sqlite t = spell_sqlite t"
| "spell Postgres t = spell_postgres t"
| "spell Mysql t = spell_mysql t"
| "spell Clickhouse t = spell_clickhouse t"
| "spell Redis t = []"
| "spell Mongo t = []"

definition is_unknown :: "norm_type \<Rightarrow> bool" where
  "is_unknown t = (case t of NUnknown _ \<Rightarrow> True | _ \<Rightarrow> False)"

definition sqlite_native :: "norm_type \<Rightarrow> bool" where
  "sqlite_native t = (case t of NInt \<Rightarrow> True | NBigInt \<Rightarrow> True | NReal \<Rightarrow> True | NText _ \<Rightarrow> True | NBlob \<Rightarrow> True | _ \<Rightarrow> False)"

definition is_lossy :: "db_kind \<Rightarrow> norm_type \<Rightarrow> bool" where
  "is_lossy target t =
     (if is_unknown t then True
      else case target of
        Sqlite \<Rightarrow> \<not> sqlite_native t
      | Mysql \<Rightarrow> t = NUuid
      | Postgres \<Rightarrow> False
      | Clickhouse \<Rightarrow> True
      | Redis \<Rightarrow> True
      | Mongo \<Rightarrow> True)"

section \<open>DDL\<close>

definition sqlite_inline_pk :: "db_kind \<Rightarrow> column_meta list \<Rightarrow> bool" where
  "sqlite_inline_pk kind columns \<longleftrightarrow>
     kind = Sqlite \<and> length (filter cm_primary_key columns) = 1 \<and>
     list_ex (\<lambda>c. cm_primary_key c \<and> cm_auto_increment c) columns"

definition norm_of :: "column_meta \<Rightarrow> norm_type" where
  "norm_of c = normalize_type (case cm_type c of Some t \<Rightarrow> t | None \<Rightarrow> [])"

definition column_def :: "db_kind \<Rightarrow> bool \<Rightarrow> (string \<Rightarrow> string) \<Rightarrow> column_meta \<Rightarrow> string" where
  "column_def kind inline_pk quote c =
     (let nt = norm_of c in
      if cm_auto_increment c then
        (case kind of
           Sqlite \<Rightarrow> if inline_pk \<and> cm_primary_key c then quote (cm_name c) @ '' INTEGER PRIMARY KEY''
                     else quote (cm_name c) @ '' INTEGER''
         | Postgres \<Rightarrow> quote (cm_name c) @ '' '' @ (if nt = NBigInt then ''bigserial'' else ''serial'')
         | Mysql \<Rightarrow> quote (cm_name c) @ '' '' @ spell kind nt @ '' AUTO_INCREMENT''
         | _ \<Rightarrow> quote (cm_name c) @ '' '' @ spell kind nt)
      else
        quote (cm_name c) @ '' '' @ spell kind nt
          @ (if cm_not_null c then '' NOT NULL'' else [])
          @ (case map_option trim (cm_default c) of Some d \<Rightarrow> if d \<noteq> [] then '' DEFAULT '' @ d else [] | None \<Rightarrow> []))"

definition create_defs :: "column_meta list \<Rightarrow> db_kind \<Rightarrow> (string \<Rightarrow> string) \<Rightarrow> string list" where
  "create_defs columns kind quote =
     map (column_def kind (sqlite_inline_pk kind columns) quote) columns
     @ (if filter cm_primary_key columns \<noteq> [] \<and> \<not> sqlite_inline_pk kind columns
        then [''PRIMARY KEY ('' @ join_with '', '' (map (quote \<circ> cm_name) (filter cm_primary_key columns)) @ '')'']
        else [])"

definition create_table_sql :: "table_ref \<Rightarrow> column_meta list \<Rightarrow> db_kind \<Rightarrow> (string \<Rightarrow> string) \<Rightarrow> string" where
  "create_table_sql table columns kind quote =
     ''CREATE TABLE IF NOT EXISTS '' @ qualify_table table quote @ '' ('' @ join_with '', '' (create_defs columns kind quote) @ '')''"

definition create_index_sql :: "table_ref \<Rightarrow> string \<Rightarrow> bool \<Rightarrow> string list \<Rightarrow> db_kind \<Rightarrow> (string \<Rightarrow> string) \<Rightarrow> string" where
  "create_index_sql table name unique columns kind quote =
     (let uniq = (if unique then ''UNIQUE '' else []);
          guard = (if kind = Mysql then [] else ''IF NOT EXISTS '');
          cols = join_with '', '' (map quote columns)
      in if kind = Sqlite then
           ''CREATE '' @ uniq @ ''INDEX '' @ guard @ qualify_table \<lparr>tr_schema = tr_schema table, tr_name = name\<rparr> quote
             @ '' ON '' @ quote (tr_name table) @ '' ('' @ cols @ '')''
         else ''CREATE '' @ uniq @ ''INDEX '' @ guard @ quote name @ '' ON '' @ qualify_table table quote @ '' ('' @ cols @ '')'')"

definition add_fk_sql :: "table_ref \<Rightarrow> string list \<Rightarrow> table_ref \<Rightarrow> string list \<Rightarrow> (string \<Rightarrow> string) \<Rightarrow> string" where
  "add_fk_sql child columns parent ref_columns quote =
     ''ALTER TABLE '' @ qualify_table child quote @ '' ADD FOREIGN KEY ('' @ join_with '', '' (map quote columns)
       @ '') REFERENCES '' @ qualify_table parent quote @ '' ('' @ join_with '', '' (map quote ref_columns) @ '')''"

definition drop_table_sql :: "table_ref \<Rightarrow> (string \<Rightarrow> string) \<Rightarrow> string" where
  "drop_table_sql table quote = ''DROP TABLE IF EXISTS '' @ qualify_table table quote"

definition strip_defaults :: "column_meta list \<Rightarrow> column_meta list" where
  "strip_defaults columns = map (\<lambda>c. c\<lparr>cm_default := None\<rparr>) columns"

definition apply_shape_options :: "column_meta list \<Rightarrow> bool \<Rightarrow> column_meta list" where
  "apply_shape_options columns primary_keys =
     (if primary_keys then columns
      else map (\<lambda>c. c\<lparr>cm_primary_key := False, cm_auto_increment := False\<rparr>) columns)"

section \<open>Round trips\<close>

lemma lowercase_id: "\<forall>c \<in> set s. \<not> is_ascii_upper c \<Longrightarrow> to_ascii_lowercase s = s"
  by (induction s) (simp_all add: to_ascii_lowercase_def lower_byte_def)

lemma digit_classes: "48 \<le> byte c \<and> byte c \<le> 57 \<Longrightarrow> visible c \<and> \<not> is_ascii_upper c"
  by (simp add: visible_def is_ascii_upper_def)

lemma show_nat_ends: "show_nat n \<noteq> []" "visible (last (show_nat n))" "graphic_head (show_nat n @ r)"
proof -
  show ne: "show_nat n \<noteq> []" using show_nat_digits by blast
  then show "visible (last (show_nat n))" using show_nat_range [of "last (show_nat n)" n] digit_classes by simp
  obtain c t where ct: "show_nat n = c # t" using ne by (cases "show_nat n") auto
  with show_nat_range [of c n] show "graphic_head (show_nat n @ r)" by (simp add: graphic_head_def)
qed

lemma trim_show_nat [simp]: "trim (show_nat n) = show_nat n"
  using trim_visible [of "show_nat n"] show_nat_ends [of n] show_nat_ends(3) [of n "[]"] by simp

lemma parse_unsigned_show: "n < bound \<Longrightarrow> parse_unsigned bound (show_nat n) = Some n"
proof -
  assume n: "n < bound"
  have "\<not> prefix ''+'' (show_nat n)"
    using show_nat_range [of "CHR ''+''" n] by (cases "show_nat n") auto
  with n show_nat_digits [of n] show ?thesis by (simp add: parse_unsigned_def)
qed

lemma split_char_plain: "c \<notin> set s \<Longrightarrow> split_char c s = [s]"
  by (induction s) auto

lemma split_char_append: "c \<notin> set a \<Longrightarrow> split_char c (a @ c # b) = a # split_char c b"
  by (induction a) auto

lemma show_nat_no_comma: "c \<in> set [CHR '','', CHR '' '', CHR ''('', CHR '')''] \<Longrightarrow> c \<notin> set (show_nat n)"
  using show_nat_range [of c n] by auto

lemma parse_decimal_args_show:
  assumes "p < 256"
  shows "parse_decimal_args (show_nat p) = (Some p, None)"
    and "s < 256 \<Longrightarrow> parse_decimal_args (show_nat p @ '','' @ show_nat s) = (Some p, Some s)"
  using assms show_nat_no_comma [of "CHR '',''"]
  by (simp_all add: parse_decimal_args_def split_char_plain split_char_append parse_unsigned_show)

lemma parse_length_show: "l < 2 ^ 32 \<Longrightarrow> parse_length (show_nat l) = Some l"
proof -
  have all: "takeWhile (\<lambda>c. c \<noteq> CHR '','' \<and> c \<noteq> CHR '' '') (show_nat l) = show_nat l"
    using show_nat_no_comma by (auto simp: takeWhile_eq_all_conv)
  show "l < 2 ^ 32 \<Longrightarrow> ?thesis" unfolding parse_length_def all trim_show_nat by (rule parse_unsigned_show)
qed

text \<open>A spelled type with arguments: the name and the arguments are found again.\<close>

definition args_text :: "string \<Rightarrow> bool" where
  "args_text a \<longleftrightarrow> graphic_head a \<and> visible (last a) \<and> last a \<noteq> CHR '')'' \<and> (\<forall>c \<in> set a. \<not> is_ascii_upper c)"

definition plain_name :: "string \<Rightarrow> bool" where
  "plain_name b \<longleftrightarrow> split_whitespace b = [b] \<and> trim b = b \<and> CHR ''('' \<notin> set b \<and> (\<forall>c \<in> set b. \<not> is_ascii_upper c) \<and>
     graphic_head b \<and> b \<noteq> ''nullable'' \<and> b \<noteq> ''lowcardinality''"

lemma unwrap_type_plain:
  assumes "plain_name b"
  shows "unwrap_type (b @ ''('' @ r) = None"
proof -
  have "\<not> prefix (w @ ''('') (b @ ''('' @ r)" if "w \<noteq> b" "CHR ''('' \<notin> set w" for w
  proof
    assume "prefix (w @ ''('') (b @ ''('' @ r)"
    then obtain z where "b @ CHR ''('' # r = w @ CHR ''('' # z" by (auto simp: prefix_def)
    then have "split_once CHR ''('' (b @ CHR ''('' # r) = split_once CHR ''('' (w @ CHR ''('' # z)" by simp
    with that assms show False by (simp add: plain_name_def)
  qed
  from this [of "''nullable''"] this [of "''lowcardinality''"] assms
  have "\<not> prefix ''nullable('' (b @ ''('' @ r)" "\<not> prefix ''lowcardinality('' (b @ ''('' @ r)"
    by (auto simp: plain_name_def)
  then show ?thesis
    by (simp only: unwrap_type_def strip_prefix_str_def if_False find_map_option.simps option.case)
qed

lemma normalize_with_args:
  assumes b: "plain_name b" and a: "args_text a"
  shows "normalize_type (b @ ''('' @ a @ '')'') = classify (b @ ''('' @ a @ '')'') (b @ ''('' @ a @ '')'')"
    and "split_once CHR ''('' (b @ ''('' @ a @ '')'') = Some (b, a @ '')'')"
    and "trim (trim_end_matches CHR '')'' (a @ '')'')) = a"
    and "type_base (trim b) = b"
proof -
  let ?s = "b @ ''('' @ a @ '')''"
  have ne: "a \<noteq> []" "b \<noteq> []" using a b by (auto simp: args_text_def plain_name_def graphic_head_def)
  have "trim ?s = ?s"
    by (rule trim_visible) (use b ne in \<open>simp_all add: plain_name_def graphic_head_def visible_def\<close>)
  moreover have "to_ascii_lowercase ?s = ?s"
    by (rule lowercase_id) (use a b in \<open>auto simp: args_text_def plain_name_def is_ascii_upper_def\<close>)
  ultimately show "normalize_type ?s = classify ?s ?s"
    using ne unwrap_type_plain [OF b, of "a @ '')''"] by (subst normalize_type.simps) (simp add: Let_def)
  show "split_once CHR ''('' ?s = Some (b, a @ '')'')" using b by (simp add: plain_name_def)
  have "trim_end_matches CHR '')'' (a @ '')'') = a"
    using a ne by (cases a rule: rev_exhaust) (auto simp: trim_end_matches_def args_text_def)
  then show "trim (trim_end_matches CHR '')'' (a @ '')'')) = a"
    using a by (simp add: trim_visible args_text_def)
  show "type_base (trim b) = b" using b by (simp add: plain_name_def type_base_def)
qed

lemma args_text_nums: "args_text (show_nat p)" "args_text (show_nat p @ '','' @ show_nat s)"
proof -
  have low: "\<not> is_ascii_upper c" "c \<noteq> CHR '')''" if "c \<in> set (show_nat n)" for c n
    using show_nat_range [OF that] digit_classes by auto
  have "last (show_nat n) \<noteq> CHR '')''" for n using low(2) show_nat_ends(1) by (metis last_in_set)
  then show "args_text (show_nat p)" "args_text (show_nat p @ '','' @ show_nat s)"
    using low show_nat_ends show_nat_ends(3) [of _ "[]"] by (auto simp: args_text_def is_ascii_upper_def)
qed

text \<open>Names of printable ASCII without upper case: they are one word and are not trimmed.\<close>

lemma ws_word_graphic: "\<forall>c \<in> set s. 33 \<le> byte c \<and> byte c < 128 \<Longrightarrow> ws_word s = s"
  by (induction s) (simp_all add: graphic_head_def)

lemma trim_Nil [simp]: "trim [] = []" "split_whitespace [] = []"
  by code_simp+

lemma plain_nameI:
  assumes "list_all (\<lambda>c. (33 \<le> byte c \<and> byte c < 65 \<or> 90 < byte c \<and> byte c < 128) \<and> c \<noteq> CHR ''('') b" "b \<noteq> []"
    "b \<noteq> ''nullable''" "b \<noteq> ''lowcardinality''"
  shows "plain_name b"
proof -
  have g: "\<forall>c \<in> set b. 33 \<le> byte c \<and> byte c < 128"
  proof
    fix c assume "c \<in> set b"
    then have "33 \<le> byte c \<and> byte c < 65 \<or> 90 < byte c \<and> byte c < 128" using assms(1) unfolding list_all_iff by blast
    then show "33 \<le> byte c \<and> byte c < 128" by linarith
  qed
  then have head: "graphic_head b" using assms(2) by (simp add: graphic_head_def)
  have "split_whitespace b = [b]"
    using assms(2) ws_word_graphic [OF g]
    by (subst split_whitespace.simps) (simp add: trim_start_graphic [OF head] Let_def)
  moreover have "33 \<le> byte (last b) \<and> byte (last b) < 128" using g last_in_set [OF assms(2)] by blast
  then have "trim b = b" by (intro trim_visible [OF head]) (simp add: visible_def)
  moreover have "CHR ''('' \<notin> set b" using assms(1) unfolding list_all_iff by blast
  moreover have "\<forall>c \<in> set b. \<not> is_ascii_upper c"
  proof
    fix c assume "c \<in> set b"
    then have "33 \<le> byte c \<and> byte c < 65 \<or> 90 < byte c \<and> byte c < 128" using assms(1) unfolding list_all_iff by blast
    then show "\<not> is_ascii_upper c" unfolding is_ascii_upper_def by linarith
  qed
  ultimately show ?thesis unfolding plain_name_def using assms(3,4) head by blast
qed

lemma plain_names:
  "plain_name ''numeric''" "plain_name ''decimal''" "plain_name ''varchar''"
  by (rule plain_nameI; simp)+

lemma normalize_plain:
  assumes "plain_name b"
  shows "normalize_type b = classify b b" "split_once CHR ''('' b = None" "type_base b = b"
proof -
  have paren: "CHR ''('' \<notin> set b" using assms by (simp add: plain_name_def)
  then show "split_once CHR ''('' b = None" by (simp add: split_once_None)
  show "type_base b = b" using assms by (simp add: plain_name_def type_base_def)
  have "\<not> prefix ''nullable('' b" "\<not> prefix ''lowcardinality('' b" using paren by (auto simp: prefix_def)
  then have "unwrap_type b = None"
    by (simp only: unwrap_type_def strip_prefix_str_def if_False find_map_option.simps option.case)
  moreover have "to_ascii_lowercase b = b" using assms by (intro lowercase_id) (simp add: plain_name_def)
  moreover have "trim b = b" "b \<noteq> []" using assms by (auto simp: plain_name_def graphic_head_def)
  ultimately show "normalize_type b = classify b b" by (subst normalize_type.simps) simp
qed

lemmas name_lists = BIGINT_NAMES_def INT_NAMES_def REAL_NAMES_def DECIMAL_NAMES_def TEXT_NAMES_def BLOB_NAMES_def TIMESTAMP_NAMES_def

lemma classify_plain:
  assumes "plain_name b"
  shows "normalize_type b =
     (if b \<in> set [''bool'', ''boolean''] then NBool
      else if b \<in> set BIGINT_NAMES then NBigInt
      else if b \<in> set INT_NAMES then NInt
      else if b \<in> set REAL_NAMES then NReal
      else if b \<in> set DECIMAL_NAMES then NDecimal None None
      else if b \<in> set [''uuid'', ''uniqueidentifier''] then NUuid
      else if b \<in> set [''json'', ''jsonb''] then NJson
      else if b \<in> set TEXT_NAMES then NText None
      else if b \<in> set BLOB_NAMES then NBlob
      else if b = ''date'' then NDate
      else if b = ''time'' then NTime
      else if b = ''timestamptz'' then NTimestampTz
      else if b \<in> set TIMESTAMP_NAMES then (if contains_str b ''with time zone'' \<or> ends_with b ''tz'' then NTimestampTz else NTimestamp)
      else NUnknown b)"
proof -
  have "parse_decimal_args [] = (None, None)" "parse_length [] = None"
    by (simp_all add: parse_decimal_args_def parse_length_def parse_unsigned_def)
  then show ?thesis
    unfolding normalize_plain(1) [OF assms] classify_def normalize_plain(2) [OF assms]
    by (simp add: normalize_plain(3) [OF assms] Let_def cong: if_cong)
qed

lemma plain_type_names:
  "list_all plain_name [''boolean'', ''integer'', ''bigint'', ''text'', ''bytea'', ''uuid'', ''jsonb'', ''date'', ''time'', ''timestamp'',
     ''timestamptz'', ''int'', ''double'', ''longtext'', ''longblob'', ''json'', ''datetime'', ''numeric'', ''decimal'']"
  by (simp only: list_all_iff list.set ball_simps, intro conjI TrueI; rule plain_nameI; simp)

lemma normalize_decimal:
  assumes "b = ''numeric'' \<or> b = ''decimal''" "args_text a"
  shows "normalize_type (b @ ''('' @ a @ '')'') = NDecimal (fst (parse_decimal_args a)) (snd (parse_decimal_args a))"
proof -
  have b: "plain_name b" using assms(1) plain_names by auto
  have "b \<notin> set [''bool'', ''boolean'']" "b \<noteq> ''tinyint''" "b \<notin> set BIGINT_NAMES" "b \<notin> set INT_NAMES" "b \<notin> set REAL_NAMES"
    "b \<in> set DECIMAL_NAMES"
    using assms(1) by (auto simp: BIGINT_NAMES_def INT_NAMES_def REAL_NAMES_def DECIMAL_NAMES_def)
  then show ?thesis
    unfolding normalize_with_args(1) [OF b assms(2)] classify_def normalize_with_args(2) [OF b assms(2)]
    by (simp add: normalize_with_args(3,4) [OF b assms(2)] Let_def)
qed

lemma normalize_varchar:
  assumes "args_text a"
  shows "normalize_type (''varchar('' @ a @ '')'') = NText (parse_length a)"
proof -
  note b = plain_names(3)
  have eq: "''varchar('' @ a @ '')'' = ''varchar'' @ ''('' @ a @ '')''" by simp
  have "''varchar'' \<notin> set BIGINT_NAMES" "''varchar'' \<notin> set INT_NAMES" "''varchar'' \<notin> set REAL_NAMES" "''varchar'' \<notin> set DECIMAL_NAMES"
    "''varchar'' \<in> set TEXT_NAMES"
    by (simp_all add: BIGINT_NAMES_def INT_NAMES_def REAL_NAMES_def DECIMAL_NAMES_def TEXT_NAMES_def)
  then show ?thesis
    unfolding eq normalize_with_args(1) [OF b assms] classify_def normalize_with_args(2) [OF b assms]
    by (simp add: normalize_with_args(3,4) [OF b assms] Let_def)
qed

text \<open>The types the lattice can hold faithfully, and those the spelling of an engine keeps.\<close>

definition type_ok :: "norm_type \<Rightarrow> bool" where
  "type_ok t =
     (case t of
        NDecimal p s \<Rightarrow> (case p of None \<Rightarrow> s = None | Some p \<Rightarrow> p < 256 \<and> (case s of None \<Rightarrow> True | Some s \<Rightarrow> s < 256))
      | NText (Some l) \<Rightarrow> l < 2 ^ 32
      | NUnknown _ \<Rightarrow> False
      | _ \<Rightarrow> True)"

definition faithful :: "db_kind \<Rightarrow> norm_type \<Rightarrow> bool" where
  "faithful k t \<longleftrightarrow> type_ok t \<and>
     (k = Postgres \<or> k = Mysql \<and> t \<noteq> NUuid \<and> t \<noteq> NTimestampTz \<and> (case t of NText (Some l) \<Rightarrow> l \<le> 16383 | _ \<Rightarrow> True))"

lemma normalize_names:
  "normalize_type ''boolean'' = NBool" "normalize_type ''integer'' = NInt" "normalize_type ''bigint'' = NBigInt"
  "normalize_type ''text'' = NText None" "normalize_type ''bytea'' = NBlob"
  "normalize_type ''uuid'' = NUuid" "normalize_type ''jsonb'' = NJson" "normalize_type ''date'' = NDate"
  "normalize_type ''time'' = NTime" "normalize_type ''timestamptz'' = NTimestampTz"
  "normalize_type ''int'' = NInt" "normalize_type ''double'' = NReal"
  "normalize_type ''longtext'' = NText None" "normalize_type ''longblob'' = NBlob" "normalize_type ''json'' = NJson"
  "normalize_type ''numeric'' = NDecimal None None" "normalize_type ''decimal'' = NDecimal None None"
  using plain_type_names by (simp_all add: classify_plain name_lists)

lemma normalize_timestamps:
  "normalize_type ''timestamp'' = NTimestamp" "normalize_type ''datetime'' = NTimestamp"
proof -
  have "\<not> contains_str ''timestamp'' ''with time zone''" "\<not> contains_str ''datetime'' ''with time zone''" by code_simp+
  then show "normalize_type ''timestamp'' = NTimestamp" "normalize_type ''datetime'' = NTimestamp"
    using plain_type_names by (simp_all add: classify_plain name_lists ends_with_def suffix_def del: split_once_str.simps)
qed

lemma normalize_double_precision: "normalize_type ''double precision'' = NReal"
  by code_simp

lemma normalize_tinyint: "normalize_type ''tinyint(1)'' = NBool"
  by code_simp

lemmas normalize_spelled = normalize_names normalize_timestamps normalize_double_precision normalize_tinyint

lemma faithful_spelled:
  assumes "faithful k t"
  shows "normalize_type (spell k t) = t"
proof -
  have dec: "normalize_type (decimal_spelling b p s) = NDecimal p s"
    if "b = ''numeric'' \<or> b = ''decimal''" "type_ok (NDecimal p s)" for b p s
  proof (cases p)
    case None
    with that normalize_spelled show ?thesis by (auto simp: type_ok_def decimal_spelling_def)
  next
    case (Some n)
    with that show ?thesis
      using normalize_decimal [OF that(1) args_text_nums(1), of n] normalize_decimal [OF that(1) args_text_nums(2), of n "the s"]
        parse_decimal_args_show [of n]
      by (cases s) (auto simp: type_ok_def decimal_spelling_def)
  qed
  have vch: "normalize_type (''varchar('' @ show_nat l @ '')'') = NText (Some l)" if "l < 2 ^ 32" for l
    using normalize_varchar [OF args_text_nums(1)] parse_length_show [OF that] by simp
  from assms have ok: "type_ok t" and k: "k = Postgres \<or> k = Mysql" by (auto simp: faithful_def)
  show ?thesis
  proof (cases t)
    case (NDecimal p s)
    with ok k dec show ?thesis by auto
  next
    case (NText l)
    with ok k assms vch normalize_spelled show ?thesis
      by (cases l) (auto simp: faithful_def type_ok_def)
  qed (use ok k assms normalize_spelled in \<open>auto simp: faithful_def type_ok_def\<close>)
qed

text \<open>
  C25. A column type survives the trip through the DDL of PostgreSQL and MySQL: reading the spelled type gives
  back the same class with its length, precision and scale, for every type the lattice holds; on MySQL
  except UUIDs, time-zoned timestamps and text longer than 16383.
\<close>

theorem types_survive_ddl:
  assumes "faithful k t"
  shows "normalize_type (spell k t) = t"
  by (rule faithful_spelled [OF assms])

theorem types_survive_ddl_witness: "normalize_type (spell Mysql (NDecimal (Some 10) (Some 2))) = NDecimal (Some 10) (Some 2)"
  by (rule types_survive_ddl) (simp add: faithful_def type_ok_def)

text \<open>
  MySQL drops the zone of a timestamp and the length of a long text without the create preview saying so.
\<close>

lemma mysql_loses_time_zone:
  "\<not> is_lossy Mysql NTimestampTz" "normalize_type (spell Mysql NTimestampTz) \<noteq> NTimestampTz"
  by (simp_all add: is_lossy_def is_unknown_def normalize_spelled)

end
