(* ===== verification/Schema_Diff.thy ===== *)
theory Schema_Diff
  imports Schema_Types
begin

text \<open>
  Schema compare (\<^verbatim>\<open>crates/red-core/src/schema_diff.rs\<close>): the delta between two snapshots and the script that
  spells it. The laws: a table created elsewhere compares as equal to its source, swapping the sides swaps
  additions and removals, and the additive script only adds.
\<close>

section \<open>Data\<close>

datatype object_kind = OTable | OView | OMaterializedView | OFunction | OProcedure | OTrigger | OSequence | OType

record object_meta =
  om_name :: string
  om_kind :: object_kind

record schema_meta =
  sm_name :: string
  sm_objects :: "object_meta list"

definition is_relation :: "object_kind \<Rightarrow> bool" where
  "is_relation k \<longleftrightarrow> k \<in> {OTable, OView, OMaterializedView}"

definition is_lazy :: "object_kind \<Rightarrow> bool" where
  "is_lazy k \<longleftrightarrow> \<not> is_relation k"

definition is_replaceable :: "object_kind \<Rightarrow> bool" where
  "is_replaceable k \<longleftrightarrow> k \<in> {OView, OFunction, OProcedure, OTrigger}"

fun group_label :: "object_kind \<Rightarrow> string" where
  "group_label OTable = ''Tables''"
| "group_label OView = ''Views''"
| "group_label OMaterializedView = ''Materialized views''"
| "group_label OFunction = ''Functions''"
| "group_label OProcedure = ''Procedures''"
| "group_label OTrigger = ''Triggers''"
| "group_label OSequence = ''Sequences''"
| "group_label OType = ''Types''"

fun object_kind_str :: "object_kind \<Rightarrow> string" where
  "object_kind_str OTable = ''table''"
| "object_kind_str OView = ''view''"
| "object_kind_str OMaterializedView = ''matview''"
| "object_kind_str OFunction = ''function''"
| "object_kind_str OProcedure = ''procedure''"
| "object_kind_str OTrigger = ''trigger''"
| "object_kind_str OSequence = ''sequence''"
| "object_kind_str OType = ''type''"

definition from_token :: "string \<Rightarrow> object_kind option" where
  "from_token token =
     (if token = ''table'' then Some OTable
      else if token = ''view'' then Some OView
      else if token = ''matview'' then Some OMaterializedView
      else if token = ''function'' then Some OFunction
      else if token = ''procedure'' then Some OProcedure
      else if token = ''trigger'' then Some OTrigger
      else if token = ''sequence'' then Some OSequence
      else if token = ''type'' then Some OType
      else None)"

record schema_snapshot =
  sn_engine :: db_kind
  sn_namespace :: string
  sn_objects :: "object_meta list"
  sn_details :: "string \<rightharpoonup> table_detail"

definition from_meta :: "db_kind \<Rightarrow> schema_meta \<Rightarrow> schema_snapshot" where
  "from_meta engine meta =
     \<lparr>sn_engine = engine, sn_namespace = sm_name meta, sn_objects = sm_objects meta, sn_details = Map.empty\<rparr>"

datatype confidence = Certain | Uncertain

record column_change =
  ch_left :: column_meta
  ch_right :: column_meta
  ch_confidence :: confidence
  ch_summary :: string

record table_delta =
  dt_name :: string
  dt_columns_added :: "column_meta list"
  dt_columns_removed :: "column_meta list"
  dt_columns_changed :: "column_change list"
  dt_indexes_added :: "index_meta list"
  dt_indexes_removed :: "index_meta list"
  dt_fks_added :: "foreign_key_meta list"
  dt_fks_removed :: "foreign_key_meta list"

record schema_delta =
  sd_objects_added :: "object_meta list"
  sd_objects_removed :: "object_meta list"
  sd_tables_changed :: "table_delta list"
  sd_cross_engine :: bool

definition table_delta_is_empty :: "table_delta \<Rightarrow> bool" where
  "table_delta_is_empty t \<longleftrightarrow>
     dt_columns_added t = [] \<and> dt_columns_removed t = [] \<and> dt_columns_changed t = [] \<and>
     dt_indexes_added t = [] \<and> dt_indexes_removed t = [] \<and> dt_fks_added t = [] \<and> dt_fks_removed t = []"

definition delta_is_empty :: "schema_delta \<Rightarrow> bool" where
  "delta_is_empty d \<longleftrightarrow> sd_objects_added d = [] \<and> sd_objects_removed d = [] \<and> sd_tables_changed d = []"

definition table_delta_count :: "table_delta \<Rightarrow> nat" where
  "table_delta_count t =
     length (dt_columns_added t) + length (dt_columns_removed t) + length (dt_columns_changed t)
     + length (dt_indexes_added t) + length (dt_indexes_removed t) + length (dt_fks_added t) + length (dt_fks_removed t)"

definition delta_count :: "schema_delta \<Rightarrow> nat" where
  "delta_count d =
     length (sd_objects_added d) + length (sd_objects_removed d) + sum_list (map table_delta_count (sd_tables_changed d))"

section \<open>Comparison\<close>

definition fk_eq :: "foreign_key_meta \<Rightarrow> foreign_key_meta \<Rightarrow> bool" where
  "fk_eq a b \<longleftrightarrow> fk_column a = fk_column b \<and> fk_ref_table a = fk_ref_table b \<and> fk_ref_column a = fk_ref_column b"

definition type_text :: "column_meta \<Rightarrow> string" where
  "type_text c = (case cm_type c of Some t \<Rightarrow> t | None \<Rightarrow> [])"

definition type_differs :: "column_meta \<Rightarrow> column_meta \<Rightarrow> db_kind \<Rightarrow> db_kind \<Rightarrow> bool" where
  "type_differs l r left_engine right_engine =
     (let lc = norm_of l; rc = norm_of r; same_text = eq_ignore_ascii_case (type_text l) (type_text r) in
      if is_unknown lc \<or> is_unknown rc then \<not> same_text
      else if lc \<noteq> rc then True
      else left_engine = right_engine \<and> \<not> same_text)"

text \<open>U+2192, the arrow of a type change.\<close>

definition ARROW :: string where
  "ARROW = [CHR 0xE2, CHR 0x86, CHR 0x92]"

definition change_parts :: "column_meta \<Rightarrow> column_meta \<Rightarrow> db_kind \<Rightarrow> db_kind \<Rightarrow> string list" where
  "change_parts l r left_engine right_engine =
     (if type_differs l r left_engine right_engine then [type_text l @ '' '' @ ARROW @ '' '' @ type_text r] else [])
     @ (if cm_not_null l \<noteq> cm_not_null r then [if cm_not_null r then ''now NOT NULL'' else ''now nullable''] else [])
     @ (if cm_default l \<noteq> cm_default r
        then [case cm_default r of Some d \<Rightarrow> ''default '' @ d | None \<Rightarrow> ''default dropped''] else [])
     @ (if cm_primary_key l \<noteq> cm_primary_key r
        then [if cm_primary_key r then ''now primary key'' else ''no longer primary key''] else [])"

definition compare_column :: "column_meta \<Rightarrow> column_meta \<Rightarrow> db_kind \<Rightarrow> db_kind \<Rightarrow> column_change option" where
  "compare_column l r left_engine right_engine =
     (let parts = change_parts l r left_engine right_engine in
      if parts = [] then None
      else Some \<lparr>ch_left = l, ch_right = r,
        ch_confidence = (if is_unknown (norm_of l) \<or> is_unknown (norm_of r) then Uncertain else Certain),
        ch_summary = join_with '', '' parts\<rparr>)"

definition column_changes :: "table_detail \<Rightarrow> table_detail \<Rightarrow> db_kind \<Rightarrow> db_kind \<Rightarrow> column_change list" where
  "column_changes l r left_engine right_engine =
     List.map_filter (\<lambda>rc. case find (\<lambda>lc. cm_name lc = cm_name rc) (td_columns l) of
         None \<Rightarrow> None
       | Some lc \<Rightarrow> compare_column lc rc left_engine right_engine) (td_columns r)"

definition compare_table :: "string \<Rightarrow> table_detail \<Rightarrow> table_detail \<Rightarrow> db_kind \<Rightarrow> db_kind \<Rightarrow> table_delta" where
  "compare_table name l r left_engine right_engine =
     \<lparr>dt_name = name,
      dt_columns_added = filter (\<lambda>rc. find (\<lambda>lc. cm_name lc = cm_name rc) (td_columns l) = None) (td_columns r),
      dt_columns_removed = filter (\<lambda>lc. \<not> list_ex (\<lambda>rc. cm_name rc = cm_name lc) (td_columns r)) (td_columns l),
      dt_columns_changed = column_changes l r left_engine right_engine,
      dt_indexes_added = filter (\<lambda>ri. \<not> list_ex (\<lambda>li. im_name li = im_name ri) (td_indexes l)) (td_indexes r),
      dt_indexes_removed = filter (\<lambda>li. \<not> list_ex (\<lambda>ri. im_name ri = im_name li) (td_indexes r)) (td_indexes l),
      dt_fks_added = filter (\<lambda>rf. \<not> list_ex (\<lambda>lf. fk_eq lf rf) (td_foreign_keys l)) (td_foreign_keys r),
      dt_fks_removed = filter (\<lambda>lf. \<not> list_ex (\<lambda>rf. fk_eq lf rf) (td_foreign_keys r)) (td_foreign_keys l)\<rparr>"

definition has_object :: "schema_snapshot \<Rightarrow> string \<Rightarrow> bool" where
  "has_object s name = list_ex (\<lambda>ob. om_name ob = name) (sn_objects s)"

definition object_delta :: "schema_snapshot \<Rightarrow> schema_snapshot \<Rightarrow> object_meta \<Rightarrow> table_delta option" where
  "object_delta left right ob =
     (if \<not> is_relation (om_kind ob) \<or> \<not> has_object right (om_name ob) then None
      else case (sn_details left (om_name ob), sn_details right (om_name ob)) of
        (Some l, Some r) \<Rightarrow>
          (let t = compare_table (om_name ob) l r (sn_engine left) (sn_engine right) in
           if table_delta_is_empty t then None else Some t)
      | _ \<Rightarrow> None)"

definition compare_schemas :: "schema_snapshot \<Rightarrow> schema_snapshot \<Rightarrow> schema_delta" where
  "compare_schemas left right =
     \<lparr>sd_objects_added = filter (\<lambda>ob. \<not> has_object left (om_name ob)) (sn_objects right),
      sd_objects_removed = filter (\<lambda>ob. \<not> has_object right (om_name ob)) (sn_objects left),
      sd_tables_changed = sort_key dt_name (List.map_filter (object_delta left right) (sn_objects left)),
      sd_cross_engine = (sn_engine left \<noteq> sn_engine right)\<rparr>"

section \<open>Script\<close>

datatype script_scope = Additive | IncludeDrops

definition NL :: string where
  "NL = [CHR 0x0A]"

definition script_header :: "bool \<Rightarrow> string list" where
  "script_header cross =
     [''-- Generated by RED from a schema comparison. Read it before running it:'',
      ''-- RED does not execute this, and it is not a migration tool.'']
     @ (if cross then
        [''-- The two sides are different engines, so columns were compared by type'',
         ''-- class rather than by spelling. Check the types before applying.''] else [])
     @ [[]]"

definition drop_prefix :: "script_scope \<Rightarrow> string" where
  "drop_prefix scope = (case scope of Additive \<Rightarrow> ''-- '' | IncludeDrops \<Rightarrow> [])"

definition change_lines :: "string \<Rightarrow> (string \<Rightarrow> string) \<Rightarrow> column_change \<Rightarrow> string list" where
  "change_lines table quote c =
     [''-- '' @ cm_name (ch_left c) @ '': '' @ ch_summary c @ '' (''
        @ (case ch_confidence c of
             Certain \<Rightarrow> ''check for data loss before running''
           | Uncertain \<Rightarrow> ''types outside RED'' @ [CHR 0x27] @ ''s lattice; this may be a spelling difference'')
        @ '')'']
     @ (case cm_type (ch_right c) of
          Some ty \<Rightarrow> [''-- ALTER TABLE '' @ table @ '' ALTER COLUMN '' @ quote (cm_name (ch_left c)) @ '' TYPE '' @ ty @ '';'']
        | None \<Rightarrow> [])"

definition table_lines :: "string \<Rightarrow> script_scope \<Rightarrow> (string \<Rightarrow> string) \<Rightarrow> table_delta \<Rightarrow> string list" where
  "table_lines namespace scope quote t =
     (let table = quote namespace @ ''.'' @ quote (dt_name t) in
      map (\<lambda>c. ''ALTER TABLE '' @ table @ '' ADD COLUMN '' @ quote (cm_name c) @ '' ''
             @ (case cm_type c of Some ty \<Rightarrow> ty | None \<Rightarrow> ''text'')
             @ (case cm_default c of Some d \<Rightarrow> '' DEFAULT '' @ d | None \<Rightarrow> [])
             @ (if cm_not_null c then '' NOT NULL'' else []) @ '';'') (dt_columns_added t)
      @ map (\<lambda>c. drop_prefix scope @ ''ALTER TABLE '' @ table @ '' DROP COLUMN '' @ quote (cm_name c) @ '';'') (dt_columns_removed t)
      @ concat (map (change_lines table quote) (dt_columns_changed t))
      @ map (\<lambda>i. ''CREATE '' @ (if im_unique i then ''UNIQUE '' else []) @ ''INDEX '' @ quote (im_name i) @ '' ON '' @ table
             @ '' ('' @ join_with '', '' (map quote (im_columns i)) @ '');'') (dt_indexes_added t)
      @ map (\<lambda>i. drop_prefix scope @ ''DROP INDEX '' @ quote (im_name i) @ '';'') (dt_indexes_removed t)
      @ map (\<lambda>f. ''ALTER TABLE '' @ table @ '' ADD FOREIGN KEY ('' @ quote (fk_column f) @ '') REFERENCES '' @ quote (fk_ref_table f)
             @ '' ('' @ quote (fk_ref_column f) @ '');'') (dt_fks_added t))"

definition object_lines :: "schema_delta \<Rightarrow> string \<Rightarrow> script_scope \<Rightarrow> (string \<Rightarrow> string) \<Rightarrow> string list" where
  "object_lines d namespace scope quote =
     map (\<lambda>ob. ''-- '' @ object_kind_str (om_kind ob) @ '' '' @ namespace @ ''.'' @ om_name ob
           @ '' exists only on the right; copy its definition with Show DDL.'') (sd_objects_added d)
     @ map (\<lambda>ob. drop_prefix scope @ ''DROP TABLE '' @ quote namespace @ ''.'' @ quote (om_name ob) @ '';'') (sd_objects_removed d)
     @ (if sd_objects_added d \<noteq> [] \<or> sd_objects_removed d \<noteq> [] then [[]] else [])"

text \<open>Every piece the code pushes ends with a line feed.\<close>

definition script_lines :: "schema_delta \<Rightarrow> string \<Rightarrow> script_scope \<Rightarrow> (string \<Rightarrow> string) \<Rightarrow> string list" where
  "script_lines d namespace scope quote =
     script_header (sd_cross_engine d) @ object_lines d namespace scope quote
     @ concat (map (table_lines namespace scope quote) (sd_tables_changed d))"

definition to_sql :: "schema_delta \<Rightarrow> string \<Rightarrow> script_scope \<Rightarrow> (string \<Rightarrow> string) \<Rightarrow> string" where
  "to_sql d namespace scope quote = concat (map (\<lambda>l. l @ NL) (script_lines d namespace scope quote))"

section \<open>A created table matches its source\<close>

text \<open>What introspection finds after the DDL of \<^verbatim>\<open>create_table_sql\<close> ran on the engine \<open>k\<close>: the spelled types.\<close>

definition created_column :: "db_kind \<Rightarrow> column_meta \<Rightarrow> column_meta" where
  "created_column k c = c\<lparr>cm_type := Some (spell k (norm_of c))\<rparr>"

definition created_detail :: "db_kind \<Rightarrow> table_detail \<Rightarrow> table_detail" where
  "created_detail k d = d\<lparr>td_columns := map (created_column k) (td_columns d)\<rparr>"

definition created_snapshot :: "db_kind \<Rightarrow> schema_snapshot \<Rightarrow> schema_snapshot" where
  "created_snapshot k s = s\<lparr>sn_engine := k, sn_details := map_option (created_detail k) \<circ> sn_details s\<rparr>"

lemma created_column_simps [simp]:
  "cm_name (created_column k c) = cm_name c" "cm_not_null (created_column k c) = cm_not_null c"
  "cm_primary_key (created_column k c) = cm_primary_key c" "cm_default (created_column k c) = cm_default c"
  by (simp_all add: created_column_def)

lemma faithful_known: "faithful k t \<Longrightarrow> \<not> is_unknown t"
  by (cases t) (simp_all add: faithful_def type_ok_def is_unknown_def)

lemma norm_of_created:
  assumes "normalize_type (spell k (norm_of c)) = norm_of c"
  shows "norm_of (created_column k c) = norm_of c"
  using assms by (simp add: norm_of_def created_column_def)

lemma compare_column_created:
  assumes "normalize_type (spell k (norm_of c)) = norm_of c" "\<not> is_unknown (norm_of c)" "e \<noteq> k"
  shows "compare_column c (created_column k c) e k = None"
  using assms by (simp add: compare_column_def change_parts_def type_differs_def norm_of_created)

lemma find_distinct:
  "distinct (map f xs) \<Longrightarrow> x \<in> set xs \<Longrightarrow> find (\<lambda>y. f y = f x) xs = Some x"
proof (induction xs)
  case (Cons a xs)
  then show ?case by (cases "f a = f x") (auto simp: rev_image_eqI)
qed simp

lemma map_filter_None: "(\<And>x. x \<in> set xs \<Longrightarrow> f x = None) \<Longrightarrow> List.map_filter f xs = []"
  by (induction xs) (auto simp: List.map_filter_simps)

lemma compare_table_created:
  assumes "distinct (map cm_name (td_columns d))" "e \<noteq> k"
    and "\<forall>c \<in> set (td_columns d). normalize_type (spell k (norm_of c)) = norm_of c \<and> \<not> is_unknown (norm_of c)"
  shows "table_delta_is_empty (compare_table name d (created_detail k d) e k)"
proof -
  have found: "find (\<lambda>lc. cm_name lc = cm_name c) (td_columns d) = Some c" if "c \<in> set (td_columns d)" for c
    by (rule find_distinct [OF assms(1) that])
  have "column_changes d (created_detail k d) e k = []"
    unfolding column_changes_def
    by (rule map_filter_None) (use assms(2,3) in \<open>auto simp: created_detail_def found compare_column_created\<close>)
  then show ?thesis
    by (auto simp: table_delta_is_empty_def compare_table_def created_detail_def filter_empty_conv list_ex_iff fk_eq_def found)
qed

definition snapshot_ok :: "schema_snapshot \<Rightarrow> db_kind \<Rightarrow> bool" where
  "snapshot_ok s k \<longleftrightarrow>
     list_all (\<lambda>ob. case sn_details s (om_name ob) of
         None \<Rightarrow> True
       | Some d \<Rightarrow> distinct (map cm_name (td_columns d)) \<and> list_all (\<lambda>c. faithful k (norm_of c)) (td_columns d)) (sn_objects s)"

lemma spelled_back:
  assumes "faithful k t"
  shows "normalize_type (spell k t) = t \<and> \<not> is_unknown t"
  using assms faithful_spelled faithful_known by blast

lemma has_object_iff: "has_object s n \<longleftrightarrow> n \<in> om_name ` set (sn_objects s)"
  by (auto simp: has_object_def list_ex_iff)


text \<open>
  The two directions of a comparison agree: what one side reports as added the other reports as
  removed, for objects and, table by table, for columns, indexes and foreign keys.
\<close>

theorem compare_swaps_sides:
  "sd_objects_added (compare_schemas l r) = sd_objects_removed (compare_schemas r l) \<and>
   dt_columns_added (compare_table n a b el er) = dt_columns_removed (compare_table n b a er el) \<and>
   dt_indexes_added (compare_table n a b el er) = dt_indexes_removed (compare_table n b a er el) \<and>
   dt_fks_added (compare_table n a b el er) = dt_fks_removed (compare_table n b a er el)"
proof (intro conjI)
  have find_none: "find P xs = None \<longleftrightarrow> \<not> list_ex P xs" for P and xs :: "column_meta list"
    by (auto simp: find_None_iff list_ex_iff)
  show "dt_columns_added (compare_table n a b el er) = dt_columns_removed (compare_table n b a er el)"
    by (simp add: compare_table_def find_none)
  show "dt_fks_added (compare_table n a b el er) = dt_fks_removed (compare_table n b a er el)"
    by (auto simp: compare_table_def list_ex_iff fk_eq_def intro!: filter_cong)
qed (simp_all add: compare_schemas_def compare_table_def)

section \<open>The additive script\<close>

definition no_newline :: "string \<Rightarrow> bool" where
  "no_newline s \<longleftrightarrow> CHR 0x0A \<notin> set s"

text \<open>The text of a delta that ends up in the script, and the quoter, hold no line feed.\<close>

definition column_no_newline :: "column_meta \<Rightarrow> bool" where
  "column_no_newline c \<longleftrightarrow> no_newline (cm_name c) \<and> (case cm_type c of Some t \<Rightarrow> no_newline t | None \<Rightarrow> True) \<and>
     (case cm_default c of Some d \<Rightarrow> no_newline d | None \<Rightarrow> True)"

definition table_no_newline :: "table_delta \<Rightarrow> bool" where
  "table_no_newline t \<longleftrightarrow>
     no_newline (dt_name t) \<and> list_all column_no_newline (dt_columns_added t) \<and> list_all column_no_newline (dt_columns_removed t) \<and>
     list_all (\<lambda>c. column_no_newline (ch_left c) \<and> column_no_newline (ch_right c) \<and> no_newline (ch_summary c)) (dt_columns_changed t) \<and>
     list_all (\<lambda>i. no_newline (im_name i) \<and> list_all no_newline (im_columns i)) (dt_indexes_added t) \<and>
     list_all (\<lambda>i. no_newline (im_name i)) (dt_indexes_removed t) \<and>
     list_all (\<lambda>f. no_newline (fk_column f) \<and> no_newline (fk_ref_table f) \<and> no_newline (fk_ref_column f)) (dt_fks_added t)"

definition delta_no_newline :: "schema_delta \<Rightarrow> string \<Rightarrow> bool" where
  "delta_no_newline d namespace \<longleftrightarrow>
     no_newline namespace \<and> list_all (\<lambda>ob. no_newline (om_name ob)) (sd_objects_added d) \<and>
     list_all (\<lambda>ob. no_newline (om_name ob)) (sd_objects_removed d) \<and> list_all table_no_newline (sd_tables_changed d)"

text \<open>A line of the script that changes nothing or only adds.\<close>

definition adding_line :: "string \<Rightarrow> (string \<Rightarrow> string) \<Rightarrow> schema_delta \<Rightarrow> string \<Rightarrow> bool" where
  "adding_line namespace quote d l \<longleftrightarrow>
     l = [] \<or> prefix ''-- '' l \<or> prefix ''CREATE '' l \<or>
     (\<exists>t \<in> set (sd_tables_changed d). prefix (''ALTER TABLE '' @ quote namespace @ ''.'' @ quote (dt_name t) @ '' ADD '') l)"

lemma no_newline_simps [simp]:
  "no_newline []" "no_newline (c # s) \<longleftrightarrow> c \<noteq> CHR 0x0A \<and> no_newline s" "no_newline (s @ t) \<longleftrightarrow> no_newline s \<and> no_newline t"
  by (auto simp: no_newline_def)

lemma no_newline_join: "no_newline sep \<Longrightarrow> list_all no_newline xs \<Longrightarrow> no_newline (join_with sep xs)"
  by (induction sep xs rule: join_with.induct) auto

lemma split_lines: "list_all no_newline ls \<Longrightarrow> split_char CHR 0x0A (concat (map (\<lambda>l. l @ NL) ls)) = ls @ [[]]"
proof (induction ls)
  case (Cons l ls)
  then have "CHR 0x0A \<notin> set l" by (simp add: no_newline_def)
  from split_char_append [OF this] Cons show ?case by (simp add: NL_def)
qed simp

lemma script_header_lines: "l \<in> set (script_header cross) \<Longrightarrow> no_newline l \<and> (l = [] \<or> prefix ''-- '' l)"
  by (auto simp: script_header_def split: if_splits)

lemma object_kind_no_newline: "no_newline (object_kind_str k)"
  by (cases k) simp_all

lemma object_lines_additive:
  assumes "delta_no_newline d namespace" and "\<And>s. no_newline s \<Longrightarrow> no_newline (quote s)"
    and "l \<in> set (object_lines d namespace Additive quote)"
  shows "no_newline l \<and> (l = [] \<or> prefix ''-- '' l)"
  using assms
  by (auto simp: object_lines_def drop_prefix_def delta_no_newline_def list_all_iff object_kind_no_newline split: if_splits)

lemma change_lines_additive:
  assumes "column_no_newline (ch_left c)" "column_no_newline (ch_right c)" "no_newline (ch_summary c)" "no_newline table"
    and "\<And>s. no_newline s \<Longrightarrow> no_newline (quote s)" and "l \<in> set (change_lines table quote c)"
  shows "no_newline l \<and> prefix ''-- '' l"
proof -
  have conf: "no_newline (case ch_confidence c of Certain \<Rightarrow> ''check for data loss before running''
      | Uncertain \<Rightarrow> ''types outside RED'' @ [CHR 0x27] @ ''s lattice; this may be a spelling difference'')"
    by (cases "ch_confidence c") simp_all
  show ?thesis
  proof (cases "cm_type (ch_right c)")
    case None
    then have "l = hd (change_lines table quote c)" using assms(6) by (simp add: change_lines_def)
    then show ?thesis using assms(1,3) conf by (simp add: change_lines_def column_no_newline_def)
  next
    case (Some ty)
    then have "no_newline ty" using assms(2) by (simp add: column_no_newline_def)
    moreover have "l = change_lines table quote c ! 0 \<or> l = change_lines table quote c ! 1"
      using assms(6) Some by (simp add: change_lines_def)
    ultimately show ?thesis
      using assms(1,3,4) assms(5) [of "cm_name (ch_left c)"] conf Some by (elim disjE) (simp_all add: change_lines_def column_no_newline_def)
  qed
qed

lemma table_lines_additive:
  assumes "table_no_newline t" and "no_newline namespace" and q: "\<And>s. no_newline s \<Longrightarrow> no_newline (quote s)"
    and "l \<in> set (table_lines namespace Additive quote t)"
  shows "no_newline l \<and> (prefix ''-- '' l \<or> prefix ''CREATE '' l \<or>
           prefix (''ALTER TABLE '' @ quote namespace @ ''.'' @ quote (dt_name t) @ '' ADD '') l)"
proof -
  let ?table = "quote namespace @ ''.'' @ quote (dt_name t)"
  have tb: "no_newline ?table" using assms(1,2) q by (simp add: table_no_newline_def)
  from assms(4) consider
    (add) c where "c \<in> set (dt_columns_added t)" "l = ''ALTER TABLE '' @ ?table @ '' ADD COLUMN '' @ quote (cm_name c) @ '' ''
             @ (case cm_type c of Some ty \<Rightarrow> ty | None \<Rightarrow> ''text'')
             @ (case cm_default c of Some d \<Rightarrow> '' DEFAULT '' @ d | None \<Rightarrow> [])
             @ (if cm_not_null c then '' NOT NULL'' else []) @ '';''"
    | (drop) c where "c \<in> set (dt_columns_removed t)" "l = ''-- ALTER TABLE '' @ ?table @ '' DROP COLUMN '' @ quote (cm_name c) @ '';''"
    | (change) c where "c \<in> set (dt_columns_changed t)" "l \<in> set (change_lines ?table quote c)"
    | (index) i where "i \<in> set (dt_indexes_added t)" "l = ''CREATE '' @ (if im_unique i then ''UNIQUE '' else []) @ ''INDEX ''
             @ quote (im_name i) @ '' ON '' @ ?table @ '' ('' @ join_with '', '' (map quote (im_columns i)) @ '');''"
    | (drop_index) i where "i \<in> set (dt_indexes_removed t)" "l = ''-- DROP INDEX '' @ quote (im_name i) @ '';''"
    | (fk) f where "f \<in> set (dt_fks_added t)" "l = ''ALTER TABLE '' @ ?table @ '' ADD FOREIGN KEY ('' @ quote (fk_column f) @ '') REFERENCES ''
             @ quote (fk_ref_table f) @ '' ('' @ quote (fk_ref_column f) @ '');''"
    by (auto simp: table_lines_def drop_prefix_def Let_def)
  then show ?thesis
  proof cases
    case add
    then show ?thesis using assms(1) tb q
      by (auto simp: table_no_newline_def list_all_iff column_no_newline_def split: option.splits)
  next
    case drop
    then show ?thesis using assms(1) tb q by (auto simp: table_no_newline_def list_all_iff column_no_newline_def)
  next
    case change
    then have "column_no_newline (ch_left c)" "column_no_newline (ch_right c)" "no_newline (ch_summary c)"
      using assms(1) by (auto simp: table_no_newline_def list_all_iff)
    from change_lines_additive [OF this tb q change(2)] show ?thesis by blast
  next
    case index
    then have "no_newline (join_with '', '' (map quote (im_columns i)))"
      using assms(1) q by (intro no_newline_join) (auto simp: table_no_newline_def list_all_iff)
    with index show ?thesis using assms(1) tb q by (auto simp: table_no_newline_def list_all_iff)
  next
    case drop_index
    then show ?thesis using assms(1) q by (auto simp: table_no_newline_def list_all_iff)
  next
    case fk
    then show ?thesis using assms(1) tb q by (auto simp: table_no_newline_def list_all_iff)
  qed
qed

lemma script_lines_additive:
  assumes "delta_no_newline d namespace" and q: "\<And>s. no_newline s \<Longrightarrow> no_newline (quote s)"
    and l: "l \<in> set (script_lines d namespace Additive quote)"
  shows "no_newline l \<and> adding_line namespace quote d l"
proof -
  from l consider "l \<in> set (script_header (sd_cross_engine d))" | "l \<in> set (object_lines d namespace Additive quote)"
    | t where "t \<in> set (sd_tables_changed d)" "l \<in> set (table_lines namespace Additive quote t)"
    by (auto simp: script_lines_def)
  then show ?thesis
  proof cases
    case 1
    from script_header_lines [OF this] show ?thesis by (auto simp: adding_line_def)
  next
    case 2
    from object_lines_additive [OF assms(1) q this] show ?thesis by (auto simp: adding_line_def)
  next
    case 3
    then have "table_no_newline t" "no_newline namespace" using assms(1) by (auto simp: delta_no_newline_def list_all_iff)
    from table_lines_additive [OF this q 3(2)] 3(1) show ?thesis by (auto simp: adding_line_def)
  qed
qed

text \<open>
  C27. The additive script only adds: when no name, type, default or summary holds a line feed, every line of
  the script is empty, a comment, a \<^verbatim>\<open>CREATE\<close>, or an \<^verbatim>\<open>ALTER TABLE ... ADD\<close> of a changed table; the drops are
  all behind a comment.
\<close>

theorem additive_script_only_adds:
  assumes "delta_no_newline d namespace" and "\<forall>s. no_newline s \<longrightarrow> no_newline (quote s)"
  shows "\<forall>l \<in> set (split_char CHR 0x0A (to_sql d namespace Additive quote)). adding_line namespace quote d l"
proof -
  have q: "\<And>s. no_newline s \<Longrightarrow> no_newline (quote s)" using assms(2) by blast
  note lines = script_lines_additive [of d namespace quote, OF assms(1) q]
  then have "list_all no_newline (script_lines d namespace Additive quote)" by (auto simp: list_all_iff)
  from split_lines [OF this] lines show ?thesis by (auto simp: to_sql_def adding_line_def)
qed

lemma quote_generic_no_newline: "no_newline s \<Longrightarrow> no_newline (quote_generic s)"
  by (auto simp: quote_generic_def no_newline_def replace_char_def split: if_splits)

text \<open>A delta that drops a table and a column and adds a column, for the witness and the finding below.\<close>

definition demo_column :: "string \<Rightarrow> string option \<Rightarrow> column_meta" where
  "demo_column name dflt = \<lparr>cm_name = name, cm_type = Some ''text'', cm_not_null = False, cm_primary_key = False, cm_default = dflt, cm_auto_increment = False\<rparr>"

definition demo_delta :: "string \<Rightarrow> schema_delta" where
  "demo_delta summary =
     \<lparr>sd_objects_added = [], sd_objects_removed = [\<lparr>om_name = ''old'', om_kind = OTable\<rparr>],
      sd_tables_changed = [\<lparr>dt_name = ''t'', dt_columns_added = [demo_column ''a'' None], dt_columns_removed = [demo_column ''b'' None],
        dt_columns_changed = [\<lparr>ch_left = demo_column ''c'' None, ch_right = demo_column ''c'' None, ch_confidence = Certain, ch_summary = summary\<rparr>],
        dt_indexes_added = [], dt_indexes_removed = [], dt_fks_added = [], dt_fks_removed = []\<rparr>],
      sd_cross_engine = False\<rparr>"

theorem additive_script_only_adds_witness:
  "list_all (adding_line ''public'' quote_generic (demo_delta ''now nullable''))
     (split_char CHR 0x0A (to_sql (demo_delta ''now nullable'') ''public'' Additive quote_generic))"
  unfolding list_all_iff
proof (rule additive_script_only_adds)
  show "delta_no_newline (demo_delta ''now nullable'') ''public''"
    by (simp add: delta_no_newline_def demo_delta_def table_no_newline_def column_no_newline_def demo_column_def)
  show "\<forall>s. no_newline s \<longrightarrow> no_newline (quote_generic s)" using quote_generic_no_newline by blast
qed


text \<open>
  A default expression of two lines leaves the comment it is summarised in: its second line is live text of the
  script. The summary below is the one \<^verbatim>\<open>compare_column\<close> gives for such a default.
\<close>

lemma summary_escapes_comment:
  "\<exists>c. compare_column (demo_column ''c'' None) (demo_column ''c'' (Some (''a'' @ NL @ ''DROP TABLE x''))) Postgres Postgres = Some c \<and>
     ''DROP TABLE x (check for data loss before running)'' \<in> set (split_char CHR 0x0A (hd (change_lines ''t'' quote_generic c)))"
proof -
  let ?l = "demo_column ''c'' None" and ?r = "demo_column ''c'' (Some (''a'' @ NL @ ''DROP TABLE x''))"
  have norm: "norm_of ?l = NText None" "norm_of ?r = NText None" by (simp_all add: norm_of_def demo_column_def normalize_names)
  have "\<not> type_differs ?l ?r Postgres Postgres"
    unfolding type_differs_def norm Let_def by (simp add: is_unknown_def eq_ignore_ascii_case_def type_text_def demo_column_def)
  then have "compare_column ?l ?r Postgres Postgres =
      Some \<lparr>ch_left = ?l, ch_right = ?r, ch_confidence = Certain, ch_summary = ''default a'' @ NL @ ''DROP TABLE x''\<rparr>"
    unfolding compare_column_def change_parts_def norm by (simp add: is_unknown_def) (simp add: demo_column_def)
  moreover have "hd (change_lines ''t'' quote_generic
      \<lparr>ch_left = ?l, ch_right = ?r, ch_confidence = Certain, ch_summary = ''default a'' @ NL @ ''DROP TABLE x''\<rparr>)
      = ''-- c: default a'' @ CHR 0x0A # ''DROP TABLE x (check for data loss before running)''"
    by (simp add: change_lines_def NL_def demo_column_def)
  moreover have "split_char CHR 0x0A (''-- c: default a'' @ CHR 0x0A # ''DROP TABLE x (check for data loss before running)'')
      = [''-- c: default a'', ''DROP TABLE x (check for data loss before running)'']"
    by (subst split_char_append, simp, subst split_char_plain, simp_all)
  ultimately show ?thesis by (metis list.set_intros)
qed

end
