(* ===== verification/Zip_Archive.thy ===== *)
theory Zip_Archive
  imports "HOL-Library.Word" Red_Prelude
begin

unbundle bit_operations_syntax

text \<open>
  The container of a workbook (\<^verbatim>\<open>crates/red-driver/src/xlsx.rs\<close>): CRC-32 with its lookup table, and the writer
  of a ZIP archive of stored entries. The checksum is proved equal to the bit-serial one and to notice the
  change of any one byte; the archive reads rest, part by part, and is never written past 4 GiB.
\<close>

section \<open>CRC-32\<close>

definition CRC_POLY :: "32 word" where
  "CRC_POLY = 0xEDB88320"

definition crc_step :: "32 word \<Rightarrow> 32 word" where
  "crc_step c = (if c AND 1 \<noteq> 0 then CRC_POLY XOR drop_bit 1 c else drop_bit 1 c)"

definition crc_table :: "32 word list" where
  "crc_table = map (\<lambda>i. (crc_step ^^ 8) (of_nat i)) [0..<256]"

definition crc_new :: "32 word" where
  "crc_new = 0xFFFFFFFF"

definition crc_update :: "32 word \<Rightarrow> bytes \<Rightarrow> 32 word" where
  "crc_update state bs =
     fold (\<lambda>b s. drop_bit 8 s XOR crc_table ! unat ((s XOR of_nat (byte b)) AND 0xFF)) bs state"

definition crc_finish :: "32 word \<Rightarrow> 32 word" where
  "crc_finish state = state XOR 0xFFFFFFFF"

definition crc32 :: "bytes \<Rightarrow> 32 word" where
  "crc32 bs = crc_finish (crc_update crc_new bs)"

text \<open>The checksum as it is specified: each byte joins the state and eight bits are divided out one by one.\<close>

definition crc_bit_serial :: "32 word \<Rightarrow> bytes \<Rightarrow> 32 word" where
  "crc_bit_serial state bs = fold (\<lambda>b s. (crc_step ^^ 8) (s XOR of_nat (byte b))) bs state"

lemma crc_update_Nil [simp]: "crc_update s [] = s"
  by (simp add: crc_update_def)

lemma crc_update_append [simp]: "crc_update s (x @ y) = crc_update (crc_update s x) y"
  by (simp add: crc_update_def)

lemma and_1_bit: "c AND 1 \<noteq> 0 \<longleftrightarrow> bit c 0" for c :: "32 word"
  by (simp add: and_one_eq bit_0 odd_iff_mod_2_eq_one flip: mod_2_eq_odd)

lemma bit_crc_step: "bit (crc_step c) n \<longleftrightarrow> (bit c 0 \<and> bit CRC_POLY n) \<noteq> bit c (Suc n)"
  unfolding crc_step_def and_1_bit by (auto simp: bit_simps)

lemma crc_step_xor: "crc_step (a XOR b) = crc_step a XOR crc_step b"
  by (rule bit_eqI) (auto simp: bit_crc_step bit_xor_iff)

lemma crc_steps_xor: "(crc_step ^^ n) (a XOR b) = (crc_step ^^ n) a XOR (crc_step ^^ n) b"
  by (induction n) (simp_all add: crc_step_xor)

lemma crc_steps_shift: "(\<forall>i < n. \<not> bit c i) \<Longrightarrow> (crc_step ^^ n) c = drop_bit n c"
proof (induction n)
  case (Suc n)
  then have "(crc_step ^^ Suc n) c = crc_step (drop_bit n c)" by simp
  also have "\<dots> = drop_bit (Suc n) c"
    using Suc.prems by (intro bit_eqI) (auto simp: bit_crc_step bit_simps)
  finally show ?case .
qed simp

lemma bit_poly_top: "bit CRC_POLY 31"
  by (simp add: CRC_POLY_def)

lemma crc_step_inject: "crc_step a = crc_step b \<longleftrightarrow> a = b"
proof
  assume eq: "crc_step a = crc_step b"
  have "bit (crc_step a) 31 = bit a 0" "bit (crc_step b) 31 = bit b 0"
    using bit_poly_top by (auto simp: bit_crc_step dest: bit_imp_le_length)
  with eq have low: "bit a 0 = bit b 0" by simp
  show "a = b"
  proof (rule bit_eqI)
    fix n show "bit a n = bit b n"
    proof (cases n)
      case (Suc m)
      have "bit (crc_step a) m = bit (crc_step b) m" using eq by simp
      then show ?thesis using low Suc by (auto simp: bit_crc_step)
    qed (use low in simp)
  qed
qed simp

lemma crc_steps_inject: "(crc_step ^^ n) a = (crc_step ^^ n) b \<longleftrightarrow> a = b"
  by (induction n) (simp_all add: crc_step_inject)

lemma crc_table_nth: "i < 256 \<Longrightarrow> crc_table ! i = (crc_step ^^ 8) (of_nat i)"
  by (simp add: crc_table_def)

lemma byte_lt_256: "byte b < 256"
  using mod_less_divisor [of 256 "byte b"] by simp

lemma xor_inject: "a XOR x = b XOR x \<longleftrightarrow> a = b" for a :: "32 word"
  by (metis xor.assoc xor.right_neutral xor_self_eq)

lemma low_byte_take_bit: "w AND 0xFF = take_bit 8 w" for w :: "32 word"
  by (simp add: take_bit_eq_mask mask_eq_exp_minus_1)

lemma low_byte_less: "unat (w AND 0xFF) < 256" for w :: "32 word"
  using take_bit_nat_less_exp [of 8 "unat w"] by (simp add: low_byte_take_bit unsigned_take_bit_eq)

lemma crc_byte_step:
  "drop_bit 8 s XOR crc_table ! unat ((s XOR of_nat (byte b)) AND 0xFF) = (crc_step ^^ 8) (s XOR of_nat (byte b))"
proof -
  let ?w = "s XOR of_nat (byte b)"
  have split: "?w = take_bit 8 ?w XOR (?w AND NOT (mask 8))"
    by (rule bit_eqI) (auto simp: bit_simps)
  have "(crc_step ^^ 8) (?w AND NOT (mask 8)) = drop_bit 8 (?w AND NOT (mask 8))"
    by (rule crc_steps_shift) (auto simp: bit_simps)
  also have "\<dots> = drop_bit 8 s"
  proof (rule bit_eqI)
    fix n
    have "byte b < 2 ^ (8 + n)"
      using byte_lt_256 [of b] by (rule less_le_trans) (simp add: power_add)
    then have "\<not> bit (byte b) (8 + n)"
      by (simp add: bit_iff_odd)
    then show "bit (drop_bit 8 (?w AND NOT (mask 8))) n = bit (drop_bit 8 s) n"
      by (auto simp: bit_simps dest: bit_imp_le_length)
  qed
  finally have "drop_bit 8 s XOR (crc_step ^^ 8) (take_bit 8 ?w) = (crc_step ^^ 8) ?w"
    using crc_steps_xor [of 8 "take_bit 8 ?w" "?w AND NOT (mask 8)"] split by (simp add: xor.commute)
  moreover have "crc_table ! unat (?w AND 0xFF) = (crc_step ^^ 8) (take_bit 8 ?w)"
    unfolding low_byte_take_bit [symmetric] by (subst crc_table_nth [OF low_byte_less]) simp
  ultimately show ?thesis by simp
qed

lemma crc_update_bit_serial: "crc_update s bs = crc_bit_serial s bs"
  by (simp add: crc_update_def crc_bit_serial_def crc_byte_step)

lemma crc_bit_serial_append: "crc_bit_serial s (x @ y) = crc_bit_serial (crc_bit_serial s x) y"
  by (simp add: crc_bit_serial_def)

lemma crc_bit_serial_inject: "crc_bit_serial s bs = crc_bit_serial t bs \<longleftrightarrow> s = t"
proof (induction bs arbitrary: s t)
  case (Cons b bs)
  show ?case
    using Cons.IH [of "(crc_step ^^ 8) (s XOR of_nat (byte b))" "(crc_step ^^ 8) (t XOR of_nat (byte b))"]
    by (simp add: crc_bit_serial_def crc_steps_inject xor_inject)
qed (simp add: crc_bit_serial_def)

text \<open>
  C28. The table-driven checksum is the bit-serial CRC-32: it does not depend on how the spooled sheet was cut
  into writes, and no change of a single byte goes unnoticed.
\<close>

theorem crc32_is_crc:
  "crc32 bs = crc_bit_serial 0xFFFFFFFF bs XOR 0xFFFFFFFF \<and>
   crc_update (crc_update s x) y = crc_update s (x @ y) \<and>
   (crc32 (x @ b # y) = crc32 (x @ c # y) \<longleftrightarrow> b = c)"
proof -
  have byte: "of_nat (byte b) = (of_nat (byte c) :: 32 word) \<longleftrightarrow> b = c"
  proof -
    have "unat (of_nat (byte d) :: 32 word) = byte d" for d
      using less_trans [OF byte_lt_256 [of d], of "2 ^ 32"] by (simp add: unsigned_of_nat take_bit_nat_eq_self_iff)
    then show ?thesis by (metis byte_eq_iff)
  qed
  let ?s = "crc_bit_serial crc_new x"
  have "crc_bit_serial crc_new (x @ d # y) = crc_bit_serial ((crc_step ^^ 8) (?s XOR of_nat (byte d))) y" for d
    by (simp add: crc_bit_serial_def)
  then have diff: "crc_bit_serial crc_new (x @ b # y) = crc_bit_serial crc_new (x @ c # y) \<longleftrightarrow> b = c"
    by (simp add: crc_bit_serial_inject crc_steps_inject xor.commute [of ?s] xor_inject byte)
  then have "crc32 (x @ b # y) = crc32 (x @ c # y) \<longleftrightarrow> b = c"
    by (simp only: crc32_def crc_finish_def crc_update_bit_serial xor_inject)
  then show ?thesis
    by (simp add: crc32_def crc_finish_def crc_new_def crc_update_bit_serial crc_bit_serial_append [of s])
qed

section \<open>The archive writer\<close>

text \<open>\<^verbatim>\<open>to_le_bytes\<close> of a 16-bit and of a 32-bit number.\<close>

definition le_bytes :: "nat \<Rightarrow> nat \<Rightarrow> bytes" where
  "le_bytes width n = map (\<lambda>i. char_of (n div 256 ^ i)) [0..<width]"

definition le16 :: "16 word \<Rightarrow> bytes" where
  "le16 w = le_bytes 2 (unat w)"

definition le32 :: "32 word \<Rightarrow> bytes" where
  "le32 w = le_bytes 4 (unat w)"

definition DOS_TIME :: "16 word" where
  "DOS_TIME = 0"

definition DOS_DATE :: "16 word" where
  "DOS_DATE = 0x0021"

record zip_entry =
  ze_name :: string
  ze_crc :: "32 word"
  ze_size :: "32 word"
  ze_offset :: "32 word"

record zip_writer =
  zw_out :: bytes
  zw_offset :: "32 word"
  zw_entries :: "zip_entry list"

definition zip_new :: zip_writer where
  "zip_new = \<lparr>zw_out = [], zw_offset = 0, zw_entries = []\<rparr>"

definition u16_try_from :: "nat \<Rightarrow> 16 word option" where
  "u16_try_from n = (if n < 2 ^ 16 then Some (of_nat n) else None)"

definition zip_size :: "nat \<Rightarrow> string + 32 word" where
  "zip_size n =
     (if n < 2 ^ 32 then Inr (of_nat n)
      else Inl ''the sheet exceeds 4 GiB, which this ZIP container cannot address; export CSV instead'')"

definition advance_offset :: "32 word \<Rightarrow> 32 word \<Rightarrow> string + 32 word" where
  "advance_offset offset delta =
     (if unat offset + unat delta < 2 ^ 32 then Inr (offset + delta)
      else Inl ''the workbook exceeds 4 GiB; export CSV instead'')"

definition local_header :: "string \<Rightarrow> 32 word \<Rightarrow> 32 word \<Rightarrow> 16 word \<Rightarrow> bytes" where
  "local_header name crc sz name_len =
     le32 0x04034B50 @ le16 20 @ le16 0 @ le16 0 @ le16 DOS_TIME @ le16 DOS_DATE @ le32 crc @ le32 sz @ le32 sz
       @ le16 name_len @ le16 0 @ name"

definition zip_header :: "string \<Rightarrow> 32 word \<Rightarrow> 32 word \<Rightarrow> zip_writer \<Rightarrow> string + zip_writer" where
  "zip_header name crc sz z =
     (case u16_try_from (length name) of
        None \<Rightarrow> Inl ''entry name''
      | Some name_len \<Rightarrow>
          (case advance_offset (zw_offset z) (30 + ucast name_len) of
             Inl e \<Rightarrow> Inl e
           | Inr offset \<Rightarrow> Inr \<lparr>zw_out = zw_out z @ local_header name crc sz name_len, zw_offset = offset,
               zw_entries = zw_entries z @ [\<lparr>ze_name = name, ze_crc = crc, ze_size = sz, ze_offset = zw_offset z\<rparr>]\<rparr>))"

text \<open>The body of an entry behind its header; the offset moves by the announced size.\<close>

definition zip_body :: "bytes \<Rightarrow> 32 word \<Rightarrow> zip_writer \<Rightarrow> string + zip_writer" where
  "zip_body body sz z =
     (case advance_offset (zw_offset z) sz of
        Inl e \<Rightarrow> Inl e
      | Inr offset \<Rightarrow> Inr (z\<lparr>zw_out := zw_out z @ body, zw_offset := offset\<rparr>))"

definition zip_add :: "string \<Rightarrow> bytes \<Rightarrow> zip_writer \<Rightarrow> string + zip_writer" where
  "zip_add name body z =
     (case zip_size (length body) of
        Inl e \<Rightarrow> Inl e
      | Inr sz \<Rightarrow> (case zip_header name (crc32 body) sz z of Inl e \<Rightarrow> Inl e | Inr z1 \<Rightarrow> zip_body body sz z1))"

definition zip_add_streamed :: "string \<Rightarrow> 32 word \<Rightarrow> 32 word \<Rightarrow> bytes \<Rightarrow> zip_writer \<Rightarrow> string + zip_writer" where
  "zip_add_streamed name crc sz spool z =
     (case zip_header name crc sz z of
        Inl e \<Rightarrow> Inl e
      | Inr z1 \<Rightarrow>
          if length spool \<noteq> unat sz
          then Inl (''sheet spool changed size while writing ('' @ show_nat (length spool) @ '' bytes, expected '' @ show_nat (unat sz) @ '')'')
          else zip_body spool sz z1)"

definition central_header :: "zip_entry \<Rightarrow> 16 word \<Rightarrow> bytes" where
  "central_header e name_len =
     le32 0x02014B50 @ le16 20 @ le16 20 @ le16 0 @ le16 0 @ le16 DOS_TIME @ le16 DOS_DATE @ le32 (ze_crc e) @ le32 (ze_size e)
       @ le32 (ze_size e) @ le16 name_len @ le16 0 @ le16 0 @ le16 0 @ le16 0 @ le32 0 @ le32 (ze_offset e) @ ze_name e"

fun zip_directory :: "zip_entry list \<Rightarrow> zip_writer \<Rightarrow> string + zip_writer" where
  "zip_directory [] z = Inr z"
| "zip_directory (e # es) z =
     (case u16_try_from (length (ze_name e)) of
        None \<Rightarrow> Inl ''entry name''
      | Some name_len \<Rightarrow>
          (case advance_offset (zw_offset z) (46 + ucast name_len) of
             Inl err \<Rightarrow> Inl err
           | Inr offset \<Rightarrow> zip_directory es (z\<lparr>zw_out := zw_out z @ central_header e name_len, zw_offset := offset\<rparr>)))"

definition end_record :: "16 word \<Rightarrow> 32 word \<Rightarrow> 32 word \<Rightarrow> bytes" where
  "end_record count sz start =
     le32 0x06054B50 @ le16 0 @ le16 0 @ le16 count @ le16 count @ le32 sz @ le32 start @ le16 0"

definition zip_finish :: "zip_writer \<Rightarrow> string + bytes" where
  "zip_finish z =
     (case zip_directory (zw_entries z) z of
        Inl e \<Rightarrow> Inl e
      | Inr z1 \<Rightarrow>
          (case u16_try_from (length (zw_entries z)) of
             None \<Rightarrow> Inl ''entries''
           | Some count \<Rightarrow> Inr (zw_out z1 @ end_record count (zw_offset z1 - zw_offset z) (zw_offset z))))"

section \<open>Reading an archive\<close>

text \<open>
  What a reader of the ZIP format makes of the bytes: the record at the very end names the directory, each
  entry of the directory names its data, and the data must have the announced checksum.
\<close>

definition le_value :: "bytes \<Rightarrow> nat" where
  "le_value bs = foldr (\<lambda>c n. byte c + 256 * n) bs 0"

definition field_at :: "bytes \<Rightarrow> nat \<Rightarrow> nat \<Rightarrow> nat" where
  "field_at b pos width = le_value (slice pos (pos + width) b)"

definition read_entry :: "bytes \<Rightarrow> nat \<Rightarrow> (string \<times> bytes) option" where
  "read_entry b pos =
     (let crc = field_at b (pos + 16) 4; sz = field_at b (pos + 24) 4; name_len = field_at b (pos + 28) 2;
          offset = field_at b (pos + 42) 4; name = slice (pos + 46) (pos + 46 + name_len) b;
          start = offset + 30 + field_at b (offset + 26) 2 + field_at b (offset + 28) 2;
          data = slice start (start + sz) b
      in if field_at b pos 4 = 0x02014B50 \<and> field_at b offset 4 = 0x04034B50 \<and> field_at b (pos + 20) 4 = sz
           \<and> slice (offset + 30) (offset + 30 + field_at b (offset + 26) 2) b = name
           \<and> start + sz \<le> length b \<and> unat (crc32 data) = crc
         then Some (name, data) else None)"

fun read_directory :: "bytes \<Rightarrow> nat \<Rightarrow> nat \<Rightarrow> (string \<times> bytes) list option" where
  "read_directory b 0 pos = Some []"
| "read_directory b (Suc n) pos =
     (case read_entry b pos of
        None \<Rightarrow> None
      | Some e \<Rightarrow>
          map_option ((#) e) (read_directory b n
            (pos + 46 + field_at b (pos + 28) 2 + field_at b (pos + 30) 2 + field_at b (pos + 32) 2)))"

definition unzip :: "bytes \<Rightarrow> (string \<times> bytes) list option" where
  "unzip b =
     (let e = length b - 22 in
      if 22 \<le> length b \<and> field_at b e 4 = 0x06054B50 \<and> field_at b (e + 16) 4 + field_at b (e + 12) 4 = e
      then read_directory b (field_at b (e + 10) 2) (field_at b (e + 16) 4) else None)"

subsection \<open>Fields\<close>

lemma length_le_bytes [simp]: "length (le_bytes w n) = w" "length (le16 x) = 2" "length (le32 y) = 4"
  by (simp_all add: le_bytes_def le16_def le32_def)

lemma le_value_bytes: "le_value (le_bytes w n) = n mod 256 ^ w"
proof (induction w arbitrary: n)
  case (Suc w)
  have "le_bytes (Suc w) n = char_of n # le_bytes w (n div 256)"
    unfolding le_bytes_def by (subst map_upt_Suc) (simp add: div_mult2_eq)
  then have "le_value (le_bytes (Suc w) n) = n mod 256 + 256 * (n div 256 mod 256 ^ w)"
    using Suc by (simp add: le_value_def)
  then show ?case by (simp add: mod_mult2_eq)
qed (simp add: le_bytes_def le_value_def)

lemma le_value_words [simp]: "le_value (le16 x) = unat x" "le_value (le32 y) = unat y"
proof -
  have "unat x < 2 ^ 16" "unat y < 2 ^ 32" by (rule order_less_le_trans [OF unsigned_less], simp)+
  then show "le_value (le16 x) = unat x" "le_value (le32 y) = unat y"
    by (simp_all add: le16_def le32_def le_value_bytes)
qed

lemma slice_append_skip: "length p \<le> i \<Longrightarrow> slice i j (p @ b) = slice (i - length p) (j - length p) b"
  by (simp add: slice_def)

lemma slice_append_take: "slice 0 (length p) (p @ b) = p"
  by (simp add: slice_def)

lemma slice_mid: "b = p @ x @ r \<Longrightarrow> slice (length p) (length p + length x) b = x"
  by (simp add: slice_def)

lemma field_skip: "length p \<le> k \<Longrightarrow> field_at (p @ b) k w = field_at b (k - length p) w"
  by (simp add: field_at_def slice_append_skip)

lemma field_words [simp]:
  "field_at (le16 x @ r) 0 2 = unat x" "field_at (le32 y @ r) 0 4 = unat y"
  "2 \<le> k \<Longrightarrow> field_at (le16 x @ r) k w = field_at r (k - 2) w"
  "4 \<le> k \<Longrightarrow> field_at (le32 y @ r) k w = field_at r (k - 4) w"
  using slice_append_take [of "le16 x" r] slice_append_take [of "le32 y" r] by (simp_all add: field_at_def slice_append_skip numeral_2_eq_2)

lemma field_behind: "field_at (p @ b) (length p + k) w = field_at b k w"
  by (simp add: field_skip)

lemma slice_behind: "slice (length p + i) (length p + j) (p @ b) = slice i j b"
  by (simp add: slice_append_skip)

lemma length_local_header [simp]: "length (local_header name crc sz nl) = 30 + length name"
  by (simp add: local_header_def)

lemma length_central_header [simp]: "length (central_header e nl) = 46 + length (ze_name e)"
  by (simp add: central_header_def)

lemma length_end_record [simp]: "length (end_record c s d) = 22"
  by (simp add: end_record_def)

lemma local_header_fields:
  "field_at (local_header name crc sz nl @ r) 0 4 = 0x04034B50"
  "field_at (local_header name crc sz nl @ r) 26 2 = unat nl"
  "field_at (local_header name crc sz nl @ r) 28 2 = 0"
  "slice 30 (30 + length name) (local_header name crc sz nl @ r) = name"
proof -
  let ?p = "take 30 (local_header name crc sz nl)"
  have "slice (length ?p) (length ?p + length name) (local_header name crc sz nl @ r) = name"
    by (rule slice_mid) (simp add: local_header_def)
  then show "slice 30 (30 + length name) (local_header name crc sz nl @ r) = name" by simp
qed (simp_all add: local_header_def)

lemma central_header_fields:
  "field_at (central_header e nl @ r) 0 4 = 0x02014B50"
  "field_at (central_header e nl @ r) 16 4 = unat (ze_crc e)"
  "field_at (central_header e nl @ r) 20 4 = unat (ze_size e)"
  "field_at (central_header e nl @ r) 24 4 = unat (ze_size e)"
  "field_at (central_header e nl @ r) 28 2 = unat nl"
  "field_at (central_header e nl @ r) 30 2 = 0"
  "field_at (central_header e nl @ r) 32 2 = 0"
  "field_at (central_header e nl @ r) 42 4 = unat (ze_offset e)"
  "slice 46 (46 + length (ze_name e)) (central_header e nl @ r) = ze_name e"
proof -
  let ?p = "take 46 (central_header e nl)"
  have "slice (length ?p) (length ?p + length (ze_name e)) (central_header e nl @ r) = ze_name e"
    by (rule slice_mid) (simp add: central_header_def)
  then show "slice 46 (46 + length (ze_name e)) (central_header e nl @ r) = ze_name e" by simp
qed (simp_all add: central_header_def)

lemma end_record_fields:
  "field_at (end_record c s d) 0 4 = 0x06054B50" "field_at (end_record c s d) 10 2 = unat c"
  "field_at (end_record c s d) 12 4 = unat s" "field_at (end_record c s d) 16 4 = unat d"
  by (simp_all add: end_record_def)

subsection \<open>What the writer has written\<close>

definition local_block :: "string \<times> bytes \<Rightarrow> bytes" where
  "local_block p = (case p of (name, body) \<Rightarrow>
     local_header name (crc32 body) (of_nat (length body)) (of_nat (length name)) @ body)"

abbreviation local_blocks :: "(string \<times> bytes) list \<Rightarrow> bytes" where
  "local_blocks ps \<equiv> concat (map local_block ps)"

fun entry_metas :: "nat \<Rightarrow> (string \<times> bytes) list \<Rightarrow> zip_entry list" where
  "entry_metas off [] = []"
| "entry_metas off ((name, body) # ps) =
     \<lparr>ze_name = name, ze_crc = crc32 body, ze_size = of_nat (length body), ze_offset = of_nat off\<rparr>
     # entry_metas (off + length (local_block (name, body))) ps"

definition central_block :: "zip_entry \<Rightarrow> bytes" where
  "central_block e = central_header e (of_nat (length (ze_name e)))"

abbreviation central_blocks :: "zip_entry list \<Rightarrow> bytes" where
  "central_blocks es \<equiv> concat (map central_block es)"

definition part_ok :: "string \<times> bytes \<Rightarrow> bool" where
  "part_ok p \<longleftrightarrow> length (fst p) < 2 ^ 16 \<and> length (snd p) < 2 ^ 32"

definition zip_holds :: "(string \<times> bytes) list \<Rightarrow> zip_writer \<Rightarrow> bool" where
  "zip_holds ps z \<longleftrightarrow> zw_out z = local_blocks ps \<and> unat (zw_offset z) = length (zw_out z) \<and>
     zw_entries z = entry_metas 0 ps \<and> list_all part_ok ps"

lemma entry_metas_append:
  "entry_metas off (ps @ qs) = entry_metas off ps @ entry_metas (off + length (local_blocks ps)) qs"
  by (induction off ps rule: entry_metas.induct) (simp_all add: add.assoc)

lemma length_entry_metas [simp]: "length (entry_metas off ps) = length ps"
  by (induction off ps rule: entry_metas.induct) simp_all

lemma length_local_block: "length (local_block (name, body)) = 30 + length name + length body"
  by (simp add: local_block_def)

lemma unat_of_nat16: "n < 2 ^ 16 \<Longrightarrow> unat (of_nat n :: 16 word) = n"
  by (simp add: unsigned_of_nat take_bit_nat_eq_self_iff)

lemma unat_of_nat32: "n < 2 ^ 32 \<Longrightarrow> unat (of_nat n :: 32 word) = n"
  by (simp add: unsigned_of_nat take_bit_nat_eq_self_iff)

lemma advance_offset_iff: "advance_offset a b = Inr c \<longleftrightarrow> unat a + unat b < 2 ^ 32 \<and> c = a + b"
  by (auto simp: advance_offset_def)

lemma advance_offset_unat: "advance_offset a b = Inr c \<Longrightarrow> unat c = unat a + unat b"
  by (simp add: advance_offset_iff unat_word_ariths)

lemma small_ucast: "n < 2 ^ 16 \<Longrightarrow> k < 100 \<Longrightarrow> unat (of_nat k + ucast (of_nat n :: 16 word) :: 32 word) = k + n"
proof -
  assume small: "n < 2 ^ 16" "k < 100"
  then have "(ucast (of_nat n :: 16 word) :: 32 word) = of_nat n"
    using take_bit_nat_eq_self [of n 16] by (simp add: unsigned_of_nat)
  then have "(of_nat k + ucast (of_nat n :: 16 word) :: 32 word) = of_nat (k + n)" by simp
  then show ?thesis using small unat_of_nat32 [of "k + n"] by simp
qed

lemma zip_header_holds:
  assumes "zip_holds ps z" "zip_header name crc sz z = Inr z1"
  shows "zw_out z1 = local_blocks ps @ local_header name crc sz (of_nat (length name)) \<and>
    unat (zw_offset z1) = length (zw_out z1) \<and> length name < 2 ^ 16 \<and>
    zw_entries z1 = entry_metas 0 ps @ [\<lparr>ze_name = name, ze_crc = crc, ze_size = sz, ze_offset = of_nat (length (local_blocks ps))\<rparr>]"
proof -
  have off: "zw_offset z = of_nat (length (local_blocks ps))"
  proof -
    have "zw_offset z = of_nat (unat (zw_offset z))" by simp
    also have "\<dots> = of_nat (length (local_blocks ps))" using assms(1) by (simp only: zip_holds_def)
    finally show ?thesis .
  qed
  have "length name < 2 ^ 16" using assms(2) by (auto simp: zip_header_def u16_try_from_def split: if_splits)
  with small_ucast [OF this, of 30] assms off show ?thesis
    by (auto simp: zip_header_def u16_try_from_def zip_holds_def split: sum.splits dest!: advance_offset_unat)
qed

lemma zip_body_holds:
  assumes "zip_holds ps z" "zip_header name (crc32 body) (of_nat (length body)) z = Inr z1" "length body < 2 ^ 32"
    and "zip_body body (of_nat (length body)) z1 = Inr z2"
  shows "zip_holds (ps @ [(name, body)]) z2"
proof -
  note header = zip_header_holds [OF assms(1,2)]
  have "list_all part_ok ps" using assms(1) by (simp add: zip_holds_def)
  then show ?thesis
    using header assms(3,4)
    by (auto simp: zip_holds_def zip_body_def entry_metas_append local_block_def part_ok_def unat_of_nat32
        split: sum.splits dest!: advance_offset_unat)
qed

lemma zip_add_holds:
  "zip_holds ps z \<Longrightarrow> zip_add name body z = Inr z1 \<Longrightarrow> zip_holds (ps @ [(name, body)]) z1"
  by (auto simp: zip_add_def zip_size_def split: sum.splits if_splits intro: zip_body_holds)

lemma zip_add_streamed_holds:
  "zip_holds ps z \<Longrightarrow> length body < 2 ^ 32 \<Longrightarrow>
    zip_add_streamed name (crc32 body) (of_nat (length body)) body z = Inr z1 \<Longrightarrow> zip_holds (ps @ [(name, body)]) z1"
  by (auto simp: zip_add_streamed_def split: sum.splits if_splits intro: zip_body_holds)

lemma zip_holds_new: "zip_holds [] zip_new"
  by (simp add: zip_holds_def zip_new_def)

lemma zip_directory_blocks:
  "zip_directory es z = Inr z1 \<Longrightarrow> unat (zw_offset z) = length (zw_out z) \<Longrightarrow>
    zw_out z1 = zw_out z @ central_blocks es \<and> unat (zw_offset z1) = length (zw_out z1)"
proof (induction es z rule: zip_directory.induct)
  case (2 e es z)
  have "length (ze_name e) < 2 ^ 16" using "2.prems" by (auto simp: u16_try_from_def split: if_splits)
  then have nl: "u16_try_from (length (ze_name e)) = Some (of_nat (length (ze_name e)))"
    "unat (46 + ucast (of_nat (length (ze_name e)) :: 16 word) :: 32 word) = 46 + length (ze_name e)"
    using small_ucast [of "length (ze_name e)" 46] by (simp_all add: u16_try_from_def)
  then obtain off where off: "advance_offset (zw_offset z) (46 + ucast (of_nat (length (ze_name e)) :: 16 word)) = Inr off"
    using "2.prems"(1) by (auto split: sum.splits)
  show ?case
    using "2.IH" [OF nl(1) off] "2.prems" advance_offset_unat [OF off] nl off by (simp add: central_block_def)
qed simp

subsection \<open>Reading it rest\<close>

lemma read_entry_block:
  assumes "b = pre @ central_block e @ post" and "b = front @ local_block (name, body) @ rest"
    and "e = \<lparr>ze_name = name, ze_crc = crc32 body, ze_size = of_nat (length body), ze_offset = of_nat (length front)\<rparr>"
    and "part_ok (name, body)" and "length front < 2 ^ 32"
  shows "read_entry b (length pre) = Some (name, body)"
proof -
  let ?h = "central_header e (of_nat (length name)) @ post"
  let ?l = "local_header name (crc32 body) (of_nat (length body)) (of_nat (length name)) @ body @ rest"
  have b: "b = pre @ ?h" "b = front @ ?l" using assms(1-3) by (simp_all add: central_block_def local_block_def)
  have sizes: "unat (of_nat (length name) :: 16 word) = length name" "unat (of_nat (length body) :: 32 word) = length body"
    "unat (of_nat (length front) :: 32 word) = length front"
    using assms(4,5) by (simp_all add: part_ok_def unat_of_nat16 unat_of_nat32)
  have c: "field_at b (length pre + k) w = field_at ?h k w" "field_at b (length pre) 4 = field_at ?h 0 4" for k w
    using field_behind [of pre ?h k w] field_behind [of pre ?h 0 4] b(1) by simp_all
  have l: "field_at b (length front + k) w = field_at ?l k w" "field_at b (length front) 4 = field_at ?l 0 4" for k w
    using field_behind [of front ?l k w] field_behind [of front ?l 0 4] b(2) by simp_all
  have cname: "slice (length pre + 46) (length pre + 46 + length name) b = name"
    using slice_behind [of pre 46 "46 + length name" ?h] central_header_fields(9) [where e = e and nl = "of_nat (length name)" and r = post] assms(3) b(1)
    by (simp add: add.assoc)
  have lname: "slice (length front + 30) (length front + 30 + length name) b = name"
    using slice_behind [of front 30 "30 + length name" ?l] local_header_fields(4) [of name] b(2) by (simp add: add.assoc)
  have data: "slice (length front + 30 + length name) (length front + 30 + length name + length body) b = body"
    using slice_mid [of b "front @ local_header name (crc32 body) (of_nat (length body)) (of_nat (length name))" body rest] b(2)
    by (simp add: add.assoc)
  have len: "length front + 30 + length name + length body \<le> length b" by (simp add: b(2))
  show ?thesis
    unfolding read_entry_def Let_def c central_header_fields
    using assms(3) sizes l local_header_fields [of name] cname lname data len by simp
qed

lemma read_directory_blocks:
  assumes "list_all part_ok (ps @ qs)" and "length (local_blocks (ps @ qs)) < 2 ^ 32"
    and "b = local_blocks (ps @ qs) @ central_blocks (entry_metas 0 (ps @ qs)) @ post"
  shows "read_directory b (length qs) (length (local_blocks (ps @ qs) @ central_blocks (entry_metas 0 ps))) = Some qs"
  using assms
proof (induction qs arbitrary: ps)
  case (Cons q qs)
  obtain name body where q: "q = (name, body)" by (cases q)
  let ?e = "\<lparr>ze_name = name, ze_crc = crc32 body, ze_size = of_nat (length body), ze_offset = of_nat (length (local_blocks ps))\<rparr>"
  let ?pre = "local_blocks (ps @ q # qs) @ central_blocks (entry_metas 0 ps)"
  let ?post = "central_blocks (entry_metas (length (local_blocks (ps @ [q]))) qs) @ post"
  have b: "b = ?pre @ central_block ?e @ ?post"
    using Cons.prems(3) by (simp add: entry_metas_append q)
  have front: "b = local_blocks ps @ local_block (name, body) @ (local_blocks qs @ central_blocks (entry_metas 0 (ps @ q # qs)) @ post)"
    using Cons.prems(3) by (simp add: q)
  have "read_entry b (length ?pre) = Some (name, body)"
    using Cons.prems by (intro read_entry_block [OF b front refl]) (simp_all add: q)
  moreover have "length ?pre + 46 + field_at b (length ?pre + 28) 2 + field_at b (length ?pre + 30) 2 + field_at b (length ?pre + 32) 2
      = length (local_blocks ((ps @ [q]) @ qs) @ central_blocks (entry_metas 0 (ps @ [q])))"
  proof -
    have "field_at b (length ?pre + k) w = field_at (central_block ?e @ ?post) k w" for k w
      using field_behind [of ?pre "central_block ?e @ ?post" k w] b by simp
    moreover have "length name < 2 ^ 16" using Cons.prems(1) by (simp add: q part_ok_def)
    ultimately show ?thesis
      by (simp add: central_block_def central_header_fields unat_of_nat16 entry_metas_append q)
  qed
  moreover have "read_directory b (length qs) (length (local_blocks ((ps @ [q]) @ qs) @ central_blocks (entry_metas 0 (ps @ [q])))) = Some qs"
    using Cons.IH [of "ps @ [q]"] Cons.prems by simp
  ultimately show ?case by (simp only: list.size(4) add_0_right add_Suc_right read_directory.simps option.case option.map q)
qed simp

lemma unzip_finish:
  assumes "zip_holds ps z" and "zip_finish z = Inr b"
  shows "unzip b = Some ps"
proof -
  have ps: "zw_out z = local_blocks ps" "unat (zw_offset z) = length (zw_out z)" "zw_entries z = entry_metas 0 ps" "list_all part_ok ps"
    using assms(1) by (simp_all add: zip_holds_def)
  obtain z1 where z1: "zip_directory (entry_metas 0 ps) z = Inr z1" and count: "length ps < 2 ^ 16"
    and b: "b = zw_out z1 @ end_record (of_nat (length ps)) (zw_offset z1 - zw_offset z) (zw_offset z)"
    using assms(2) ps(3) by (auto simp: zip_finish_def u16_try_from_def split: sum.splits if_splits)
  note dir = zip_directory_blocks [OF z1 ps(2)]
  have off: "unat (zw_offset z) = length (local_blocks ps)" using ps by simp
  have "unat (zw_offset z) \<le> unat (zw_offset z1)" using dir ps(2) by simp
  then have diff: "unat (zw_offset z1 - zw_offset z) = length (central_blocks (entry_metas 0 ps))"
    using dir ps(1,2) by (simp add: unat_sub_if_size)
  have e: "length b - 22 = length (zw_out z1)" by (simp add: b)
  have f: "field_at b (length (zw_out z1) + k) w = field_at (end_record (of_nat (length ps)) (zw_offset z1 - zw_offset z) (zw_offset z)) k w"
    "field_at b (length (zw_out z1)) 4 = 0x06054B50" for k w
    using field_behind [of "zw_out z1" _ k w] field_behind [of "zw_out z1" _ 0 4] by (simp_all add: b end_record_fields)
  have "unat (zw_offset z) < 2 ^ 32" by (rule order_less_le_trans [OF unsigned_less]) simp
  then have "length (local_blocks ps) < 2 ^ 32" using off by simp
  then have "read_directory b (length ps) (length (local_blocks ps)) = Some ps"
    using read_directory_blocks [of "[]" ps b "end_record (of_nat (length ps)) (zw_offset z1 - zw_offset z) (zw_offset z)"] ps dir b
    by simp
  then show ?thesis
    unfolding unzip_def Let_def e f end_record_fields
    using dir ps off diff count by (simp add: b unat_of_nat16)
qed

subsection \<open>When there is room\<close>

definition parts_length :: "(string \<times> bytes) list \<Rightarrow> nat" where
  "parts_length ps = (\<Sum>(name, body) \<leftarrow> ps. 30 + length name + length body)"

definition archive_length :: "(string \<times> bytes) list \<Rightarrow> nat" where
  "archive_length ps = parts_length ps + (\<Sum>(name, body) \<leftarrow> ps. 46 + length name)"

lemma length_local_blocks: "length (local_blocks ps) = parts_length ps"
  by (induction ps) (auto simp: parts_length_def length_local_block)

lemma length_central_blocks: "length (central_blocks (entry_metas off ps)) = (\<Sum>(name, body) \<leftarrow> ps. 46 + length name)"
  by (induction off ps rule: entry_metas.induct) (simp_all add: central_block_def)

lemma parts_length_snoc: "parts_length (ps @ [(name, body)]) = parts_length ps + 30 + length name + length body"
  by (simp add: parts_length_def)

lemma zip_header_fits:
  assumes "zip_holds ps z" "length name < 2 ^ 16" "parts_length ps + 30 + length name < 2 ^ 32"
  shows "\<exists>z1. zip_header name crc sz z = Inr z1 \<and> unat (zw_offset z1) = parts_length ps + 30 + length name"
proof -
  have "unat (zw_offset z) = parts_length ps" using assms(1) by (simp add: zip_holds_def length_local_blocks)
  moreover have "unat (30 + ucast (of_nat (length name) :: 16 word) :: 32 word) = 30 + length name"
    using small_ucast [OF assms(2), of 30] by simp
  ultimately have "advance_offset (zw_offset z) (30 + ucast (of_nat (length name) :: 16 word)) =
      Inr (zw_offset z + (30 + ucast (of_nat (length name) :: 16 word)))"
    "unat (zw_offset z + (30 + ucast (of_nat (length name) :: 16 word))) = parts_length ps + 30 + length name"
    using assms(3) by (simp_all add: advance_offset_def unat_word_ariths)
  then show ?thesis using assms(2) by (simp add: zip_header_def u16_try_from_def)
qed

lemma zip_body_fits:
  assumes "unat (zw_offset z) + length body < 2 ^ 32"
  shows "\<exists>z1. zip_body body (of_nat (length body)) z = Inr z1"
  using assms by (simp add: zip_body_def advance_offset_def unat_of_nat32)

lemma zip_add_fits:
  assumes "zip_holds ps z" "length name < 2 ^ 16" "parts_length (ps @ [(name, body)]) < 2 ^ 32"
  shows "\<exists>z1. zip_add name body z = Inr z1 \<and> zip_holds (ps @ [(name, body)]) z1"
proof -
  from zip_header_fits [OF assms(1,2), of "crc32 body" "of_nat (length body)"] assms(3)
  obtain z1 where z1: "zip_header name (crc32 body) (of_nat (length body)) z = Inr z1"
    "unat (zw_offset z1) = parts_length ps + 30 + length name"
    by (auto simp: parts_length_snoc)
  with zip_body_fits [of z1 body] assms(3) obtain z2 where "zip_body body (of_nat (length body)) z1 = Inr z2"
    by (auto simp: parts_length_snoc)
  with z1 assms(3) have "zip_add name body z = Inr z2" by (simp add: zip_add_def zip_size_def parts_length_snoc)
  with zip_add_holds [OF assms(1) this] show ?thesis by blast
qed

lemma zip_add_streamed_fits:
  assumes "zip_holds ps z" "length name < 2 ^ 16" "parts_length (ps @ [(name, body)]) < 2 ^ 32"
  shows "\<exists>z1. zip_add_streamed name (crc32 body) (of_nat (length body)) body z = Inr z1 \<and> zip_holds (ps @ [(name, body)]) z1"
proof -
  have "length body < 2 ^ 32" using assms(3) by (simp add: parts_length_snoc)
  then have "zip_add_streamed name (crc32 body) (of_nat (length body)) body z = zip_add name body z"
    using unat_of_nat32 [of "length body"] by (auto simp: zip_add_streamed_def zip_add_def zip_size_def split: sum.splits)
  with zip_add_fits [OF assms] show ?thesis by simp
qed

lemma zip_directory_fits:
  "unat (zw_offset z) + (\<Sum>e \<leftarrow> es. 46 + length (ze_name e)) < 2 ^ 32 \<Longrightarrow> list_all (\<lambda>e. length (ze_name e) < 2 ^ 16) es \<Longrightarrow>
    \<exists>z1. zip_directory es z = Inr z1"
proof (induction es arbitrary: z)
  case (Cons e es)
  let ?d = "46 + ucast (of_nat (length (ze_name e)) :: 16 word) :: 32 word"
  have d: "unat ?d = 46 + length (ze_name e)" using small_ucast [of "length (ze_name e)" 46] Cons.prems(2) by simp
  then have adv: "advance_offset (zw_offset z) ?d = Inr (zw_offset z + ?d)" using Cons.prems(1) by (simp add: advance_offset_def)
  from Cons.IH [of "z\<lparr>zw_out := zw_out z @ central_header e (of_nat (length (ze_name e))), zw_offset := zw_offset z + ?d\<rparr>"]
    advance_offset_unat [OF adv] d adv Cons.prems show ?case by (simp add: u16_try_from_def add.assoc)
qed simp

lemma entry_metas_names:
  "(\<Sum>e \<leftarrow> entry_metas off ps. 46 + length (ze_name e)) = (\<Sum>(name, body) \<leftarrow> ps. 46 + length name)"
  "list_all part_ok ps \<Longrightarrow> list_all (\<lambda>e. length (ze_name e) < 2 ^ 16) (entry_metas off ps)"
  by (induction off ps rule: entry_metas.induct) (simp_all add: part_ok_def)

lemma zip_finish_iff:
  assumes "zip_holds ps z" "length ps < 2 ^ 16"
  shows "(\<exists>b. zip_finish z = Inr b) \<longleftrightarrow> archive_length ps < 2 ^ 32"
proof
  assume "\<exists>b. zip_finish z = Inr b"
  then obtain z1 where z1: "zip_directory (entry_metas 0 ps) z = Inr z1"
    using assms(1) by (auto simp: zip_finish_def zip_holds_def split: sum.splits)
  have "unat (zw_offset z1) = archive_length ps"
    using zip_directory_blocks [OF z1] assms(1)
    by (simp add: zip_holds_def length_local_blocks length_central_blocks archive_length_def del: length_concat)
  moreover have "unat (zw_offset z1) < 2 ^ 32" by (rule order_less_le_trans [OF unsigned_less]) simp
  ultimately show "archive_length ps < 2 ^ 32" by simp
next
  assume "archive_length ps < 2 ^ 32"
  then obtain z1 where "zip_directory (entry_metas 0 ps) z = Inr z1"
    using zip_directory_fits [of z "entry_metas 0 ps"] assms(1) entry_metas_names [where off = 0 and ps = ps]
    by (auto simp: zip_holds_def length_local_blocks archive_length_def)
  then show "\<exists>b. zip_finish z = Inr b"
    using assms by (simp add: zip_finish_def zip_holds_def u16_try_from_def)
qed

end
