(* ===== verification/Value_Text.thy ===== *)
theory Value_Text
  imports Sql_Wrap
begin

text \<open>
  Cell values as text (\<^verbatim>\<open>crates/red-core/src/valuefmt.rs\<close>): the CSV, JSON, SQL, HTML, TSV and Markdown forms the
  file export and the clipboard share, and the clipboard writer. Bytes stand for characters: every character
  the formatters look at is ASCII. \<open>show_real\<close> is the decimal form of a double.
\<close>

section \<open>CSV\<close>

definition csv_needs_quotes :: "string \<Rightarrow> bool" where
  "csv_needs_quotes field \<longleftrightarrow>
     list_ex (\<lambda>c. c = CHR '','' \<or> c = CHR 0x22 \<or> c = CHR 0x0A \<or> c = CHR 0x0D) field"

definition csv_escape :: "string \<Rightarrow> string" where
  "csv_escape field =
     (if csv_needs_quotes field then [CHR 0x22] @ replace_char CHR 0x22 [CHR 0x22, CHR 0x22] field @ [CHR 0x22]
      else field)"

definition csv_record :: "string list \<Rightarrow> string" where
  "csv_record cells = join_with '','' (map csv_escape cells)"

fun csv_cell :: "(fp \<Rightarrow> string) \<Rightarrow> db_value \<Rightarrow> string" where
  "csv_cell show_real Null = []"
| "csv_cell show_real (Integer n) = show_int n"
| "csv_cell show_real (Real x) = show_real x"
| "csv_cell show_real (Text s) = s"
| "csv_cell show_real (Blob b) = bytes_summary (length b)"
| "csv_cell show_real (Capped c) = value_display show_real (Capped c)"

section \<open>JSON\<close>

definition json_hex :: "nat \<Rightarrow> char" where
  "json_hex n = char_of (if n < 10 then 48 + n else 87 + n)"

definition json_char :: "char \<Rightarrow> string" where
  "json_char c =
     (if c = CHR 0x22 then [CHR 0x5C, CHR 0x22]
      else if c = CHR 0x5C then [CHR 0x5C, CHR 0x5C]
      else if c = CHR 0x0A then [CHR 0x5C, CHR ''n'']
      else if c = CHR 0x0D then [CHR 0x5C, CHR ''r'']
      else if c = CHR 0x09 then [CHR 0x5C, CHR ''t'']
      else if byte c < 0x20 then [CHR 0x5C, CHR ''u'', CHR ''0'', CHR ''0'', json_hex (byte c div 16), json_hex (byte c mod 16)]
      else [c])"

definition json_string :: "string \<Rightarrow> string" where
  "json_string s = [CHR 0x22] @ concat (map json_char s) @ [CHR 0x22]"

fun fp_is_finite :: "fp \<Rightarrow> bool" where
  "fp_is_finite NaN = False"
| "fp_is_finite (Inf _) = False"
| "fp_is_finite _ = True"

fun json_value :: "(fp \<Rightarrow> string) \<Rightarrow> db_value \<Rightarrow> string" where
  "json_value show_real Null = ''null''"
| "json_value show_real (Integer n) = show_int n"
| "json_value show_real (Real x) = (if \<not> fp_is_finite x then ''null'' else show_real x)"
| "json_value show_real (Text s) = json_string s"
| "json_value show_real (Blob b) = json_string (bytes_summary (length b))"
| "json_value show_real (Capped c) = json_string (value_display show_real (Capped c))"

section \<open>SQL\<close>

definition sql_ident :: "string \<Rightarrow> string" where
  "sql_ident name = [CHR 0x22] @ replace_char CHR 0x22 [CHR 0x22, CHR 0x22] name @ [CHR 0x22]"

definition sql_string :: "string \<Rightarrow> string" where
  "sql_string s =
     [CHR 0x27] @ replace_char CHR 0x27 [CHR 0x27, CHR 0x27] (replace_char CHR 0x5C [CHR 0x5C, CHR 0x5C] s) @ [CHR 0x27]"

fun sql_real :: "(fp \<Rightarrow> string) \<Rightarrow> fp \<Rightarrow> string" where
  "sql_real show_real NaN = [CHR 0x27] @ ''NaN'' @ [CHR 0x27]"
| "sql_real show_real (Inf neg) = [CHR 0x27] @ (if neg then ''-Infinity'' else ''Infinity'') @ [CHR 0x27]"
| "sql_real show_real x = show_real x"

fun sql_value :: "(fp \<Rightarrow> string) \<Rightarrow> db_value \<Rightarrow> string" where
  "sql_value show_real Null = ''NULL''"
| "sql_value show_real (Integer n) = show_int n"
| "sql_value show_real (Real x) = sql_real show_real x"
| "sql_value show_real (Text s) = sql_string s"
| "sql_value show_real (Blob b) = sql_string (bytes_summary (length b))"
| "sql_value show_real (Capped c) = sql_string (value_display show_real (Capped c))"

section \<open>HTML, TSV and Markdown\<close>

definition html_char :: "char \<Rightarrow> string" where
  "html_char c =
     (if c = CHR ''&'' then ''&amp;'' else if c = CHR ''<'' then ''&lt;'' else if c = CHR ''>'' then ''&gt;''
      else if c = CHR 0x22 then ''&quot;'' else if c = CHR 0x27 then ''&#39;'' else [c])"

definition html_escape :: "string \<Rightarrow> string" where
  "html_escape s = concat (map html_char s)"

fun html_cell :: "(fp \<Rightarrow> string) \<Rightarrow> db_value \<Rightarrow> string" where
  "html_cell show_real Null = ''<span class='' @ [CHR 0x22] @ ''null'' @ [CHR 0x22] @ ''>NULL</span>''"
| "html_cell show_real (Integer n) = show_int n"
| "html_cell show_real (Real x) = show_real x"
| "html_cell show_real (Text s) = html_escape s"
| "html_cell show_real (Blob b) = ''&lt;'' @ show_nat (length b) @ '' bytes&gt;''"
| "html_cell show_real (Capped c) = html_escape (value_display show_real (Capped c))"

fun tsv_cell :: "(fp \<Rightarrow> string) \<Rightarrow> db_value \<Rightarrow> string" where
  "tsv_cell show_real Null = []"
| "tsv_cell show_real (Integer n) = show_int n"
| "tsv_cell show_real (Real x) = show_real x"
| "tsv_cell show_real (Text s) = s"
| "tsv_cell show_real (Blob b) = bytes_summary (length b)"
| "tsv_cell show_real (Capped c) = (if cc_blob c then bytes_summary (cc_len c) else cc_head c @ ELLIPSIS)"

fun markdown_cell :: "(fp \<Rightarrow> string) \<Rightarrow> db_value \<Rightarrow> string" where
  "markdown_cell show_real Null = []"
| "markdown_cell show_real other =
     replace_char CHR 0x0D ''<br>'' (replace_char CHR 0x0A ''<br>''
       (replace_char CHR ''|'' [CHR 0x5C, CHR ''|''] (replace_char CHR 0x5C [CHR 0x5C, CHR 0x5C] (value_display show_real other))))"

section \<open>The clipboard writer\<close>

datatype clipboard_format = Tsv | TsvHeaders | Csv | Json | Sql | Markdown | InList

definition uses_column_names :: "clipboard_format \<Rightarrow> bool" where
  "uses_column_names f \<longleftrightarrow> \<not> (f = Tsv \<or> f = InList)"

record clipboard_writer =
  cw_format :: clipboard_format
  cw_names :: "string list"
  cw_table :: string
  cw_out :: string
  cw_written :: nat

definition clipboard_begin :: "clipboard_format \<Rightarrow> string list \<Rightarrow> string option \<Rightarrow> clipboard_writer" where
  "clipboard_begin f names table =
     \<lparr>cw_format = f, cw_names = names,
      cw_table = (case table of Some t \<Rightarrow> t | None \<Rightarrow> ''exported_table''),
      cw_out = (case f of
          TsvHeaders \<Rightarrow> join_with [CHR 0x09] names @ [CHR 0x0A]
        | Csv \<Rightarrow> csv_record names @ [CHR 0x0A]
        | Json \<Rightarrow> ''[''
        | Markdown \<Rightarrow> ''| '' @ join_with '' | '' names @ '' |'' @ [CHR 0x0A] @
            ''| '' @ join_with '' | '' (map (\<lambda>_. ''---'') names) @ '' |'' @ [CHR 0x0A]
        | InList \<Rightarrow> ''(''
        | Tsv \<Rightarrow> [] | Sql \<Rightarrow> []),
      cw_written = 0\<rparr>"

text \<open>\<^verbatim>\<open>name:value\<close> pairs of a JSON row; a row wider than the header falls back to an empty key.\<close>

definition json_object :: "(fp \<Rightarrow> string) \<Rightarrow> string list \<Rightarrow> db_value list \<Rightarrow> string" where
  "json_object show_real names cells =
     [CHR 0x0A] @ ''  {'' @ join_with '',''
       (map (\<lambda>(i, v). json_string (if i < length names then names ! i else []) @ '':'' @ json_value show_real v)
         (enumerate 0 cells)) @ ''}''"

definition insert_line :: "(fp \<Rightarrow> string) \<Rightarrow> string \<Rightarrow> string list \<Rightarrow> db_value list \<Rightarrow> string" where
  "insert_line show_real table names cells =
     ''INSERT INTO '' @ sql_ident table @ '' ('' @ join_with '', '' (map sql_ident names) @ '') VALUES ('' @
       join_with '', '' (map (sql_value show_real) cells) @ '');'' @ [CHR 0x0A]"

definition clipboard_write_row :: "(fp \<Rightarrow> string) \<Rightarrow> db_value list \<Rightarrow> clipboard_writer \<Rightarrow> clipboard_writer" where
  "clipboard_write_row show_real cells w =
     w\<lparr>cw_out := cw_out w @ (case cw_format w of
          Tsv \<Rightarrow> join_with [CHR 0x09] (map (tsv_cell show_real) cells) @ [CHR 0x0A]
        | TsvHeaders \<Rightarrow> join_with [CHR 0x09] (map (tsv_cell show_real) cells) @ [CHR 0x0A]
        | Csv \<Rightarrow> csv_record (map (csv_cell show_real) cells) @ [CHR 0x0A]
        | Json \<Rightarrow> (if 0 < cw_written w then '','' else []) @ json_object show_real (cw_names w) cells
        | Sql \<Rightarrow> insert_line show_real (cw_table w) (cw_names w) cells
        | Markdown \<Rightarrow> ''| '' @ join_with '' | '' (map (markdown_cell show_real) cells) @ '' |'' @ [CHR 0x0A]
        | InList \<Rightarrow> (case cells of [] \<Rightarrow> []
            | v # _ \<Rightarrow> (if 0 < cw_written w then '', '' else []) @ sql_value show_real v)),
       cw_written := cw_written w + 1\<rparr>"

definition clipboard_finish :: "clipboard_writer \<Rightarrow> string" where
  "clipboard_finish w =
     cw_out w @ (case cw_format w of Json \<Rightarrow> [CHR 0x0A] @ '']'' @ [CHR 0x0A] | InList \<Rightarrow> '')'' | _ \<Rightarrow> [])"

text \<open>A copy of a selection, as both copy paths drive the writer.\<close>

definition clipboard_text :: "(fp \<Rightarrow> string) \<Rightarrow> clipboard_format \<Rightarrow> string list \<Rightarrow> string option \<Rightarrow> db_value list list \<Rightarrow> string" where
  "clipboard_text show_real f names table rows =
     clipboard_finish (fold (clipboard_write_row show_real) rows (clipboard_begin f names table))"

section \<open>SQL literals\<close>

lemma sql_string_literal: "sql_string s = string_literal True s"
proof -
  have "replace_char CHR 0x27 [CHR 0x27, CHR 0x27] (replace_char CHR 0x5C [CHR 0x5C, CHR 0x5C] s) = lit_body True s"
    by (induction s) (simp_all add: replace_char_def lit_char_def)
  then show ?thesis by (simp add: sql_string_def string_literal_body)
qed

lemma lit_body_standard: "lit_body True s = lit_body False (replace_char CHR 0x5C [CHR 0x5C, CHR 0x5C] s)"
  by (induction s) (simp_all add: replace_char_def lit_char_def)

text \<open>
  A string literal of an export or of the clipboard stays one literal whichever engine reads it: an engine
  where backslashes escape reads the cell's text back, one where they do not reads it with its backslashes
  doubled, and both go on behind the literal, as the application's own scanner does under either rule.
\<close>

theorem exported_literal_is_contained:
  assumes "esc CHR 0x5C = [CHR 0x5C]" and "rest = [] \<or> hd rest \<noteq> CHR 0x27"
  shows "hd (sql_string s) = CHR 0x27 \<and>
    read_literal esc True (tl (sql_string s) @ rest) = Some (s, rest) \<and>
    read_literal esc False (tl (sql_string s) @ rest) = Some (replace_char CHR 0x5C [CHR 0x5C, CHR 0x5C] s, rest) \<and>
    (\<forall>be pre. skip_quoted (pre @ sql_string s @ rest) (length pre) CHR 0x27 be = length pre + length (sql_string s))"
proof -
  let ?d = "replace_char CHR 0x5C [CHR 0x5C, CHR 0x5C] s"
  have scan: "skip_quoted (pre @ sql_string s @ rest) (length pre) CHR 0x27 be = length pre + length (sql_string s)"
    for be pre
    using skip_quoted_from_body [OF assms(2), of "pre @ [CHR 0x27]" True s]
      skip_quoted_from_body [OF assms(2), of "pre @ [CHR 0x27]" False ?d]
    by (cases be) (simp_all add: sql_string_literal string_literal_body skip_quoted_def lit_body_standard [of s])
  show ?thesis
    using read_literal_body [of esc rest True s, OF assms] read_literal_body [of esc rest False ?d, OF assms] scan
    by (simp add: sql_string_literal string_literal_body lit_body_standard [of s, symmetric])
qed

theorem exported_literal_is_contained_witness:
  "read_literal (\<lambda>c. [c]) False (tl (sql_string [CHR 0x5C, CHR 0x27]) @ '');'') = Some ([CHR 0x5C, CHR 0x5C, CHR 0x27], '');'')"
  using exported_literal_is_contained [of "\<lambda>c. [c]" "'');''" "[CHR 0x5C, CHR 0x27]"] by (simp add: replace_char_def)

section \<open>HTML text\<close>

text \<open>
  How a browser reads escaped text: the five entities as their characters. Markup begins with \<^verbatim>\<open><\<close>, which no
  escaped text holds.
\<close>

definition html_entities :: "(string \<times> char) list" where
  "html_entities = [(''amp;'', CHR ''&''), (''lt;'', CHR ''<''), (''gt;'', CHR ''>''), (''quot;'', CHR 0x22), (''#39;'', CHR 0x27)]"

fun entity_at :: "(string \<times> char) list \<Rightarrow> string \<Rightarrow> (char \<times> string) option" where
  "entity_at [] s = None"
| "entity_at ((e, c) # es) s = (if prefix e s then Some (c, drop (length e) s) else entity_at es s)"

lemma entity_at_length: "entity_at es s = Some (c, r) \<Longrightarrow> length r \<le> length s"
  by (induction es s rule: entity_at.induct) (auto split: if_splits)

function html_text :: "string \<Rightarrow> string" where
  "html_text [] = []"
| "html_text (c # s) =
     (if c = CHR ''&'' then (case entity_at html_entities s of Some (d, r) \<Rightarrow> d # html_text r | None \<Rightarrow> c # html_text s)
      else c # html_text s)"
  by pat_completeness auto
termination
  by (relation "measure length") (auto simp: less_Suc_eq_le dest: entity_at_length)

lemma html_text_entity: "entity_at html_entities s = Some (d, r) \<Longrightarrow> html_text (CHR ''&'' # s) = d # html_text r"
  by simp

lemma html_text_char: "html_text (html_char c @ s) = c # html_text s"
  by (simp add: html_char_def html_entities_def)

lemma html_char_no_markup: "x \<in> set (html_char c) \<Longrightarrow> x \<notin> {CHR ''<'', CHR ''>'', CHR 0x22, CHR 0x27}"
  by (auto simp: html_char_def split: if_splits)

lemma html_escape_append: "html_escape (s @ t) = html_escape s @ html_escape t"
  by (simp add: html_escape_def)

lemma html_escape_reads_back: "html_text (html_escape s @ t) = s @ html_text t"
  by (induction s) (simp_all add: html_escape_def html_text_char)

text \<open>
  The text of a cell cannot become markup: escaped text holds no bracket and no quote, and a reader that
  resolves the entities gets the text back.
\<close>

theorem html_escape_is_text:
  "set (html_escape s) \<inter> {CHR ''<'', CHR ''>'', CHR 0x22, CHR 0x27} = {} \<and> html_text (html_escape s) = s"
  using html_escape_reads_back [of s "[]"] html_char_no_markup by (fastforce simp: html_escape_def)

end
