(* ===== verification/Xlsx_Sheet.thy ===== *)
theory Xlsx_Sheet
  imports Zip_Archive Value_Text
begin

text \<open>
  The workbook export (\<^verbatim>\<open>crates/red-driver/src/xlsx.rs\<close>): text and cells of a sheet, the sheet with its spool,
  checksum and row limit, and the archive it is written into. The spool file is its contents; failures of the
  file system are not modelled.
\<close>

section \<open>Text\<close>

definition XLSX_MAX_ROWS :: nat where
  "XLSX_MAX_ROWS = 1048576"

definition XLSX_MAX_COLS :: nat where
  "XLSX_MAX_COLS = 16384"

definition is_hex_char :: "string \<Rightarrow> bool" where
  "is_hex_char c = (case c of [h] \<Rightarrow> is_ascii_hexdigit h | _ \<Rightarrow> False)"

fun looks_like_escape :: "string list \<Rightarrow> bool" where
  "looks_like_escape (u # x # a # b # c # d # v # rest) \<longleftrightarrow>
     u = ''_'' \<and> x = ''x'' \<and> is_hex_char a \<and> is_hex_char b \<and> is_hex_char c \<and> is_hex_char d \<and> v = ''_''"
| "looks_like_escape _ \<longleftrightarrow> False"

definition upper_hex :: "nat \<Rightarrow> char" where
  "upper_hex n = char_of (if n < 10 then 48 + n else 55 + n)"

definition hex4 :: "nat \<Rightarrow> string" where
  "hex4 n = [upper_hex (n div 4096 mod 16), upper_hex (n div 256 mod 16), upper_hex (n div 16 mod 16), upper_hex (n mod 16)]"

text \<open>The control characters below U+0020 and the two noncharacters, with their code points.\<close>

definition forbidden_point :: "string \<Rightarrow> nat option" where
  "forbidden_point c =
     (case c of [b] \<Rightarrow> if byte b < 0x20 then Some (byte b) else None
      | _ \<Rightarrow> if c = [CHR 0xEF, CHR 0xBF, CHR 0xBE] then Some 0xFFFE
             else if c = [CHR 0xEF, CHR 0xBF, CHR 0xBF] then Some 0xFFFF else None)"

fun xlsx_chars :: "string list \<Rightarrow> string" where
  "xlsx_chars [] = []"
| "xlsx_chars (c # cs) =
     (if c = ''&'' then ''&amp;'' else if c = ''<'' then ''&lt;'' else if c = ''>'' then ''&gt;''
      else if c = [CHR 0x22] then ''&quot;'' else if c = [CHR 0x27] then ''&apos;''
      else if c = ''_'' \<and> looks_like_escape (c # cs) then ''_x005F_''
      else if c = [CHR 0x09] \<or> c = [CHR 0x0A] \<or> c = [CHR 0x0D] then c
      else case forbidden_point c of Some n \<Rightarrow> ''_x'' @ hex4 n @ ''_'' | None \<Rightarrow> c) @ xlsx_chars cs"

definition xlsx_text :: "string \<Rightarrow> string" where
  "xlsx_text s = xlsx_chars (utf8_chars s)"

section \<open>Cells\<close>

function col_digits :: "nat \<Rightarrow> string" where
  "col_digits n = char_of (65 + n mod 26) # (if n < 26 then [] else col_digits (n div 26 - 1))"
  by pat_completeness auto
termination
  by (relation "measure id") (auto simp: less_diff_conv2 intro: le_less_trans [OF diff_le_self])

declare col_digits.simps [simp del]

definition col_ref :: "nat \<Rightarrow> string" where
  "col_ref index = rev (col_digits index)"

definition cell_open :: "string \<Rightarrow> nat \<Rightarrow> string" where
  \<open>cell_open col r = ''<c r="'' @ col @ show_nat r @ ''"''\<close>

definition push_inline :: "string \<Rightarrow> nat \<Rightarrow> string \<Rightarrow> string" where
  \<open>push_inline col r s =
     cell_open col r @ '' t="inlineStr"><is><t xml:space="preserve">'' @ xlsx_text s @ ''</t></is></c>''\<close>

fun push_cell :: "(fp \<Rightarrow> string) \<Rightarrow> string \<Rightarrow> nat \<Rightarrow> db_value \<Rightarrow> string" where
  "push_cell show_real col r Null = []"
| "push_cell show_real col r (Integer n) = cell_open col r @ ''><v>'' @ show_int n @ ''</v></c>''"
| "push_cell show_real col r (Real x) =
     (if fp_is_finite x then cell_open col r @ ''><v>'' @ show_real x @ ''</v></c>'' else push_inline col r (show_real x))"
| "push_cell show_real col r (Text s) = push_inline col r s"
| "push_cell show_real col r (Blob b) = push_inline col r (bytes_summary (length b))"
| "push_cell show_real col r (Capped c) = push_inline col r (value_display show_real (Capped c))"

definition row_xml :: "(fp \<Rightarrow> string) \<Rightarrow> nat \<Rightarrow> db_value list \<Rightarrow> string" where
  \<open>row_xml show_real r cells =
     ''<row r="'' @ show_nat r @ ''">'' @
     concat (map (\<lambda>(i, v). push_cell show_real (col_ref i) r v) (enumerate 0 (take XLSX_MAX_COLS cells))) @ ''</row>''\<close>

section \<open>Fixed parts\<close>

definition XML_DECL :: string where
  \<open>XML_DECL = ''<?xml version="1.0" encoding="UTF-8" standalone="yes"?>''\<close>

definition CONTENT_TYPES :: string where
  \<open>CONTENT_TYPES =
     ''<?xml version="1.0" encoding="UTF-8" standalone="yes"?>'' @
     ''<Types xmlns="http://schemas.openxmlformats.org/package/2006/content-types">'' @
     ''<Default Extension="rels" ContentType="application/vnd.openxmlformats-package.relationships+xml"/>'' @
     ''<Default Extension="xml" ContentType="application/xml"/>'' @
     ''<Override PartName="/xl/workbook.xml" ContentType="application/vnd.openxmlformats-officedocument.spreadsheetml.sheet.main+xml"/>'' @
     ''<Override PartName="/xl/worksheets/sheet1.xml" ContentType="application/vnd.openxmlformats-officedocument.spreadsheetml.worksheet+xml"/>'' @
     ''</Types>''\<close>

definition ROOT_RELS :: string where
  \<open>ROOT_RELS =
     ''<?xml version="1.0" encoding="UTF-8" standalone="yes"?>'' @
     ''<Relationships xmlns="http://schemas.openxmlformats.org/package/2006/relationships">'' @
     ''<Relationship Id="rId1" Type="http://schemas.openxmlformats.org/officeDocument/2006/relationships/officeDocument" Target="xl/workbook.xml"/>'' @
     ''</Relationships>''\<close>

definition WORKBOOK_RELS :: string where
  \<open>WORKBOOK_RELS =
     ''<?xml version="1.0" encoding="UTF-8" standalone="yes"?>'' @
     ''<Relationships xmlns="http://schemas.openxmlformats.org/package/2006/relationships">'' @
     ''<Relationship Id="rId1" Type="http://schemas.openxmlformats.org/officeDocument/2006/relationships/worksheet" Target="worksheets/sheet1.xml"/>'' @
     ''</Relationships>''\<close>

definition workbook_xml :: "string \<Rightarrow> string" where
  \<open>workbook_xml name =
     XML_DECL @ ''<workbook xmlns="http://schemas.openxmlformats.org/spreadsheetml/2006/main" xmlns:r="http://schemas.openxmlformats.org/officeDocument/2006/relationships"><sheets><sheet name="'' @
     xlsx_text name @ ''" sheetId="1" r:id="rId1"/></sheets></workbook>''\<close>

definition sheet_name :: "string \<Rightarrow> string" where
  "sheet_name stem =
     (let cleaned = trim (concat (take 31 (filter (\<lambda>c. c \<notin> {''['', '']'', '':'', ''*'', ''?'', ''/'', [CHR 0x5C]}) (utf8_chars stem))))
      in if cleaned = [] then ''Sheet1'' else cleaned)"

section \<open>The sheet\<close>

record xlsx_sheet =
  xs_spool :: bytes
  xs_crc :: "32 word"
  xs_len :: nat
  xs_rows :: nat
  xs_full :: bool
  xs_name :: string

definition sheet_push :: "string \<Rightarrow> xlsx_sheet \<Rightarrow> xlsx_sheet" where
  "sheet_push s sh = sh\<lparr>xs_spool := xs_spool sh @ s, xs_crc := crc_update (xs_crc sh) s, xs_len := xs_len sh + length s\<rparr>"

definition sheet_write_row :: "(fp \<Rightarrow> string) \<Rightarrow> db_value list \<Rightarrow> xlsx_sheet \<Rightarrow> xlsx_sheet" where
  "sheet_write_row show_real cells sh =
     (if xs_full sh then sh
      else let r = xs_rows sh + 1 in
        (sheet_push (row_xml show_real r cells) sh)\<lparr>xs_rows := r, xs_full := (XLSX_MAX_ROWS \<le> r)\<rparr>)"

definition SHEET_OPEN :: string where
  \<open>SHEET_OPEN = ''<worksheet xmlns="http://schemas.openxmlformats.org/spreadsheetml/2006/main"><sheetData>''\<close>

definition sheet_begin :: "(fp \<Rightarrow> string) \<Rightarrow> string \<Rightarrow> string list \<Rightarrow> string + xlsx_sheet" where
  "sheet_begin show_real stem names =
     (if XLSX_MAX_COLS < length names
      then Inl (show_nat (length names) @ '' columns exceeds Excel'' @ [CHR 0x27] @ ''s limit of 16384; export CSV instead'')
      else Inr (sheet_write_row show_real (map Text names)
        (sheet_push SHEET_OPEN (sheet_push XML_DECL
          \<lparr>xs_spool = [], xs_crc = crc_new, xs_len = 0, xs_rows = 0, xs_full = False, xs_name = sheet_name stem\<rparr>))))"

text \<open>Every step of the archive passes its error on.\<close>

definition and_then :: "'e + 'a \<Rightarrow> ('a \<Rightarrow> 'e + 'b) \<Rightarrow> 'e + 'b" where
  "and_then r f = (case r of Inl e \<Rightarrow> Inl e | Inr a \<Rightarrow> f a)"

definition sheet_finish :: "xlsx_sheet \<Rightarrow> string + bytes" where
  "sheet_finish sh =
     (let sh1 = sheet_push ''</sheetData></worksheet>'' sh in
      and_then (zip_size (xs_len sh1)) (\<lambda>sz.
      and_then (zip_add ''[Content_Types].xml'' CONTENT_TYPES zip_new) (\<lambda>z1.
      and_then (zip_add ''_rels/.rels'' ROOT_RELS z1) (\<lambda>z2.
      and_then (zip_add ''xl/workbook.xml'' (workbook_xml (xs_name sh1)) z2) (\<lambda>z3.
      and_then (zip_add ''xl/_rels/workbook.xml.rels'' WORKBOOK_RELS z3) (\<lambda>z4.
      and_then (zip_add_streamed ''xl/worksheets/sheet1.xml'' (crc_finish (xs_crc sh1)) sz (xs_spool sh1) z4) zip_finish))))))"

section \<open>The archive of a sheet\<close>

text \<open>The checksum and the length are in step with the spool, and the sheet is full exactly at the row limit.\<close>

definition sheet_ok :: "xlsx_sheet \<Rightarrow> bool" where
  "sheet_ok sh \<longleftrightarrow> xs_crc sh = crc_update crc_new (xs_spool sh) \<and> xs_len sh = length (xs_spool sh) \<and>
     xs_rows sh \<le> XLSX_MAX_ROWS \<and> (xs_full sh \<longleftrightarrow> xs_rows sh = XLSX_MAX_ROWS)"

lemma sheet_push_ok: "sheet_ok sh \<Longrightarrow> sheet_ok (sheet_push s sh)"
  by (simp add: sheet_ok_def sheet_push_def)

lemma sheet_write_row_ok: "sheet_ok sh \<Longrightarrow> sheet_ok (sheet_write_row show_real cells sh)"
  using sheet_push_ok [of sh "row_xml show_real (xs_rows sh + 1) cells"]
  by (auto simp: sheet_write_row_def sheet_ok_def sheet_push_def Let_def)

lemma sheet_begin_ok: "sheet_begin show_real stem names = Inr sh \<Longrightarrow> sheet_ok sh"
  by (auto simp: sheet_begin_def split: if_splits intro!: sheet_write_row_ok sheet_push_ok)
    (simp add: sheet_ok_def XLSX_MAX_ROWS_def)

lemma sheet_rows_ok: "sheet_ok sh \<Longrightarrow> sheet_ok (fold (sheet_write_row show_real) rows sh)"
  by (induction rows arbitrary: sh) (simp_all add: sheet_write_row_ok)

definition rows_xml :: "(fp \<Rightarrow> string) \<Rightarrow> nat \<Rightarrow> db_value list list \<Rightarrow> string" where
  "rows_xml show_real r rows = concat (map (\<lambda>(i, cells). row_xml show_real i cells) (enumerate r rows))"

lemma rows_xml_simps [simp]:
  "rows_xml show_real r [] = []" "rows_xml show_real r (c # cs) = row_xml show_real r c @ rows_xml show_real (Suc r) cs"
  by (simp_all add: rows_xml_def)

lemma sheet_rows_spool:
  "sheet_ok sh \<Longrightarrow> xs_spool (fold (sheet_write_row show_real) rows sh) =
     xs_spool sh @ rows_xml show_real (Suc (xs_rows sh)) (take (XLSX_MAX_ROWS - xs_rows sh) rows) \<and>
     xs_rows (fold (sheet_write_row show_real) rows sh) = min XLSX_MAX_ROWS (xs_rows sh + length rows) \<and>
     xs_name (fold (sheet_write_row show_real) rows sh) = xs_name sh"
proof (induction rows arbitrary: sh)
  case Nil
  then show ?case by (simp add: sheet_ok_def)
next
  case (Cons cells rows)
  note IH = Cons.IH [OF sheet_write_row_ok [OF Cons.prems, of show_real cells]]
  show ?case
  proof (cases "xs_full sh")
    case True
    then have "sheet_write_row show_real cells sh = sh" by (simp add: sheet_write_row_def)
    then show ?thesis using Cons.IH [OF Cons.prems] Cons.prems True by (simp add: sheet_ok_def)
  next
    case False
    then have "xs_rows sh < XLSX_MAX_ROWS" using Cons.prems by (simp add: sheet_ok_def)
    then have "XLSX_MAX_ROWS - xs_rows sh = Suc (XLSX_MAX_ROWS - Suc (xs_rows sh))" by simp
    moreover have "xs_spool (sheet_write_row show_real cells sh) = xs_spool sh @ row_xml show_real (Suc (xs_rows sh)) cells"
      "xs_rows (sheet_write_row show_real cells sh) = Suc (xs_rows sh)" "xs_name (sheet_write_row show_real cells sh) = xs_name sh"
      using False by (simp_all add: sheet_write_row_def sheet_push_def Let_def)
    ultimately show ?thesis using IH by simp
  qed
qed

text \<open>The sheet part of a result: the header and the data rows that fit, and the parts of the workbook.\<close>

definition sheet_xml :: "(fp \<Rightarrow> string) \<Rightarrow> string list \<Rightarrow> db_value list list \<Rightarrow> string" where
  "sheet_xml show_real names rows =
     XML_DECL @ SHEET_OPEN @ rows_xml show_real 1 (take XLSX_MAX_ROWS (map Text names # rows)) @ ''</sheetData></worksheet>''"

definition workbook_parts :: "(fp \<Rightarrow> string) \<Rightarrow> string \<Rightarrow> string list \<Rightarrow> db_value list list \<Rightarrow> (string \<times> bytes) list" where
  "workbook_parts show_real stem names rows =
     [(''[Content_Types].xml'', CONTENT_TYPES), (''_rels/.rels'', ROOT_RELS),
      (''xl/workbook.xml'', workbook_xml (sheet_name stem)), (''xl/_rels/workbook.xml.rels'', WORKBOOK_RELS),
      (''xl/worksheets/sheet1.xml'', sheet_xml show_real names rows)]"

lemma and_then_Inr: "and_then r f = Inr b \<longleftrightarrow> (\<exists>a. r = Inr a \<and> f a = Inr b)"
  by (auto simp: and_then_def split: sum.splits)

lemma sheet_of_rows:
  assumes "sheet_begin show_real stem names = Inr sh0"
  shows "xs_spool (fold (sheet_write_row show_real) rows sh0) @ ''</sheetData></worksheet>'' = sheet_xml show_real names rows \<and>
    xs_name (fold (sheet_write_row show_real) rows sh0) = sheet_name stem"
proof -
  let ?empty = "\<lparr>xs_spool = [], xs_crc = crc_new, xs_len = 0, xs_rows = 0, xs_full = False, xs_name = sheet_name stem\<rparr>"
  let ?open = "sheet_push SHEET_OPEN (sheet_push XML_DECL ?empty)"
  have ok: "sheet_ok ?open" by (intro sheet_push_ok) (simp add: sheet_ok_def XLSX_MAX_ROWS_def)
  have "fold (sheet_write_row show_real) rows sh0 = fold (sheet_write_row show_real) (map Text names # rows) ?open"
    using assms by (auto simp: sheet_begin_def split: if_splits)
  then show ?thesis
    using sheet_rows_spool [OF ok, of show_real "map Text names # rows"] by (simp add: sheet_xml_def sheet_push_def)
qed

lemma sheet_finish_zip:
  assumes "sheet_begin show_real stem names = Inr sh"
  shows "sheet_finish (fold (sheet_write_row show_real) rows sh) =
    (let sheet = sheet_xml show_real names rows in
     and_then (zip_size (length sheet)) (\<lambda>sz.
     and_then (zip_add ''[Content_Types].xml'' CONTENT_TYPES zip_new) (\<lambda>z1.
     and_then (zip_add ''_rels/.rels'' ROOT_RELS z1) (\<lambda>z2.
     and_then (zip_add ''xl/workbook.xml'' (workbook_xml (sheet_name stem)) z2) (\<lambda>z3.
     and_then (zip_add ''xl/_rels/workbook.xml.rels'' WORKBOOK_RELS z3) (\<lambda>z4.
     and_then (zip_add_streamed ''xl/worksheets/sheet1.xml'' (crc32 sheet) sz sheet z4) zip_finish))))))"
proof -
  let ?sh = "sheet_push ''</sheetData></worksheet>'' (fold (sheet_write_row show_real) rows sh)"
  let ?sheet = "sheet_xml show_real names rows"
  have "sheet_ok ?sh" using sheet_push_ok sheet_rows_ok sheet_begin_ok assms by blast
  moreover have spool: "xs_spool ?sh = ?sheet" "xs_name ?sh = sheet_name stem"
    using sheet_of_rows [OF assms, of rows] by (simp_all add: sheet_push_def)
  ultimately have "crc_finish (xs_crc ?sh) = crc32 ?sheet" and "xs_len ?sh = length ?sheet"
    by (simp_all add: sheet_ok_def crc32_def)
  with spool show ?thesis by (simp only: sheet_finish_def Let_def)
qed

lemma sheet_finish_parts:
  assumes "sheet_begin show_real stem names = Inr sh"
    and "sheet_finish (fold (sheet_write_row show_real) rows sh) = Inr archive"
  shows "\<exists>z. zip_holds (workbook_parts show_real stem names rows) z \<and> zip_finish z = Inr archive"
proof -
  let ?sheet = "sheet_xml show_real names rows"
  from assms(2) obtain sz z1 z2 z3 z4 z5 where sz: "zip_size (length ?sheet) = Inr sz"
    and "zip_add ''[Content_Types].xml'' CONTENT_TYPES zip_new = Inr z1" "zip_add ''_rels/.rels'' ROOT_RELS z1 = Inr z2"
      "zip_add ''xl/workbook.xml'' (workbook_xml (sheet_name stem)) z2 = Inr z3"
      "zip_add ''xl/_rels/workbook.xml.rels'' WORKBOOK_RELS z3 = Inr z4"
    and last: "zip_add_streamed ''xl/worksheets/sheet1.xml'' (crc32 ?sheet) sz ?sheet z4 = Inr z5" "zip_finish z5 = Inr archive"
    unfolding sheet_finish_zip [OF assms(1)] Let_def and_then_Inr by blast
  then have z4: "zip_holds (((([] @ [(''[Content_Types].xml'', CONTENT_TYPES)]) @ [(''_rels/.rels'', ROOT_RELS)])
      @ [(''xl/workbook.xml'', workbook_xml (sheet_name stem))]) @ [(''xl/_rels/workbook.xml.rels'', WORKBOOK_RELS)]) z4"
    using zip_add_holds zip_holds_new by meson
  have "length ?sheet < 2 ^ 32" "sz = of_nat (length ?sheet)" using sz by (auto simp: zip_size_def split: if_splits)
  from zip_add_streamed_holds [OF z4 this(1)] last(1) this(2)
  have "zip_holds (workbook_parts show_real stem names rows) z5" by (simp add: workbook_parts_def)
  with last(2) show ?thesis by blast
qed

lemma sheet_finish_fits:
  assumes "sheet_begin show_real stem names = Inr sh"
    and fits: "archive_length (workbook_parts show_real stem names rows) < 2 ^ 32"
  shows "\<exists>archive. sheet_finish (fold (sheet_write_row show_real) rows sh) = Inr archive"
proof -
  let ?sheet = "sheet_xml show_real names rows"
  have room: "parts_length (workbook_parts show_real stem names rows) < 2 ^ 32" using fits by (simp add: archive_length_def)
  then have len: "length ?sheet < 2 ^ 32" by (simp add: workbook_parts_def parts_length_def)
  obtain z1 where z1: "zip_add ''[Content_Types].xml'' CONTENT_TYPES zip_new = Inr z1" "zip_holds [(''[Content_Types].xml'', CONTENT_TYPES)] z1"
    using zip_add_fits [OF zip_holds_new, of "''[Content_Types].xml''" CONTENT_TYPES] room
    by (auto simp: workbook_parts_def parts_length_def)
  obtain z2 where z2: "zip_add ''_rels/.rels'' ROOT_RELS z1 = Inr z2" "zip_holds [(''[Content_Types].xml'', CONTENT_TYPES), (''_rels/.rels'', ROOT_RELS)] z2"
    using zip_add_fits [OF z1(2), of "''_rels/.rels''" ROOT_RELS] room by (auto simp: workbook_parts_def parts_length_def)
  obtain z3 where z3: "zip_add ''xl/workbook.xml'' (workbook_xml (sheet_name stem)) z2 = Inr z3"
      "zip_holds [(''[Content_Types].xml'', CONTENT_TYPES), (''_rels/.rels'', ROOT_RELS), (''xl/workbook.xml'', workbook_xml (sheet_name stem))] z3"
    using zip_add_fits [OF z2(2), of "''xl/workbook.xml''" "workbook_xml (sheet_name stem)"] room by (auto simp: workbook_parts_def parts_length_def)
  obtain z4 where z4: "zip_add ''xl/_rels/workbook.xml.rels'' WORKBOOK_RELS z3 = Inr z4"
      "zip_holds [(''[Content_Types].xml'', CONTENT_TYPES), (''_rels/.rels'', ROOT_RELS), (''xl/workbook.xml'', workbook_xml (sheet_name stem)),
        (''xl/_rels/workbook.xml.rels'', WORKBOOK_RELS)] z4"
    using zip_add_fits [OF z3(2), of "''xl/_rels/workbook.xml.rels''" WORKBOOK_RELS] room by (auto simp: workbook_parts_def parts_length_def)
  obtain z5 where z5: "zip_add_streamed ''xl/worksheets/sheet1.xml'' (crc32 ?sheet) (of_nat (length ?sheet)) ?sheet z4 = Inr z5"
      "zip_holds (workbook_parts show_real stem names rows) z5"
    using zip_add_streamed_fits [OF z4(2), of "''xl/worksheets/sheet1.xml''" ?sheet] room by (auto simp: workbook_parts_def parts_length_def)
  have "\<exists>b. zip_finish z5 = Inr b" using zip_finish_iff [OF z5(2)] fits by (simp add: workbook_parts_def)
  with z1 z2 z3 z4 z5 len show ?thesis
    unfolding sheet_finish_zip [OF assms(1)] Let_def and_then_Inr by (auto simp: zip_size_def)
qed

text \<open>
  C29. An exported workbook reads back, or is refused: the export fails exactly when the archive would not fit in
  4 GiB, it never wraps an offset; and otherwise a ZIP reader that follows the central directory and checks every
  checksum gets the five parts, the sheet part being the header and the rows in order, cut at the row limit.
\<close>

theorem workbook_reads_back:
  assumes "sheet_begin show_real stem names = Inr sh"
  shows "case sheet_finish (fold (sheet_write_row show_real) rows sh) of
      Inl _ \<Rightarrow> 2 ^ 32 \<le> archive_length (workbook_parts show_real stem names rows)
    | Inr archive \<Rightarrow> archive_length (workbook_parts show_real stem names rows) < 2 ^ 32 \<and>
        unzip archive = Some (workbook_parts show_real stem names rows)"
proof (cases "sheet_finish (fold (sheet_write_row show_real) rows sh)")
  case (Inl e)
  with sheet_finish_fits [OF assms, of rows] show ?thesis by (auto simp: not_le [symmetric])
next
  case (Inr archive)
  from sheet_finish_parts [OF assms this] obtain z where z: "zip_holds (workbook_parts show_real stem names rows) z" "zip_finish z = Inr archive"
    by blast
  moreover have "length (workbook_parts show_real stem names rows) < 2 ^ 16" by (simp add: workbook_parts_def)
  ultimately show ?thesis using Inr unzip_finish [OF z] zip_finish_iff [OF z(1)] by auto
qed

theorem workbook_reads_back_witness:
  "\<exists>sh archive. sheet_begin (\<lambda>_. []) ''t'' [''a''] = Inr sh \<and>
     sheet_finish (fold (sheet_write_row (\<lambda>_. [])) [[Integer 1]] sh) = Inr archive \<and>
     unzip archive = Some (workbook_parts (\<lambda>_. []) ''t'' [''a''] [[Integer 1]])"
proof -
  obtain sh where sh: "sheet_begin (\<lambda>_. []) ''t'' [''a''] = Inr sh" by (simp add: sheet_begin_def XLSX_MAX_COLS_def)
  have "archive_length (workbook_parts (\<lambda>_. []) ''t'' [''a''] [[Integer 1]]) < 2 ^ 32"
  proof -
    have "sheet_name ''t'' = ''t''" "xlsx_text ''t'' = ''t''" by code_simp+
    then have "length (workbook_xml (sheet_name ''t'')) < 1000" by (simp add: workbook_xml_def XML_DECL_def)
    moreover have "length CONTENT_TYPES < 1000" "length ROOT_RELS < 1000" "length WORKBOOK_RELS < 1000"
      by (simp_all add: CONTENT_TYPES_def ROOT_RELS_def WORKBOOK_RELS_def)
    moreover have "length (sheet_xml (\<lambda>_. []) [''a''] [[Integer 1]]) < 1000"
    proof -
      have "length (row_xml (\<lambda>_. []) 1 [Text ''a'']) < 200" "length (row_xml (\<lambda>_. []) 2 [Integer 1]) < 200" by code_simp+
      moreover have "length XML_DECL < 200" "length SHEET_OPEN < 200" by (simp_all add: XML_DECL_def SHEET_OPEN_def)
      ultimately show ?thesis by (simp add: sheet_xml_def XLSX_MAX_ROWS_def numeral_2_eq_2)
    qed
    ultimately show ?thesis by (simp add: archive_length_def parts_length_def workbook_parts_def)
  qed
  with workbook_reads_back [OF sh, of "[[Integer 1]]"] sh show ?thesis by (auto split: sum.splits)
qed

section \<open>Column references\<close>

definition col_number :: "string \<Rightarrow> nat" where
  "col_number s = foldl (\<lambda>n c. 26 * n + (byte c - 64)) 0 s"

lemma col_digits_number: "foldr (\<lambda>c n. 26 * n + (byte c - 64)) (col_digits n) 0 = n + 1"
proof (induction n rule: col_digits.induct)
  case (1 n)
  have "byte (char_of (65 + n mod 26) :: char) = 65 + n mod 26"
    using mod_less_divisor [of 26 n] by (intro byte_char_of) simp
  with 1 show ?case
    by (cases "n < 26") (simp_all add: col_digits.simps [of n] algebra_simps)
qed

text \<open>
  The letters of a column count in base 26 without a zero: reading them back gives the position, so no two
  columns of a sheet share a reference.
\<close>

lemma col_ref_number: "col_number (col_ref i) = i + 1"
  using col_digits_number [of i] by (simp add: col_number_def col_ref_def foldl_conv_foldr)

lemma col_ref_inject: "col_ref i = col_ref j \<longleftrightarrow> i = j"
  by (metis col_ref_number add_right_cancel)

section \<open>Text reads back\<close>

text \<open>
  How a spreadsheet reads the text of a cell: first as XML, which resolves the five entities and turns every
  carriage return (with a line feed behind it) into a line feed, then its own \<^verbatim>\<open>_xHHHH_\<close> escapes.
\<close>

definition xml_entities :: "(string \<times> char) list" where
  "xml_entities = [(''amp;'', CHR ''&''), (''lt;'', CHR ''<''), (''gt;'', CHR ''>''), (''quot;'', CHR 0x22), (''apos;'', CHR 0x27)]"

function xml_text :: "string \<Rightarrow> string" where
  "xml_text [] = []"
| "xml_text (c # s) =
     (if c = CHR ''&'' then (case entity_at xml_entities s of Some (d, r) \<Rightarrow> d # xml_text r | None \<Rightarrow> c # xml_text s)
      else if c = CHR 0x0D then CHR 0x0A # xml_text (if s \<noteq> [] \<and> hd s = CHR 0x0A then tl s else s)
      else c # xml_text s)"
  by pat_completeness auto
termination
  by (relation "measure length") (auto simp: less_Suc_eq_le dest: entity_at_length)

definition hex_point :: "char \<Rightarrow> nat" where
  "hex_point c = (if byte c < 58 then byte c - 48 else if byte c < 71 then byte c - 55 else byte c - 87)"

fun escape_at :: "string \<Rightarrow> (nat \<times> string) option" where
  "escape_at (u # x # a # b # c # d # v # rest) =
     (if u = CHR ''_'' \<and> x = CHR ''x'' \<and> list_all is_ascii_hexdigit [a, b, c, d] \<and> v = CHR ''_''
      then Some (4096 * hex_point a + 256 * hex_point b + 16 * hex_point c + hex_point d, rest) else None)"
| "escape_at _ = None"

definition utf8_encode :: "nat \<Rightarrow> string" where
  "utf8_encode n =
     (if n < 0x80 then [char_of n]
      else if n < 0x800 then [char_of (0xC0 + n div 64), char_of (0x80 + n mod 64)]
      else [char_of (0xE0 + n div 4096), char_of (0x80 + n div 64 mod 64), char_of (0x80 + n mod 64)])"

lemma escape_at_length: "escape_at s = Some (n, r) \<Longrightarrow> length r < length s"
  by (induction s rule: escape_at.induct) (auto split: if_splits)

function excel_unescape :: "string \<Rightarrow> string" where
  "excel_unescape [] = []"
| "excel_unescape (c # s) =
     (case escape_at (c # s) of Some (n, r) \<Rightarrow> utf8_encode n @ excel_unescape r | None \<Rightarrow> c # excel_unescape s)"
  by pat_completeness auto
termination
  by (relation "measure length") (auto dest: escape_at_length)

definition cell_text :: "string \<Rightarrow> string" where
  "cell_text s = excel_unescape (xml_text s)"

text \<open>The text between the two readings, and the characters of a valid string.\<close>

definition escaped_char :: "string \<Rightarrow> bool" where
  "escaped_char c \<longleftrightarrow> c \<notin> {[CHR 0x09], [CHR 0x0A], [CHR 0x0D]} \<and> forbidden_point c \<noteq> None"

fun marked :: "string list \<Rightarrow> string" where
  "marked [] = []"
| "marked (c # cs) =
     (if c = ''_'' \<and> looks_like_escape (c # cs) then ''_x005F_''
      else if escaped_char c then ''_x'' @ hex4 (the (forbidden_point c)) @ ''_'' else c) @ marked cs"

definition char_ok :: "string \<Rightarrow> bool" where
  "char_ok c \<longleftrightarrow> (\<exists>b. c = [b] \<and> is_ascii b) \<or> (c \<noteq> [] \<and> list_all (\<lambda>b. 0x80 \<le> byte b) c)"

lemma utf8_chars_ok: "valid_utf8 s \<Longrightarrow> list_all char_ok (utf8_chars s)"
proof (induction s rule: utf8_chars.induct)
  case (2 c r)
  have "valid_utf8 ((c # takeWhile is_cont_byte r) @ dropWhile is_cont_byte r)" using 2 by simp
  then have rest: "valid_utf8 (dropWhile is_cont_byte r)"
    using valid_utf8_append_iff [of "dropWhile is_cont_byte r" "c # takeWhile is_cont_byte r"] hd_dropWhile [of is_cont_byte r] by auto
  have cont: "list_all (\<lambda>b. 0x80 \<le> byte b) (takeWhile is_cont_byte r)"
    by (auto simp: list_all_iff is_cont_byte_def dest!: set_takeWhileD)
  have "char_ok (c # takeWhile is_cont_byte r)"
  proof (cases "is_ascii c")
    case True
    then have "valid_utf8 r" using 2 by simp
    then have "takeWhile is_cont_byte r = []" by (metis takeWhile_eq_Nil_iff valid_utf8_hd)
    with True show ?thesis by (simp add: char_ok_def)
  next
    case False
    with cont show ?thesis by (simp add: char_ok_def is_ascii_def)
  qed
  with 2 rest show ?case by simp
qed simp

lemma xml_text_plain: "CHR ''&'' \<notin> set p \<Longrightarrow> CHR 0x0D \<notin> set p \<Longrightarrow> xml_text (p @ s) = p @ xml_text s"
  by (induction p) auto

lemma hex4_plain: "x \<in> set (hex4 n) \<Longrightarrow> 48 \<le> byte x"
  by (auto simp: hex4_def upper_hex_def)

lemma xml_text_chars:
  "list_all char_ok cs \<Longrightarrow> [CHR 0x0D] \<notin> set cs \<Longrightarrow> xml_text (xlsx_chars cs) = marked cs"
proof (induction cs)
  case (Cons c cs)
  then have IH: "xml_text (xlsx_chars cs) = marked cs" and ok: "char_ok c" and cr: "c \<noteq> [CHR 0x0D]" by auto
  have hex: "CHR ''&'' \<notin> set (hex4 n)" "CHR 0x0D \<notin> set (hex4 n)" for n using hex4_plain [of _ n] by force+
  consider "c \<in> {''&'', ''<'', ''>'', [CHR 0x22], [CHR 0x27]}" | (esc) "c \<notin> {''&'', ''<'', ''>'', [CHR 0x22], [CHR 0x27]}" by blast
  then show ?case
  proof cases
    case 1
    then show ?thesis using IH by (auto simp: xml_entities_def escaped_char_def forbidden_point_def)
  next
    case esc
    have plain: "CHR ''&'' \<notin> set c" "CHR 0x0D \<notin> set c"
      using ok cr esc by (auto simp: char_ok_def list_all_iff)
    show ?thesis
      using esc IH plain hex cr
      by (auto simp: xml_text_plain escaped_char_def split: option.splits)
  qed
qed simp

text \<open>
  The one way a reading goes wrong: a literal \<^verbatim>\<open>_xHHHH\<close> right before an escaped character, whose own underscore
  then completes it.
\<close>

fun clash_at :: "string list \<Rightarrow> bool" where
  "clash_at (u # x # a # b # c # d # k # rest) \<longleftrightarrow>
     u = ''_'' \<and> x = ''x'' \<and> is_hex_char a \<and> is_hex_char b \<and> is_hex_char c \<and> is_hex_char d \<and> escaped_char k"
| "clash_at _ \<longleftrightarrow> False"

fun escape_clash :: "string list \<Rightarrow> bool" where
  "escape_clash [] \<longleftrightarrow> False"
| "escape_clash (c # cs) \<longleftrightarrow> clash_at (c # cs) \<or> escape_clash cs"

lemma noncharacter_bytes: "char_of (239 :: nat) = CHR 0xEF" "char_of (191 :: nat) = CHR 0xBF" "char_of (190 :: nat) = CHR 0xBE"
  by code_simp+

lemma forbidden_encode: "char_ok c \<Longrightarrow> forbidden_point c = Some n \<Longrightarrow> utf8_encode n = c \<and> n < 65536"
  by (auto simp: forbidden_point_def utf8_encode_def noncharacter_bytes split: list.splits if_splits)

lemma upper_hex_point: "n < 16 \<Longrightarrow> is_ascii_hexdigit (upper_hex n) \<and> hex_point (upper_hex n) = n"
  by (auto simp: upper_hex_def hex_point_def is_ascii_hexdigit_def is_ascii_digit_def)

lemma escape_at_hex4: "n < 65536 \<Longrightarrow> escape_at (''_x'' @ hex4 n @ ''_'' @ s) = Some (n, s)"
proof -
  assume n: "n < 65536"
  have "4096 * (n div 4096) + 256 * (n div 256 mod 16) + 16 * (n div 16 mod 16) + n mod 16 = n"
  proof -
    have "n = 16 * (n div 16) + n mod 16" by simp
    moreover have "n div 16 = 16 * (n div 256) + n div 16 mod 16"
      using mult_div_mod_eq [of 16 "n div 16"] by (simp add: div_mult2_eq [of n 16 16, symmetric])
    moreover have "n div 256 = 16 * (n div 4096) + n div 256 mod 16"
      using mult_div_mod_eq [of 16 "n div 256"] by (simp add: div_mult2_eq [of n 256 16, symmetric])
    ultimately show ?thesis by linarith
  qed
  moreover have "n div 4096 mod 16 = n div 4096" using n by simp
  moreover have "n div 4096 < 16" using n by simp
  ultimately show ?thesis by (simp add: hex4_def upper_hex_point)
qed

lemma excel_unescape_escape: "n < 65536 \<Longrightarrow> excel_unescape (''_x'' @ hex4 n @ ''_'' @ s) = utf8_encode n @ excel_unescape s"
  using escape_at_hex4 [of n s] by simp

lemma escape_at_other: "c \<noteq> CHR ''_'' \<Longrightarrow> escape_at (c # s) = None"
  by (cases "c # s" rule: escape_at.cases) auto

lemma excel_unescape_plain: "CHR ''_'' \<notin> set p \<Longrightarrow> excel_unescape (p @ s) = p @ excel_unescape s"
  by (induction p) (auto simp: escape_at_other)

lemma marked_head:
  assumes "list_all char_ok cs" "marked cs = d # r" "is_ascii d" "d \<noteq> CHR ''_''"
  shows "\<exists>cs1. cs = [d] # cs1 \<and> r = marked cs1 \<and> list_all char_ok cs1"
proof (cases cs)
  case (Cons c cs1)
  then have "\<not> escaped_char c" "\<not> (c = ''_'' \<and> looks_like_escape (c # cs1))" using assms(2,4) by (auto split: if_splits)
  with Cons assms have "c @ marked cs1 = d # r" "char_ok c" "list_all char_ok cs1" by (auto split: if_splits)
  with Cons assms(3) show ?thesis by (cases c) (auto simp: char_ok_def is_ascii_def)
qed (use assms in simp)

lemma hex_not_underscore: "is_ascii_hexdigit c \<Longrightarrow> is_ascii c \<and> c \<noteq> CHR ''_''"
  by (auto simp: is_ascii_hexdigit_def is_ascii_digit_def is_ascii_def)

lemma underscore_stands:
  assumes "list_all char_ok cs" "\<not> looks_like_escape (''_'' # cs)" "\<not> clash_at (''_'' # cs)"
  shows "escape_at (CHR ''_'' # marked cs) = None"
proof (rule ccontr)
  assume "escape_at (CHR ''_'' # marked cs) \<noteq> None"
  then obtain a b c d rest where m: "marked cs = CHR ''x'' # a # b # c # d # CHR ''_'' # rest"
    and hex: "is_ascii_hexdigit a" "is_ascii_hexdigit b" "is_ascii_hexdigit c" "is_ascii_hexdigit d"
    by (cases "CHR ''_'' # marked cs" rule: escape_at.cases) (auto split: if_splits)
  have "is_ascii CHR ''x''" by (simp add: is_ascii_def)
  with marked_head [OF assms(1) m] obtain c1 where c1: "cs = ''x'' # c1" "marked c1 = a # b # c # d # CHR ''_'' # rest" "list_all char_ok c1" by auto
  from marked_head [OF c1(3,2)] hex_not_underscore [OF hex(1)] obtain c2 where c2: "c1 = [a] # c2" "marked c2 = b # c # d # CHR ''_'' # rest" "list_all char_ok c2" by auto
  from marked_head [OF c2(3,2)] hex_not_underscore [OF hex(2)] obtain c3 where c3: "c2 = [b] # c3" "marked c3 = c # d # CHR ''_'' # rest" "list_all char_ok c3" by auto
  from marked_head [OF c3(3,2)] hex_not_underscore [OF hex(3)] obtain c4 where c4: "c3 = [c] # c4" "marked c4 = d # CHR ''_'' # rest" "list_all char_ok c4" by auto
  from marked_head [OF c4(3,2)] hex_not_underscore [OF hex(4)] obtain c5 where c5: "c4 = [d] # c5" "marked c5 = CHR ''_'' # rest" "list_all char_ok c5" by auto
  then obtain k c6 where k: "c5 = k # c6" by (cases c5) auto
  have "k = ''_'' \<or> escaped_char k"
    using c5 k by (cases k) (auto simp: char_ok_def split: if_splits)
  moreover have "is_hex_char [a]" "is_hex_char [b]" "is_hex_char [c]" "is_hex_char [d]" using hex by (simp_all add: is_hex_char_def)
  ultimately show False using assms(2,3) c1 c2 c3 c4 c5 k by auto
qed

lemma excel_unescape_marked:
  "list_all char_ok cs \<Longrightarrow> \<not> escape_clash cs \<Longrightarrow> excel_unescape (marked cs) = concat cs"
proof (induction cs)
  case (Cons c cs)
  then have IH: "excel_unescape (marked cs) = concat cs" and ok: "char_ok c" by simp_all
  consider (under) "c = ''_''" "looks_like_escape (c # cs)" | (esc) "escaped_char c" "c \<noteq> ''_''"
    | (bare) "c = ''_''" "\<not> looks_like_escape (c # cs)" "\<not> escaped_char c" | (plain) "c \<noteq> ''_''" "\<not> escaped_char c"
    by (auto simp: escaped_char_def forbidden_point_def)
  then show ?case
  proof cases
    case under
    have code: "hex4 95 = ''005F''" "utf8_encode 95 = ''_''" by code_simp+
    from excel_unescape_escape [of 95 "marked cs"] have "excel_unescape (''_x005F_'' @ marked cs) = ''_'' @ excel_unescape (marked cs)"
      unfolding code by (simp del: excel_unescape.simps)
    with under IH show ?thesis by (simp del: excel_unescape.simps)
  next
    case esc
    then obtain n where n: "forbidden_point c = Some n" by (auto simp: escaped_char_def)
    with esc IH excel_unescape_escape [of n "marked cs"] forbidden_encode [OF ok n] show ?thesis
      by (simp del: excel_unescape.simps)
  next
    case bare
    with underscore_stands [of cs] Cons.prems IH show ?thesis by simp
  next
    case plain
    then have "CHR ''_'' \<notin> set c" using ok by (auto simp: char_ok_def list_all_iff)
    with plain IH excel_unescape_plain [of c "marked cs"] show ?thesis by simp
  qed
qed simp

lemma utf8_chars_bytes: "[c] \<in> set (utf8_chars s) \<Longrightarrow> c \<in> set s"
  by (metis concat_utf8_chars UN_I list.set_intros(1) set_concat)

text \<open>
  C30. The text of a workbook cell reads back: for valid text without a carriage return, a spreadsheet that
  resolves the entities of XML and then its own escapes gets the text, control characters and literal escapes
  included, unless a literal \<^verbatim>\<open>_xHHHH\<close> stands right before a control character.
\<close>

theorem xlsx_text_reads_back:
  assumes "valid_utf8 s" "CHR 0x0D \<notin> set s" "\<not> escape_clash (utf8_chars s)"
  shows "cell_text (xlsx_text s) = s"
proof -
  have "[CHR 0x0D] \<notin> set (utf8_chars s)" using assms(2) utf8_chars_bytes by blast
  then show ?thesis
    using xml_text_chars [OF utf8_chars_ok [OF assms(1)]] excel_unescape_marked [OF utf8_chars_ok [OF assms(1)] assms(3)]
    by (simp add: cell_text_def xlsx_text_def)
qed

theorem xlsx_text_reads_back_witness: "cell_text (xlsx_text (''a<_x0041_'' @ [CHR 0x00])) = ''a<_x0041_'' @ [CHR 0x00]"
  by (rule xlsx_text_reads_back) code_simp+

text \<open>Both restrictions are needed: the reading of the clash and of a carriage return differ from the text.\<close>

lemma xlsx_text_clash: "cell_text (xlsx_text (''_x0041'' @ [CHR 0x01])) = ''Ax0001_''"
  by code_simp

lemma xlsx_text_loses_carriage_return: "cell_text (xlsx_text [CHR ''a'', CHR 0x0D, CHR 0x0A, CHR ''b'']) = [CHR ''a'', CHR 0x0A, CHR ''b'']"
  by code_simp

end
