(* ===== verification/File_Export.thy ===== *)
theory File_Export
  imports Xlsx_Sheet
begin

text \<open>
  The export writer (\<^verbatim>\<open>crates/red-driver/src/format.rs\<close>) every driver's export drives: the framing of CSV, JSON,
  HTML, SQL and XLSX files, row by row, and the outcome it reports. \<open>stem\<close> is the stem of the destination file.
  Failures of the output stream are not modelled.
\<close>

section \<open>Framing\<close>

datatype export_format = FmtCsv | FmtJson | FmtHtml | FmtSql | FmtXlsx

datatype framing = FrameCsv | FrameJson | FrameHtml | FrameSql string | FrameXlsx xlsx_sheet

record export_writer =
  ew_out :: bytes
  ew_framing :: framing
  ew_names :: "string list"
  ew_written :: nat

datatype export_shortfall = RowLimit | SkippedKeys nat | UnmappedFields nat

record export_outcome =
  eo_rows :: nat
  eo_shortfall :: "export_shortfall option"

definition HTML_STYLE :: string where
  \<open>HTML_STYLE =
     ''<style>'' @ '':root{color-scheme:light dark}'' @ ''*{box-sizing:border-box}'' @
     ''body{margin:0;font:14px/1.5 -apple-system,BlinkMacSystemFont,'' @ [CHR 0x27] @ ''Segoe UI'' @ [CHR 0x27] @ '',Roboto,sans-serif;'' @
     ''background:#fff;color:#1a1a1a}'' @ ''main{max-width:1200px;margin:0 auto;padding:32px 24px}'' @
     ''h1{font-size:20px;font-weight:600;margin:0 0 16px}'' @ ''.meta{margin:12px 2px;color:#6b7280;font-size:12px}'' @
     ''.table-wrap{overflow:auto;border:1px solid #e5e7eb;border-radius:8px}'' @
     ''table{border-collapse:collapse;width:100%;font-variant-numeric:tabular-nums}'' @
     ''th,td{padding:7px 12px;text-align:left;border-bottom:1px solid #eceef1;'' @
     ''white-space:nowrap;max-width:480px;overflow:hidden;text-overflow:ellipsis}'' @
     ''th{position:sticky;top:0;background:#f6f7f9;font-weight:600;border-bottom:1px solid #e5e7eb}'' @
     ''tbody tr:nth-child(even){background:#fafbfc}'' @ ''tbody tr:hover{background:#f0f4ff}'' @
     ''.null{color:#9aa3af;font-style:italic}'' @ ''@media(prefers-color-scheme:dark){'' @
     ''body{background:#0f1115;color:#e6e6e6}'' @ ''.meta{color:#8b93a1}.table-wrap{border-color:#262a31}'' @
     ''th,td{border-bottom-color:#1c2128}'' @ ''th{background:#161a20;border-bottom-color:#262a31}'' @
     ''tbody tr:nth-child(even){background:#13161b}'' @ ''tbody tr:hover{background:#1b2130}.null{color:#6b7280}}'' @ ''</style>''\<close>

definition DEFAULT_REPORT_TITLE :: string where
  "DEFAULT_REPORT_TITLE = ''RED '' @ [CHR 0xE2, CHR 0x80, CHR 0x94] @ '' query report''"

definition html_head :: "string option \<Rightarrow> string" where
  \<open>html_head title =
     (let t = html_escape (case map_option trim title of
           Some t \<Rightarrow> if t \<noteq> [] then t else DEFAULT_REPORT_TITLE | None \<Rightarrow> DEFAULT_REPORT_TITLE)
      in ''<!doctype html><html lang="en"><head><meta charset="utf-8">'' @
         ''<meta name="viewport" content="width=device-width, initial-scale=1">'' @
         ''<title>'' @ t @ ''</title>'' @ HTML_STYLE @ ''</head><body><main><h1>'' @ t @ ''</h1>'' @
         ''<div class="table-wrap"><table>'')\<close>

definition html_thead :: "string list \<Rightarrow> string" where
  "html_thead names =
     ''<thead><tr>'' @ concat (map (\<lambda>name. ''<th>'' @ html_escape name @ ''</th>'') names) @
     ''</tr></thead><tbody>'' @ [CHR 0x0A]"

definition html_foot :: "nat \<Rightarrow> string" where
  \<open>html_foot rows =
     ''</tbody></table><p class="meta">'' @ show_nat rows @ '' row'' @ (if rows = 1 then [] else ''s'') @
     ''</p></main></body></html>'' @ [CHR 0x0A]\<close>

definition trim_underscores :: "string \<Rightarrow> string" where
  "trim_underscores s = rev (dropWhile (\<lambda>c. c = CHR ''_'') (rev (dropWhile (\<lambda>c. c = CHR ''_'') s)))"

text \<open>One underscore for each character that is not an ASCII letter or digit.\<close>

definition sql_table_name :: "string \<Rightarrow> string" where
  "sql_table_name stem =
     (let sanitized = concat (map (\<lambda>c. case c of [b] \<Rightarrow> if is_ascii_alphanumeric b then c else ''_'' | _ \<Rightarrow> ''_'') (utf8_chars stem));
          trimmed = trim_underscores sanitized
      in if trimmed = [] \<or> is_ascii_digit (hd trimmed) then ''exported_table'' else trimmed)"

definition export_begin :: "(fp \<Rightarrow> string) \<Rightarrow> export_format \<Rightarrow> string list \<Rightarrow> string \<Rightarrow> string + export_writer" where
  "export_begin show_real fmt names stem =
     (let writer = (\<lambda>out framing. \<lparr>ew_out = out, ew_framing = framing, ew_names = names, ew_written = 0\<rparr>) in
      case fmt of
        FmtCsv \<Rightarrow> Inr (writer (csv_record names @ [CHR 0x0A]) FrameCsv)
      | FmtJson \<Rightarrow> Inr (writer ''['' FrameJson)
      | FmtHtml \<Rightarrow> Inr (writer (html_head None @ html_thead names) FrameHtml)
      | FmtSql \<Rightarrow> Inr (writer [] (FrameSql (sql_table_name stem)))
      | FmtXlsx \<Rightarrow> (case sheet_begin show_real stem names of Inl e \<Rightarrow> Inl e | Inr sh \<Rightarrow> Inr (writer [] (FrameXlsx sh))))"

definition export_write_row :: "(fp \<Rightarrow> string) \<Rightarrow> db_value list \<Rightarrow> export_writer \<Rightarrow> export_writer" where
  "export_write_row show_real cells w =
     (let wrote = (\<lambda>s. w\<lparr>ew_out := ew_out w @ s, ew_written := ew_written w + 1\<rparr>) in
      case ew_framing w of
        FrameCsv \<Rightarrow> wrote (csv_record (map (csv_cell show_real) cells) @ [CHR 0x0A])
      | FrameJson \<Rightarrow> wrote ((if 0 < ew_written w then '','' else []) @ json_object show_real (ew_names w) cells)
      | FrameHtml \<Rightarrow> wrote (''<tr>'' @ concat (map (\<lambda>v. ''<td>'' @ html_cell show_real v @ ''</td>'') cells) @ ''</tr>'' @ [CHR 0x0A])
      | FrameSql table \<Rightarrow> wrote (insert_line show_real table (ew_names w) cells)
      | FrameXlsx sh \<Rightarrow>
          (let sh1 = sheet_write_row show_real cells sh; w1 = w\<lparr>ew_framing := FrameXlsx sh1\<rparr>
           in if xs_full sh1 then w1 else w1\<lparr>ew_written := ew_written w + 1\<rparr>))"

definition export_finish :: "export_writer \<Rightarrow> string + (bytes \<times> export_outcome)" where
  "export_finish w =
     (let done = (\<lambda>s shortfall. (ew_out w @ s, \<lparr>eo_rows = ew_written w, eo_shortfall = shortfall\<rparr>)) in
      case ew_framing w of
        FrameJson \<Rightarrow> Inr (done ([CHR 0x0A] @ '']'' @ [CHR 0x0A]) None)
      | FrameHtml \<Rightarrow> Inr (done (html_foot (ew_written w)) None)
      | FrameCsv \<Rightarrow> Inr (done [] None)
      | FrameSql _ \<Rightarrow> Inr (done [] None)
      | FrameXlsx sh \<Rightarrow>
          (case sheet_finish sh of
             Inl e \<Rightarrow> Inl e
           | Inr archive \<Rightarrow> Inr (done archive (if xs_full sh then Some RowLimit else None))))"

text \<open>An export of a whole result.\<close>

definition export_rows ::
  "(fp \<Rightarrow> string) \<Rightarrow> export_format \<Rightarrow> string list \<Rightarrow> string \<Rightarrow> db_value list list \<Rightarrow> string + (bytes \<times> export_outcome)" where
  "export_rows show_real fmt names stem rows =
     and_then (export_begin show_real fmt names stem) (\<lambda>w. export_finish (fold (export_write_row show_real) rows w))"

section \<open>What is written\<close>

lemma export_text_rows:
  assumes "\<And>sh. ew_framing w \<noteq> FrameXlsx sh"
  shows "ew_written (fold (export_write_row show_real) rows w) = ew_written w + length rows \<and>
    ew_framing (fold (export_write_row show_real) rows w) = ew_framing w \<and>
    ew_names (fold (export_write_row show_real) rows w) = ew_names w"
  using assms
proof (induction rows arbitrary: w)
  case (Cons cells rows)
  have "ew_framing (export_write_row show_real cells w) = ew_framing w" "ew_names (export_write_row show_real cells w) = ew_names w"
    "ew_written (export_write_row show_real cells w) = ew_written w + 1"
    using Cons.prems by (auto simp: export_write_row_def Let_def split: framing.splits)
  with Cons.IH [of "export_write_row show_real cells w"] Cons.prems show ?case by simp
qed simp

lemma export_csv_out:
  "ew_framing w = FrameCsv \<Longrightarrow> ew_out (fold (export_write_row show_real) rows w) =
     ew_out w @ concat (map (\<lambda>cells. csv_record (map (csv_cell show_real) cells) @ [CHR 0x0A]) rows)"
  by (induction rows arbitrary: w) (simp_all add: export_write_row_def Let_def)

lemma export_xlsx_rows:
  "ew_framing w = FrameXlsx sh \<Longrightarrow> sheet_ok sh \<Longrightarrow>
    ew_framing (fold (export_write_row show_real) rows w) = FrameXlsx (fold (sheet_write_row show_real) rows sh) \<and>
    ew_out (fold (export_write_row show_real) rows w) = ew_out w \<and>
    ew_written (fold (export_write_row show_real) rows w) = ew_written w + min (length rows) (XLSX_MAX_ROWS - 1 - xs_rows sh)"
proof (induction rows arbitrary: w sh)
  case (Cons cells rows)
  let ?sh = "sheet_write_row show_real cells sh" and ?w = "export_write_row show_real cells w"
  have ok: "sheet_ok ?sh" using Cons.prems(2) by (rule sheet_write_row_ok)
  have w: "ew_framing ?w = FrameXlsx ?sh" "ew_out ?w = ew_out w" "ew_written ?w = ew_written w + (if xs_full ?sh then 0 else 1)"
    using Cons.prems(1) by (auto simp: export_write_row_def Let_def)
  have "xs_rows ?sh = (if xs_full sh then xs_rows sh else xs_rows sh + 1)" by (simp add: sheet_write_row_def Let_def)
  then have "(if xs_full ?sh then 0 else 1) + min (length rows) (XLSX_MAX_ROWS - 1 - xs_rows ?sh)
      = min (Suc (length rows)) (XLSX_MAX_ROWS - 1 - xs_rows sh)"
    using Cons.prems(2) ok by (auto simp: sheet_ok_def)
  with Cons.IH [OF w(1) ok] w show ?case by simp
qed simp

lemma export_xlsx_outcome:
  assumes "export_rows show_real FmtXlsx names stem rows = Inr (b, outcome)"
  shows "\<exists>sh. sheet_begin show_real stem names = Inr sh \<and> sheet_finish (fold (sheet_write_row show_real) rows sh) = Inr b \<and>
    eo_rows outcome = min (length rows) (XLSX_MAX_ROWS - 2) \<and>
    eo_shortfall outcome = (if XLSX_MAX_ROWS - 1 \<le> length rows then Some RowLimit else None)"
proof -
  from assms obtain sh where sh: "sheet_begin show_real stem names = Inr sh"
    by (auto simp: export_rows_def export_begin_def and_then_Inr split: sum.splits)
  let ?w = "\<lparr>ew_out = [], ew_framing = FrameXlsx sh, ew_names = names, ew_written = 0\<rparr>"
  let ?sh = "fold (sheet_write_row show_real) rows sh"
  have ok: "sheet_ok sh" using sh by (rule sheet_begin_ok)
  have one: "xs_rows sh = 1" using sh by (auto simp: sheet_begin_def sheet_write_row_def sheet_push_def Let_def split: if_splits)
  have fold: "ew_framing (fold (export_write_row show_real) rows ?w) = FrameXlsx ?sh" "ew_out (fold (export_write_row show_real) rows ?w) = []"
    "ew_written (fold (export_write_row show_real) rows ?w) = min (length rows) (XLSX_MAX_ROWS - 2)"
    using export_xlsx_rows [of ?w sh show_real rows] ok one by simp_all
  have "export_finish (fold (export_write_row show_real) rows ?w) = Inr (b, outcome)"
    using assms sh by (simp add: export_rows_def export_begin_def and_then_def)
  then have out: "sheet_finish ?sh = Inr b" "outcome = \<lparr>eo_rows = min (length rows) (XLSX_MAX_ROWS - 2), eo_shortfall = (if xs_full ?sh then Some RowLimit else None)\<rparr>"
    using fold by (auto simp: export_finish_def Let_def split: sum.splits)
  have "xs_full ?sh \<longleftrightarrow> XLSX_MAX_ROWS - 1 \<le> length rows"
    using sheet_rows_ok [OF ok] sheet_rows_spool [OF ok, of show_real rows] one
    by (auto simp: sheet_ok_def XLSX_MAX_ROWS_def)
  with sh out show ?thesis by simp
qed

text \<open>
  An export reports what it wrote: for every format, a finished export counts all the rows and no shortfall;
  for a workbook this needs fewer than 1,048,575 data rows, and its archive then holds them all.
\<close>

theorem export_counts_rows:
  assumes "export_rows show_real fmt names stem rows = Inr (b, outcome)" and "fmt = FmtXlsx \<longrightarrow> length rows < 1048575"
  shows "outcome = \<lparr>eo_rows = length rows, eo_shortfall = None\<rparr> \<and>
    (fmt = FmtXlsx \<longrightarrow> (\<exists>parts. unzip b = Some (parts @ [(''xl/worksheets/sheet1.xml'',
       XML_DECL @ SHEET_OPEN @ rows_xml show_real 1 (map Text names # rows) @ ''</sheetData></worksheet>'')])))"
proof (cases "fmt = FmtXlsx")
  case True
  then obtain sh where sh: "sheet_begin show_real stem names = Inr sh" "sheet_finish (fold (sheet_write_row show_real) rows sh) = Inr b"
    and out: "eo_rows outcome = min (length rows) (XLSX_MAX_ROWS - 2)"
      "eo_shortfall outcome = (if XLSX_MAX_ROWS - 1 \<le> length rows then Some RowLimit else None)"
    using export_xlsx_outcome assms(1) by blast
  obtain z where "zip_holds (workbook_parts show_real stem names rows) z" "zip_finish z = Inr b"
    using sheet_finish_parts [OF sh] by blast
  then have "unzip b = Some (workbook_parts show_real stem names rows)" by (rule unzip_finish)
  moreover have "take XLSX_MAX_ROWS (map Text names # rows) = map Text names # rows"
    using assms(2) True by (simp add: XLSX_MAX_ROWS_def)
  ultimately show ?thesis
    using out assms(2) True by (cases outcome) (auto simp: workbook_parts_def sheet_xml_def XLSX_MAX_ROWS_def)
next
  case False
  then obtain w where w: "export_begin show_real fmt names stem = Inr w" "ew_written w = 0" "\<And>sh. ew_framing w \<noteq> FrameXlsx sh"
    and fin: "export_finish (fold (export_write_row show_real) rows w) = Inr (b, outcome)"
    using assms(1) by (cases fmt) (auto simp: export_rows_def export_begin_def and_then_Inr Let_def)
  with export_text_rows [OF w(3), of show_real rows] False show ?thesis
    by (auto simp: export_finish_def Let_def split: framing.splits)
qed

theorem export_counts_rows_witness:
  "\<exists>b. export_rows (\<lambda>_. []) FmtSql [''a''] ''t'' [[Integer 1], [Null]] = Inr (b, \<lparr>eo_rows = 2, eo_shortfall = None\<rparr>)"
proof -
  obtain b outcome where e: "export_rows (\<lambda>_. []) FmtSql [''a''] ''t'' [[Integer 1], [Null]] = Inr (b, outcome)"
    by (simp add: export_rows_def export_begin_def and_then_def export_finish_def export_write_row_def Let_def)
  from export_counts_rows [OF e] have "outcome = \<lparr>eo_rows = 2, eo_shortfall = None\<rparr>" by simp
  with e show ?thesis by blast
qed

text \<open>
  A result of exactly 1,048,575 rows fits beside the header, and the sheet holds every row of it; the outcome still
  reports a row too few and a shortfall.
\<close>

theorem full_sheet_is_misreported:
  assumes "export_rows show_real FmtXlsx names stem rows = Inr (b, outcome)" and "length rows = 1048575"
  shows "eo_rows outcome = 1048574 \<and> eo_shortfall outcome = Some RowLimit \<and>
    take XLSX_MAX_ROWS (map Text names # rows) = map Text names # rows"
  using export_xlsx_outcome [OF assms(1)] assms(2) by (auto simp: XLSX_MAX_ROWS_def)

end
