(* ===== verification/Row_Import.thy ===== *)
theory Row_Import
  imports File_Export
begin

text \<open>
  Data import: the streaming readers of \<^verbatim>\<open>crates/red-driver/src/import.rs\<close> for CSV, JSON lines and JSON arrays, and
  the import job of \<^verbatim>\<open>crates/red-service/src/dispatch/jobs.rs\<close>. A source is its bytes. \<^verbatim>\<open>serde_json\<close> and the
  driver's \<^verbatim>\<open>insert_rows\<close> are arguments; \<open>cancel\<close> says at which round of the loop the flag is seen set.
\<close>

section \<open>Errors\<close>

datatype red_error =
    Connect string | Auth string | SshHostUnknown string nat string string | QueryError string
  | NamespaceRequired string | DriverError string | Interrupted | Timeout

fun red_error_text :: "red_error \<Rightarrow> string" where
  "red_error_text (Connect m) = ''connection failed: '' @ m"
| "red_error_text (Auth m) = ''authentication failed: '' @ m"
| "red_error_text (SshHostUnknown host _ _ _) = ''unknown SSH host key for '' @ host"
| "red_error_text (QueryError m) = ''query failed: '' @ m"
| "red_error_text (NamespaceRequired label) = ''no '' @ label @ '' selected for this query''"
| "red_error_text (DriverError m) = ''driver error: '' @ m"
| "red_error_text Interrupted = ''query cancelled''"
| "red_error_text Timeout = ''query timed out''"

section \<open>Lines\<close>

abbreviation LF :: char where "LF \<equiv> CHR 0x0A"

text \<open>\<^verbatim>\<open>BufRead::read_line\<close>: up to and including a line feed; nothing at the end of the source.\<close>

definition read_line :: "bytes \<Rightarrow> string + (string \<times> bytes)" where
  "read_line b =
     (let head = takeWhile (\<lambda>c. c \<noteq> CHR 0x0A) b; rest = dropWhile (\<lambda>c. c \<noteq> CHR 0x0A) b;
          line = head @ take 1 rest
      in if valid_utf8 line then Inr (line, drop 1 rest) else Inl ''stream did not contain valid UTF-8'')"

definition trim_line_end :: "string \<Rightarrow> string" where
  "trim_line_end s = rev (dropWhile (\<lambda>c. c = CHR 0x0D \<or> c = CHR 0x0A) (rev s))"

lemma read_line_length: "read_line b = Inr (line, rest) \<Longrightarrow> length b = length line + length rest"
  using arg_cong [OF takeWhile_dropWhile_id [of "\<lambda>c. c \<noteq> CHR 0x0A" b], of length]
  by (cases "dropWhile (\<lambda>c. c \<noteq> CHR 0x0A) b") (auto simp: read_line_def Let_def split: if_splits)

section \<open>CSV\<close>

record csv_reader =
  csv_rest :: bytes
  csv_done :: bool

text \<open>Lines are joined while a quote is open; the flag says that the source ended.\<close>

function csv_lines :: "string \<Rightarrow> bytes \<Rightarrow> string + (string option \<times> csv_reader)" where
  "csv_lines buf b =
     (case read_line b of
        Inl e \<Rightarrow> Inl e
      | Inr (line, rest) \<Rightarrow>
          if line = [] then Inr (if buf = [] then None else Some buf, \<lparr>csv_rest = rest, csv_done = True\<rparr>)
          else if even (count_list (buf @ line) CHR 0x22) then Inr (Some (buf @ line), \<lparr>csv_rest = rest, csv_done = False\<rparr>)
          else csv_lines (buf @ line) rest)"
  by pat_completeness auto
termination
  by (relation "measure (length \<circ> snd)") (auto dest!: read_line_length)

declare csv_lines.simps [simp del]

fun csv_scan :: "string \<Rightarrow> bool \<Rightarrow> string \<Rightarrow> string list" where
  "csv_scan [] in_quotes field = [field]"
| "csv_scan (c # s) in_quotes field =
     (if in_quotes then
        (if c = CHR 0x22 then
           (case s of d # s1 \<Rightarrow> if d = CHR 0x22 then csv_scan s1 True (field @ [CHR 0x22]) else csv_scan s False field
            | [] \<Rightarrow> csv_scan s False field)
         else csv_scan s True (field @ [c]))
      else if c = CHR 0x22 then csv_scan s True field
      else if c = CHR '','' then field # csv_scan s False []
      else csv_scan s False (field @ [c]))"

definition parse_csv_record :: "string \<Rightarrow> string list" where
  "parse_csv_record s = csv_scan s False []"

definition next_record :: "csv_reader \<Rightarrow> string + (string list option \<times> csv_reader)" where
  "next_record r =
     (if csv_done r then Inr (None, r)
      else (case csv_lines [] (csv_rest r) of
          Inl e \<Rightarrow> Inl e
        | Inr (None, r1) \<Rightarrow> Inr (None, r1)
        | Inr (Some buf, r1) \<Rightarrow> Inr (Some (parse_csv_record (trim_line_end buf)), r1)))"

section \<open>JSON\<close>

text \<open>What the readers use of \<^verbatim>\<open>serde_json\<close>: the parser, the entries of an object and the text of a value.\<close>

record 'j serde =
  sj_from_str :: "string \<Rightarrow> string + 'j"
  sj_entries :: "'j \<Rightarrow> (string \<times> 'j) list option"
  sj_is_null :: "'j \<Rightarrow> bool"
  sj_as_str :: "'j \<Rightarrow> string option"
  sj_to_string :: "'j \<Rightarrow> string"

definition parse_json_object :: "'j serde \<Rightarrow> string \<Rightarrow> string + (string \<times> 'j) list" where
  "parse_json_object J line =
     (case sj_from_str J line of
        Inl e \<Rightarrow> Inl e
      | Inr v \<Rightarrow> (case sj_entries J v of Some obj \<Rightarrow> Inr obj | None \<Rightarrow> Inl ''JSONL line is not a JSON object''))"

definition project_json :: "'j serde \<Rightarrow> (string \<times> 'j) list \<Rightarrow> string list \<Rightarrow> string list" where
  "project_json J obj columns =
     map (\<lambda>key. case map_of obj key of
         None \<Rightarrow> []
       | Some v \<Rightarrow> if sj_is_null J v then [] else (case sj_as_str J v of Some s \<Rightarrow> s | None \<Rightarrow> sj_to_string J v)) columns"

function read_nonempty_line :: "bytes \<Rightarrow> string + (string option \<times> bytes)" where
  "read_nonempty_line b =
     (case read_line b of
        Inl e \<Rightarrow> Inl e
      | Inr (line, rest) \<Rightarrow>
          if line = [] then Inr (None, rest)
          else if trim_line_end line \<noteq> [] then Inr (Some (trim_line_end line), rest)
          else read_nonempty_line rest)"
  by pat_completeness auto
termination
  by (relation "measure length") (auto dest!: read_line_length)

declare read_nonempty_line.simps [simp del]

definition skip_ws :: "bytes \<Rightarrow> bytes" where
  "skip_ws b = dropWhile is_ascii_whitespace b"

text \<open>
  The bytes of one value and the rest of the source. Inside a string the scan only watches for its end; the
  depth counts open brackets of either kind.
\<close>

fun str_step :: "bool \<Rightarrow> char \<Rightarrow> bool \<times> bool" where
  \<comment> \<open>inside a string: the next (\<open>in_str\<close>, \<open>escaped\<close>)\<close>
  "str_step escaped b = (if escaped then (True, False) else if b = CHR 0x5C then (True, True) else (b \<noteq> CHR 0x22, False))"

definition push_byte :: "char \<Rightarrow> string + (bytes \<times> bytes) \<Rightarrow> string + (bytes \<times> bytes)" where
  "push_byte b r = map_sum id (apfst ((#) b)) r"

fun json_nested :: "int \<Rightarrow> bool \<Rightarrow> bool \<Rightarrow> bytes \<Rightarrow> string + (bytes \<times> bytes)" where
  "json_nested depth in_str escaped [] = Inl ''unterminated JSON value''"
| "json_nested depth in_str escaped (b # r) =
     (if in_str then push_byte b (case str_step escaped b of (i, e) \<Rightarrow> json_nested depth i e r)
      else if b = CHR 0x22 then push_byte b (json_nested depth True escaped r)
      else if b = CHR ''{'' \<or> b = CHR ''['' then push_byte b (json_nested (depth + 1) False escaped r)
      else if b = CHR ''}'' \<or> b = CHR '']'' then
        (if depth - 1 = 0 then Inr ([b], r) else push_byte b (json_nested (depth - 1) False escaped r))
      else push_byte b (json_nested depth False escaped r))"

fun json_scalar :: "bool \<Rightarrow> bool \<Rightarrow> bytes \<Rightarrow> bytes \<times> bytes" where
  "json_scalar in_str escaped [] = ([], [])"
| "json_scalar in_str escaped (b # r) =
     (if in_str then apfst ((#) b) (case str_step escaped b of (i, e) \<Rightarrow> json_scalar i e r)
      else if b = CHR '','' \<or> b = CHR '']'' \<or> is_ascii_whitespace b then ([], b # r)
      else apfst ((#) b) (json_scalar (b = CHR 0x22) escaped r))"

definition read_json_value_bytes :: "bytes \<Rightarrow> string + (bytes \<times> bytes)" where
  "read_json_value_bytes b =
     (case b of
        [] \<Rightarrow> Inl ''expected a JSON value''
      | first # _ \<Rightarrow> if first = CHR ''{'' \<or> first = CHR ''['' then json_nested 0 False False b else Inr (json_scalar False False b))"

record json_array_reader =
  ja_rest :: bytes
  ja_columns :: "string list"
  ja_pending :: "string list option"
  ja_started :: bool
  ja_first :: bool
  ja_done :: bool

text \<open>The opening bracket, then one element behind its comma.\<close>

definition open_array :: "json_array_reader \<Rightarrow> string + (bool \<times> json_array_reader)" where
  \<comment> \<open>the flag is set when the source is empty\<close>
  "open_array r =
     (if ja_started r then Inr (False, r)
      else (case skip_ws (ja_rest r) of
          [] \<Rightarrow> Inr (True, r\<lparr>ja_rest := [], ja_done := True\<rparr>)
        | b # rest \<Rightarrow>
            if b = CHR ''['' then Inr (False, r\<lparr>ja_rest := rest, ja_started := True\<rparr>)
            else Inl ''expected '[' at the start of a JSON array''))"

definition next_element :: "json_array_reader \<Rightarrow> string + (bytes option \<times> json_array_reader)" where
  "next_element r =
     (let value = (\<lambda>b. map_sum id (\<lambda>(bytes, rest). (Some bytes, r\<lparr>ja_rest := rest, ja_first := False\<rparr>)) (read_json_value_bytes b)) in
      case skip_ws (ja_rest r) of
        [] \<Rightarrow> Inl ''unterminated JSON array''
      | b # rest \<Rightarrow>
          if b = CHR '']'' then Inr (None, r\<lparr>ja_rest := rest, ja_done := True\<rparr>)
          else if b = CHR '','' then
            (if ja_first r then Inl ''unexpected ',' before the first array element'' else value (skip_ws rest))
          else if ja_first r then value (b # rest)
          else Inl ''expected ',' or ']' between array elements'')"

definition next_object :: "'j serde \<Rightarrow> json_array_reader \<Rightarrow> string + ((string \<times> 'j) list option \<times> json_array_reader)" where
  "next_object J r =
     (if ja_done r then Inr (None, r)
      else and_then (open_array r) (\<lambda>(empty, r1).
        if empty then Inr (None, r1)
        else and_then (next_element r1) (\<lambda>(bytes, r2).
          case bytes of
            None \<Rightarrow> Inr (None, r2)
          | Some t \<Rightarrow> if valid_utf8 t then map_sum id (\<lambda>obj. (Some obj, r2)) (parse_json_object J t)
              else Inl ''invalid utf-8 sequence'')))"

text \<open>The text of the error for bytes that are not UTF-8 also names a position.\<close>

section \<open>The reader\<close>

record jsonl_reader =
  jl_rest :: bytes
  jl_columns :: "string list"
  jl_pending :: "string list option"

datatype import_format = ImportCsv | ImportJsonl | ImportJsonArray

datatype import_reader = InnerCsv csv_reader | InnerJsonl jsonl_reader | InnerJsonArray json_array_reader

definition import_begin :: "'j serde \<Rightarrow> bytes \<Rightarrow> import_format \<Rightarrow> string + (string list \<times> import_reader)" where
  "import_begin J source fmt =
     (case fmt of
        ImportCsv \<Rightarrow> map_sum id (\<lambda>(rec, csv). (case rec of Some columns \<Rightarrow> columns | None \<Rightarrow> [], InnerCsv csv))
          (next_record \<lparr>csv_rest = source, csv_done = False\<rparr>)
      | ImportJsonl \<Rightarrow> and_then (read_nonempty_line source) (\<lambda>(line, rest).
          case line of
            None \<Rightarrow> Inr ([], InnerJsonl \<lparr>jl_rest = rest, jl_columns = [], jl_pending = None\<rparr>)
          | Some l \<Rightarrow> and_then (parse_json_object J l) (\<lambda>obj. let columns = map fst obj in
              Inr (columns, InnerJsonl \<lparr>jl_rest = rest, jl_columns = columns, jl_pending = Some (project_json J obj columns)\<rparr>)))
      | ImportJsonArray \<Rightarrow>
          and_then (next_object J \<lparr>ja_rest = source, ja_columns = [], ja_pending = None, ja_started = False, ja_first = True, ja_done = False\<rparr>)
            (\<lambda>(obj, r). case obj of
               None \<Rightarrow> Inr ([], InnerJsonArray r)
             | Some obj \<Rightarrow> let columns = map fst obj in
                 Inr (columns, InnerJsonArray (r\<lparr>ja_pending := Some (project_json J obj columns), ja_columns := columns\<rparr>))))"

definition next_row :: "'j serde \<Rightarrow> import_reader \<Rightarrow> string + (string list option \<times> import_reader)" where
  "next_row J r =
     (case r of
        InnerCsv csv \<Rightarrow> map_sum id (\<lambda>(rec, csv1). (rec, InnerCsv csv1)) (next_record csv)
      | InnerJsonl jl \<Rightarrow>
          (case jl_pending jl of
             Some first \<Rightarrow> Inr (Some first, InnerJsonl (jl\<lparr>jl_pending := None\<rparr>))
           | None \<Rightarrow> and_then (read_nonempty_line (jl_rest jl)) (\<lambda>(line, rest).
               case line of
                 None \<Rightarrow> Inr (None, InnerJsonl (jl\<lparr>jl_rest := rest\<rparr>))
               | Some l \<Rightarrow> map_sum id (\<lambda>obj. (Some (project_json J obj (jl_columns jl)), InnerJsonl (jl\<lparr>jl_rest := rest\<rparr>)))
                   (parse_json_object J l)))
      | InnerJsonArray ja \<Rightarrow>
          (case ja_pending ja of
             Some first \<Rightarrow> Inr (Some first, InnerJsonArray (ja\<lparr>ja_pending := None\<rparr>))
           | None \<Rightarrow> map_sum id (\<lambda>(obj, ja1). (map_option (\<lambda>x. project_json J x (ja_columns ja)) obj, InnerJsonArray ja1))
               (next_object J ja)))"

subsection \<open>Every row consumes input\<close>

fun reader_size :: "import_reader \<Rightarrow> nat" where
  "reader_size (InnerCsv r) = length (csv_rest r)"
| "reader_size (InnerJsonl r) = 2 * length (jl_rest r) + (if jl_pending r = None then 0 else 1)"
| "reader_size (InnerJsonArray r) = 2 * length (ja_rest r) + (if ja_pending r = None then 0 else 1)"

lemma csv_lines_consumes:
  "csv_lines buf b = Inr (Some t, r) \<Longrightarrow> length (csv_rest r) \<le> length b \<and> (buf = [] \<longrightarrow> length (csv_rest r) < length b)"
proof (induction buf b rule: csv_lines.induct)
  case (1 buf b)
  show ?case
  proof (cases "read_line b")
    case (Inr p)
    obtain line rest where p: "p = (line, rest)" by (cases p)
    note len = read_line_length [of b line rest] Inr p
    show ?thesis
    proof (cases "line = [] \<or> even (count_list (buf @ line) CHR 0x22)")
      case True
      with "1.prems" len show ?thesis
        by (subst (asm) csv_lines.simps) (auto split: if_splits)
    next
      case False
      then have "csv_lines (buf @ line) rest = Inr (Some t, r)"
        using "1.prems" Inr p by (subst (asm) csv_lines.simps) simp
      from "1.IH" [OF Inr p [symmetric], OF _ _ this] False len show ?thesis
        by (cases line) auto
    qed
  qed (use "1.prems" in \<open>simp add: csv_lines.simps\<close>)
qed

lemma next_record_consumes: "next_record r = Inr (Some row, r1) \<Longrightarrow> length (csv_rest r1) < length (csv_rest r)"
  by (auto simp: next_record_def split: if_splits sum.splits option.splits dest: csv_lines_consumes)

lemma read_nonempty_line_consumes: "read_nonempty_line b = Inr (Some l, rest) \<Longrightarrow> length rest < length b"
proof (induction b rule: read_nonempty_line.induct)
  case (1 b)
  show ?case
  proof (cases "read_line b")
    case (Inr p)
    obtain line more where p: "p = (line, more)" by (cases p)
    have len: "length b = length line + length more" using read_line_length Inr p by blast
    have "line \<noteq> []" using "1.prems" Inr p by (subst (asm) read_nonempty_line.simps) auto
    show ?thesis
    proof (cases "trim_line_end line = []")
      case True
      then have "read_nonempty_line more = Inr (Some l, rest)"
        using "1.prems" Inr p \<open>line \<noteq> []\<close> by (subst (asm) read_nonempty_line.simps) simp
      from "1.IH" [OF Inr p [symmetric] \<open>line \<noteq> []\<close> _ this] True len show ?thesis by simp
    next
      case False
      then show ?thesis using "1.prems" Inr p \<open>line \<noteq> []\<close> len by (subst (asm) read_nonempty_line.simps) auto
    qed
  qed (use "1.prems" in \<open>simp add: read_nonempty_line.simps\<close>)
qed

lemma push_byte_Inr: "push_byte b x = Inr (t, r) \<longleftrightarrow> (\<exists>t1. x = Inr (t1, r) \<and> t = b # t1)"
  by (cases x) (auto simp: push_byte_def)

lemma json_nested_consumes: "json_nested d i e b = Inr (t, r) \<Longrightarrow> b = t @ r \<and> t \<noteq> []"
proof (induction b arbitrary: d i e t)
  case (Cons c b)
  then have "(\<exists>d1 i1 e1 t1. json_nested d1 i1 e1 b = Inr (t1, r) \<and> t = c # t1) \<or> (t = [c] \<and> r = b)"
    by (auto simp: push_byte_Inr simp del: str_step.simps split: if_splits prod.splits)
  with Cons.IH show ?case by auto
qed simp

lemma json_scalar_consumes: "json_scalar i e b = (t, r) \<Longrightarrow> b = t @ r"
proof (induction b arbitrary: i e t)
  case (Cons c b)
  then have "(\<exists>i1 e1 t1. json_scalar i1 e1 b = (t1, r) \<and> t = c # t1) \<or> (t = [] \<and> r = c # b)"
    by (auto simp: apfst_def map_prod_def simp del: str_step.simps split: if_splits prod.splits)
  with Cons.IH show ?case by auto
qed simp

lemma skip_ws_length: "length (skip_ws b) \<le> length b"
  by (simp add: skip_ws_def length_dropWhile_le)

lemma read_json_value_consumes: "read_json_value_bytes b = Inr (t, r) \<Longrightarrow> b = t @ r"
  by (auto simp: read_json_value_bytes_def simp del: json_nested.simps json_scalar.simps
      split: list.splits if_splits dest: json_nested_consumes json_scalar_consumes)

lemma map_sum_Inr: "map_sum id f x = Inr y \<longleftrightarrow> (\<exists>a. x = Inr a \<and> y = f a)"
  by (cases x) auto

lemma json_scalar_first:
  "b \<noteq> CHR '','' \<Longrightarrow> b \<noteq> CHR '']'' \<Longrightarrow> \<not> is_ascii_whitespace b \<Longrightarrow> json_scalar False False (b # r) = (t, r1) \<Longrightarrow> t \<noteq> []"
  by (auto simp: apfst_def map_prod_def split: prod.splits)

lemma next_element_consumes:
  assumes "next_element r = Inr (Some t, r1)"
  shows "length (ja_rest r1) < length (ja_rest r) \<and> ja_pending r1 = ja_pending r"
proof -
  obtain b rest where ws: "skip_ws (ja_rest r) = b # rest" using assms by (auto simp: next_element_def Let_def split: list.splits)
  have space: "\<not> is_ascii_whitespace b" using ws by (auto simp: skip_ws_def dropWhile_eq_Cons_conv)
  have len: "Suc (length rest) \<le> length (ja_rest r)" using skip_ws_length [of "ja_rest r"] ws by simp
  consider (comma) u where "read_json_value_bytes (skip_ws rest) = Inr (t, u)" "r1 = r\<lparr>ja_rest := u, ja_first := False\<rparr>"
    | (first) u where "b \<noteq> CHR '','' " "b \<noteq> CHR '']''" "read_json_value_bytes (b # rest) = Inr (t, u)" "r1 = r\<lparr>ja_rest := u, ja_first := False\<rparr>"
    using assms ws by (auto simp: next_element_def Let_def map_sum_Inr split: if_splits)
  then show ?thesis
  proof cases
    case comma
    from read_json_value_consumes [OF comma(1)] have "length u \<le> length rest"
      using skip_ws_length [of rest] by (metis add_leD2 dual_order.trans length_append)
    with comma len show ?thesis by simp
  next
    case first
    then have "t \<noteq> []"
      using space json_nested_consumes [of 0 False False "b # rest"] json_scalar_first [of b rest t u]
      by (auto simp: read_json_value_bytes_def simp del: json_nested.simps json_scalar.simps split: if_splits)
    with read_json_value_consumes [OF first(3)] have "length u \<le> length rest" by (cases t) auto
    with first len show ?thesis by simp
  qed
qed

lemma next_object_consumes:
  assumes "next_object J r = Inr (Some obj, r1)"
  shows "length (ja_rest r1) < length (ja_rest r) \<and> ja_pending r1 = ja_pending r"
proof -
  from assms obtain r0 t where "open_array r = Inr (False, r0)" "next_element r0 = Inr (Some t, r1)"
    by (auto simp: next_object_def and_then_Inr map_sum_Inr split: if_splits option.splits)
  moreover from this(1) have "length (ja_rest r0) \<le> length (ja_rest r) \<and> ja_pending r0 = ja_pending r"
    using skip_ws_length [of "ja_rest r"] by (auto simp: open_array_def split: if_splits list.splits)
  ultimately show ?thesis using next_element_consumes by fastforce
qed

lemma next_row_consumes: "next_row J r = Inr (Some row, r1) \<Longrightarrow> reader_size r1 < reader_size r"
proof (cases r)
  case (InnerCsv csv)
  assume "next_row J r = Inr (Some row, r1)"
  then show ?thesis using InnerCsv by (auto simp: next_row_def map_sum_Inr dest: next_record_consumes)
next
  case (InnerJsonl jl)
  assume "next_row J r = Inr (Some row, r1)"
  then show ?thesis
    using InnerJsonl
    by (auto simp: next_row_def and_then_Inr map_sum_Inr split: option.splits dest!: read_nonempty_line_consumes)
next
  case (InnerJsonArray ja)
  assume row: "next_row J r = Inr (Some row, r1)"
  show ?thesis
  proof (cases "ja_pending ja")
    case None
    with row InnerJsonArray obtain obj ja1 where "next_object J ja = Inr (Some obj, ja1)" "r1 = InnerJsonArray ja1"
      by (auto simp: next_row_def map_sum_Inr map_option_case split: option.splits)
    with next_object_consumes [of J ja obj ja1] None InnerJsonArray show ?thesis by simp
  qed (use row InnerJsonArray in \<open>auto simp: next_row_def\<close>)
qed

section \<open>The import job\<close>

record column_map =
  mp_source :: nat
  mp_column :: string
  mp_decl :: "string option"

fun coerce_cells :: "column_map list \<Rightarrow> string list \<Rightarrow> string + db_value list" where
  "coerce_cells [] cells = Inr []"
| "coerce_cells (m # ms) cells =
     and_then (coerce_edit_value (if mp_source m < length cells then cells ! mp_source m else []) (mp_decl m))
       (\<lambda>v. map_sum id ((#) v) (coerce_cells ms cells))"

text \<open>
  The state of the target is of a type \<open>'db\<close>; \<open>ins\<close> is the driver's \<^verbatim>\<open>insert_rows\<close> on the mapped columns.
  \<open>flush_chunk\<close> is the macro \<^verbatim>\<open>flush!\<close>: on the left the value the job returns early.
\<close>

type_synonym 'db insert_op = "db_value list list \<Rightarrow> 'db \<Rightarrow> (red_error + nat) \<times> 'db"
type_synonym import_result = "nat \<times> red_error option"

definition flush_chunk :: "'db insert_op \<Rightarrow> db_value list list \<Rightarrow> nat \<Rightarrow> 'db \<Rightarrow> (import_result + nat) \<times> 'db" where
  "flush_chunk ins chunk committed db =
     (if chunk = [] then (Inr committed, db)
      else (case ins chunk db of
          (Inr n, db1) \<Rightarrow> (Inr (committed + n), db1)
        | (Inl e, db1) \<Rightarrow> (Inl (committed, Some e), db1)))"

definition row_error :: "nat \<Rightarrow> string \<Rightarrow> red_error" where
  "row_error row_no reason = QueryError (''row '' @ show_nat row_no @ '': '' @ reason)"

function import_loop ::
  "'j serde \<Rightarrow> 'db insert_op \<Rightarrow> column_map list \<Rightarrow> nat \<Rightarrow> (nat \<Rightarrow> bool) \<Rightarrow> import_reader \<Rightarrow> db_value list list \<Rightarrow> nat \<Rightarrow> nat
     \<Rightarrow> 'db \<Rightarrow> import_result \<times> 'db" where
  "import_loop J ins mapping chunk_size cancel reader chunk committed row_no db =
     (if cancel row_no then ((committed, Some Interrupted), db)
      else (case next_row J reader of
          Inl e \<Rightarrow> ((committed, Some (row_error (row_no + 1) e)), db)
        | Inr (None, _) \<Rightarrow>
            (case flush_chunk ins chunk committed db of (Inl r, db1) \<Rightarrow> (r, db1) | (Inr n, db1) \<Rightarrow> ((n, None), db1))
        | Inr (Some cells, reader1) \<Rightarrow>
            (case coerce_cells mapping cells of
               Inl reason \<Rightarrow> ((committed, Some (row_error (row_no + 1) reason)), db)
             | Inr values \<Rightarrow>
                 if chunk_size \<le> length (chunk @ [values]) then
                   (case flush_chunk ins (chunk @ [values]) committed db of
                      (Inl r, db1) \<Rightarrow> (r, db1)
                    | (Inr n, db1) \<Rightarrow> import_loop J ins mapping chunk_size cancel reader1 [] n (row_no + 1) db1)
                 else import_loop J ins mapping chunk_size cancel reader1 (chunk @ [values]) committed (row_no + 1) db)))"
  by pat_completeness auto
termination
  by (relation "measure (\<lambda>(J, ins, mapping, chunk_size, cancel, reader, chunk, committed, row_no, db). reader_size reader)")
    (auto dest: next_row_consumes)

declare import_loop.simps [simp del]

text \<open>\<open>source\<close> is what opening the file gave: an error message, or the bytes.\<close>

definition run_import_blocking ::
  "'j serde \<Rightarrow> 'db insert_op \<Rightarrow> string \<Rightarrow> string + bytes \<Rightarrow> import_format \<Rightarrow> column_map list \<Rightarrow> nat \<Rightarrow> (nat \<Rightarrow> bool) \<Rightarrow> 'db
     \<Rightarrow> import_result \<times> 'db" where
  "run_import_blocking J ins path source fmt mapping chunk_size cancel db =
     (case source of
        Inl e \<Rightarrow> ((0, Some (DriverError (''cannot open '' @ path @ '': '' @ e))), db)
      | Inr b \<Rightarrow>
          (case import_begin J b fmt of
             Inl e \<Rightarrow> ((0, Some (QueryError (''read error: '' @ e))), db)
           | Inr (_, reader) \<Rightarrow> import_loop J ins mapping (max chunk_size 1) cancel reader [] 0 0 db))"

section \<open>What an import commits\<close>

text \<open>The rows a reader gives before it ends, and those it gives first.\<close>

fun reads :: "'j serde \<Rightarrow> import_reader \<Rightarrow> string list list \<Rightarrow> import_reader \<Rightarrow> bool" where
  "reads J r [] r1 \<longleftrightarrow> r = r1"
| "reads J r (row # rows) r1 \<longleftrightarrow>
     (case next_row J r of Inr (Some row1, r2) \<Rightarrow> row1 = row \<and> reads J r2 rows r1 | _ \<Rightarrow> False)"

definition ended :: "'j serde \<Rightarrow> import_reader \<Rightarrow> bool" where
  "ended J r \<longleftrightarrow> (case next_row J r of Inr (None, _) \<Rightarrow> True | _ \<Rightarrow> False)"

text \<open>
  What the job relies on of \<^verbatim>\<open>insert_rows\<close>: it runs in a transaction, so it adds the whole chunk and reports its
  length, or fails and adds nothing. \<open>contents\<close> is the table as the job's inserts see it.
\<close>

definition transactional :: "'db insert_op \<Rightarrow> ('db \<Rightarrow> db_value list list) \<Rightarrow> bool" where
  "transactional ins contents \<longleftrightarrow>
     (\<forall>chunk db. case ins chunk db of
        (Inr n, db1) \<Rightarrow> n = length chunk \<and> contents db1 = contents db @ chunk
      | (Inl _, db1) \<Rightarrow> contents db1 = contents db)"

lemma flush_chunk_commits:
  assumes "transactional ins contents" "flush_chunk ins chunk committed db = (r, db1)"
  shows "case r of Inr n \<Rightarrow> n = committed + length chunk \<and> contents db1 = contents db @ chunk
    | Inl (n, err) \<Rightarrow> n = committed \<and> err \<noteq> None \<and> contents db1 = contents db"
proof (cases "chunk = []")
  case False
  have "case ins chunk db of (Inr n, db1) \<Rightarrow> n = length chunk \<and> contents db1 = contents db @ chunk
      | (Inl _, db1) \<Rightarrow> contents db1 = contents db"
    using assms(1) unfolding transactional_def by (elim allE [of _ chunk] allE [of _ db])
  with False assms(2) show ?thesis by (auto simp: flush_chunk_def split: prod.splits sum.splits)
qed (use assms(2) in \<open>auto simp: flush_chunk_def\<close>)

definition import_upshot ::
  "'j serde \<Rightarrow> ('db \<Rightarrow> db_value list list) \<Rightarrow> column_map list \<Rightarrow> import_reader \<Rightarrow> db_value list list \<Rightarrow> nat \<Rightarrow> 'db \<Rightarrow> import_result \<times> 'db \<Rightarrow> bool" where
  "import_upshot J contents mapping reader chunk committed db result \<longleftrightarrow>
     (\<exists>rows vals r1 m. reads J reader rows r1 \<and> list_all2 (\<lambda>cells v. coerce_cells mapping cells = Inr v) rows vals \<and>
        m \<le> length (chunk @ vals) \<and> contents (snd result) = contents db @ take m (chunk @ vals) \<and> fst (fst result) = committed + m \<and>
        (snd (fst result) = None \<longrightarrow> ended J r1 \<and> m = length (chunk @ vals)))"

lemma import_upshot_stop:
  "err \<noteq> None \<Longrightarrow> contents db1 = contents db \<Longrightarrow> import_upshot J contents mapping reader chunk committed db ((committed, err), db1)"
  unfolding import_upshot_def by (rule exI [of _ "[]"], rule exI [of _ "[]"], rule exI [of _ reader], rule exI [of _ 0]) auto

lemma import_upshot_row:
  assumes row: "next_row J reader = Inr (Some cells, r1)" "coerce_cells mapping cells = Inr v"
    and "import_upshot J contents mapping r1 (chunk @ [v]) committed db result"
  shows "import_upshot J contents mapping reader chunk committed db result"
proof -
  from assms(3) obtain rows vals r2 m where "reads J r1 rows r2" "list_all2 (\<lambda>cells v. coerce_cells mapping cells = Inr v) rows vals"
    "m \<le> length ((chunk @ [v]) @ vals)" "contents (snd result) = contents db @ take m ((chunk @ [v]) @ vals)" "fst (fst result) = committed + m"
    "snd (fst result) = None \<longrightarrow> ended J r2 \<and> m = length ((chunk @ [v]) @ vals)"
    unfolding import_upshot_def by (elim exE conjE) (rule that)
  with row show ?thesis
    unfolding import_upshot_def by (intro exI [of _ "cells # rows"] exI [of _ "v # vals"] exI [of _ r2] exI [of _ m]) simp
qed

lemma import_upshot_flush:
  assumes "import_upshot J contents mapping reader [] (committed + length chunk) db1 result" "contents db1 = contents db @ chunk"
  shows "import_upshot J contents mapping reader chunk committed db result"
proof -
  from assms(1) obtain rows vals r2 m where "reads J reader rows r2" "list_all2 (\<lambda>cells v. coerce_cells mapping cells = Inr v) rows vals"
    "m \<le> length vals" "contents (snd result) = contents db1 @ take m vals" "fst (fst result) = committed + length chunk + m"
    "snd (fst result) = None \<longrightarrow> ended J r2 \<and> m = length vals"
    unfolding import_upshot_def by auto
  with assms(2) show ?thesis
    unfolding import_upshot_def by (intro exI [of _ rows] exI [of _ vals] exI [of _ r2] exI [of _ "length chunk + m"]) simp
qed

lemma import_loop_upshot:
  assumes "transactional ins contents"
  shows "import_upshot J contents mapping reader chunk committed db
    (import_loop J ins mapping chunk_size cancel reader chunk committed row_no db)"
  using assms
proof (induction J ins mapping chunk_size cancel reader chunk committed row_no db rule: import_loop.induct)
  case (1 J ins mapping chunk_size cancel reader chunk committed row_no db)
  let ?loop = "import_loop J ins mapping chunk_size cancel reader chunk committed row_no db"
  show ?case
  proof (cases "cancel row_no")
    case True
    then show ?thesis by (simp add: import_loop.simps import_upshot_stop)
  next
    case False
    then consider (err) e where "next_row J reader = Inl e" | (last) r1 where "next_row J reader = Inr (None, r1)"
      | (row) cells r1 where "next_row J reader = Inr (Some cells, r1)"
    proof (cases "next_row J reader")
      case (Inr p)
      then show ?thesis using that by (cases p, cases "fst p") auto
    qed auto
    then show ?thesis
    proof cases
      case err
      then show ?thesis using False by (simp add: import_loop.simps import_upshot_stop)
    next
      case last
      obtain r db1 where fl: "flush_chunk ins chunk committed db = (r, db1)" by (cases "flush_chunk ins chunk committed db")
      note commits = flush_chunk_commits [OF "1.prems" fl]
      show ?thesis
      proof (cases r)
        case (Inl p)
        then show ?thesis
          using False last fl commits by (cases p) (simp add: import_loop.simps import_upshot_stop)
      next
        case (Inr n)
        then have "?loop = ((n, None), db1)" using False last fl by (simp add: import_loop.simps)
        moreover have "import_upshot J contents mapping reader [] (committed + length chunk) db1 ((n, None), db1)"
          unfolding import_upshot_def
          by (rule exI [of _ "[]"], rule exI [of _ "[]"], rule exI [of _ reader], rule exI [of _ 0])
            (use commits Inr last in \<open>simp add: ended_def\<close>)
        ultimately show ?thesis using import_upshot_flush commits Inr by fastforce
      qed
    next
      case row
      show ?thesis
      proof (cases "coerce_cells mapping cells")
        case (Inl reason)
        then show ?thesis using False row by (simp add: import_loop.simps import_upshot_stop)
      next
        case (Inr v)
        show ?thesis
        proof (rule import_upshot_row [OF row Inr], cases "chunk_size \<le> length (chunk @ [v])")
          case False
          then show "import_upshot J contents mapping r1 (chunk @ [v]) committed db ?loop"
            using "1.IH"(2) [OF \<open>\<not> cancel row_no\<close> row refl refl Inr False "1.prems"] \<open>\<not> cancel row_no\<close> row Inr
            by (simp add: import_loop.simps [of J ins mapping chunk_size cancel reader chunk committed row_no db])
        next
          case True
          obtain r db1 where fl: "flush_chunk ins (chunk @ [v]) committed db = (r, db1)" by (cases "flush_chunk ins (chunk @ [v]) committed db")
          note commits = flush_chunk_commits [OF "1.prems" fl]
          show "import_upshot J contents mapping r1 (chunk @ [v]) committed db ?loop"
          proof (cases r)
            case (Inl p)
            then show ?thesis
              using True \<open>\<not> cancel row_no\<close> row \<open>coerce_cells mapping cells = Inr v\<close> fl commits
              by (cases p) (simp add: import_loop.simps import_upshot_stop)
          next
            case (Inr n)
            then have "?loop = import_loop J ins mapping chunk_size cancel r1 [] n (row_no + 1) db1"
              using True \<open>\<not> cancel row_no\<close> row \<open>coerce_cells mapping cells = Inr v\<close> fl
              by (simp add: import_loop.simps [of J ins mapping chunk_size cancel reader chunk committed row_no db])
            moreover have "import_upshot J contents mapping r1 [] n db1 (import_loop J ins mapping chunk_size cancel r1 [] n (row_no + 1) db1)"
              using "1.IH"(1) [OF \<open>\<not> cancel row_no\<close> row refl refl \<open>coerce_cells mapping cells = Inr v\<close> True fl [symmetric] Inr "1.prems"] .
            ultimately show ?thesis using import_upshot_flush [of J contents mapping r1 committed "chunk @ [v]" db1] commits Inr by simp
          qed
        qed
      qed
    qed
  qed
qed

text \<open>
  C31. The count an import reports is what it committed: whatever ends it (the source, a cancel, a bad cell, a
  refused chunk), the target gained exactly the first \<open>n\<close> rows of the source, coerced and in order, and an
  import without an error read the source to its end and committed all of it.
\<close>

theorem import_commits_prefix:
  assumes "transactional ins contents" and "import_begin J source fmt = Inr (columns, reader)"
    and "run_import_blocking J ins path (Inr source) fmt mapping chunk_size cancel db = ((n, err), db1)"
  shows "\<exists>rows vals r1. reads J reader rows r1 \<and> list_all2 (\<lambda>cells v. coerce_cells mapping cells = Inr v) rows vals \<and>
    n \<le> length vals \<and> contents db1 = contents db @ take n vals \<and> (err = None \<longrightarrow> ended J r1 \<and> n = length vals)"
proof -
  have "import_loop J ins mapping (max chunk_size 1) cancel reader [] 0 0 db = ((n, err), db1)"
    using assms(2,3) by (simp add: run_import_blocking_def)
  with import_loop_upshot [OF assms(1), of J mapping reader "[]" 0 db "max chunk_size 1" cancel 0] show ?thesis
    by (auto simp: import_upshot_def)
qed

text \<open>An in-memory table and a parser that refuses everything, for the witnesses.\<close>

definition append_rows :: "db_value list list insert_op" where
  "append_rows chunk db = (Inr (length chunk), db @ chunk)"

definition no_json :: "unit serde" where
  "no_json = \<lparr>sj_from_str = (\<lambda>_. Inl ''no JSON''), sj_entries = (\<lambda>_. None), sj_is_null = (\<lambda>_. True), sj_as_str = (\<lambda>_. None), sj_to_string = (\<lambda>_. [])\<rparr>"

lemma append_rows_transactional: "transactional append_rows id"
  by (simp add: transactional_def append_rows_def)

theorem import_commits_prefix_witness:
  "let source = ''id,n'' @ [LF] @ ''7,x'' @ [LF] @ ''z,y'' @ [LF]; reader = InnerCsv \<lparr>csv_rest = ''7,x'' @ [LF] @ ''z,y'' @ [LF], csv_done = False\<rparr>;
     mapping = [\<lparr>mp_source = 0, mp_column = ''id'', mp_decl = Some ''int''\<rparr>]
   in \<exists>rows vals r1 err. run_import_blocking no_json append_rows ''f'' (Inr source) ImportCsv mapping 1 (\<lambda>_. False) [] = ((1, Some err), [[Integer 7]])
     \<and> reads no_json reader rows r1 \<and> list_all2 (\<lambda>cells v. coerce_cells mapping cells = Inr v) rows vals \<and> [[Integer 7]] = take 1 vals"
proof -
  let ?source = "''id,n'' @ [LF] @ ''7,x'' @ [LF] @ ''z,y'' @ [LF]"
  let ?mapping = "[\<lparr>mp_source = 0, mp_column = ''id'', mp_decl = Some ''int''\<rparr>]"
  have run: "run_import_blocking no_json append_rows ''f'' (Inr ?source) ImportCsv ?mapping 1 (\<lambda>_. False) [] =
      ((1, Some (row_error 2 (not_valid ''z'' ''integer''))), [[Integer 7]])" by code_simp
  have "import_begin no_json ?source ImportCsv = Inr ([''id'', ''n''], InnerCsv \<lparr>csv_rest = ''7,x'' @ [LF] @ ''z,y'' @ [LF], csv_done = False\<rparr>)"
    by code_simp
  from import_commits_prefix [OF append_rows_transactional this run] run show ?thesis unfolding Let_def by auto
qed

end
