(* ===== verification/Export_Import.thy ===== *)
theory Export_Import
  imports Row_Import
begin

text \<open>
  Export and import together: what the writers of \<^verbatim>\<open>format.rs\<close> put into a CSV or JSON file, the readers of
  \<^verbatim>\<open>import.rs\<close> take out of it, and the import job commits to the target.
\<close>

section \<open>CSV reads back\<close>

definition quoted :: "string \<Rightarrow> string" where
  "quoted f = concat (map (\<lambda>c. if c = CHR 0x22 then [CHR 0x22, CHR 0x22] else [c]) f)"

lemma csv_escape_quoted: "csv_escape f = (if csv_needs_quotes f then [CHR 0x22] @ quoted f @ [CHR 0x22] else f)"
  by (simp add: csv_escape_def quoted_def replace_char_def)

lemma quoted_simps [simp]:
  "quoted [] = []" "quoted (c # f) = (if c = CHR 0x22 then [CHR 0x22, CHR 0x22] else [c]) @ quoted f"
  by (simp_all add: quoted_def)

lemma csv_scan_quoted:
  "(s = [] \<or> hd s \<noteq> CHR 0x22) \<Longrightarrow> csv_scan (quoted f @ CHR 0x22 # s) True g = csv_scan s False (g @ f)"
proof (induction f arbitrary: g)
  case Nil
  then show ?case by (cases s) auto
qed auto

lemma csv_scan_plain: "\<not> csv_needs_quotes f \<Longrightarrow> csv_scan (f @ s) False g = csv_scan s False (g @ f)"
  by (induction f arbitrary: g) (auto simp: csv_needs_quotes_def)

lemma csv_scan_field:
  "(s = [] \<or> hd s \<noteq> CHR 0x22) \<Longrightarrow> csv_scan (csv_escape f @ s) False [] = csv_scan s False f"
  using csv_scan_quoted [of s f "[]"] csv_scan_plain [of f s "[]"] by (simp add: csv_escape_quoted)

lemma parse_csv_record_reads: "row \<noteq> [] \<Longrightarrow> parse_csv_record (csv_record row) = row"
proof (induction row rule: induct_list012)
  case (2 f)
  then show ?case using csv_scan_field [of "[]" f] by (simp add: parse_csv_record_def csv_record_def)
next
  case (3 f g row)
  then show ?case
    using csv_scan_field [of "CHR '','' # csv_record (g # row)" f] by (simp add: parse_csv_record_def csv_record_def)
qed simp

text \<open>Inside a record the quotes are open exactly at the line feeds of a field.\<close>

definition open_at_feeds :: "string \<Rightarrow> bool" where
  "open_at_feeds t \<longleftrightarrow> even (count_list t CHR 0x22) \<and> (\<forall>p s. t = p @ LF # s \<longrightarrow> odd (count_list p CHR 0x22))"

lemma quoted_count: "even (count_list (quoted f) CHR 0x22)"
  by (induction f) (auto simp: count_list_append)

lemma quoted_feed: "quoted f = p @ LF # s \<Longrightarrow> even (count_list p CHR 0x22)"
proof (induction f arbitrary: p)
  case (Cons c f)
  show ?case
  proof (cases "c = CHR 0x22")
    case True
    with Cons.prems obtain q where "p = [CHR 0x22, CHR 0x22] @ q" "quoted f = q @ LF # s"
      by (auto simp: Cons_eq_append_conv)
    with Cons.IH [of q] show ?thesis by simp
  next
    case False
    with Cons.prems Cons.IH show ?thesis by (auto simp: Cons_eq_append_conv)
  qed
qed simp

lemma open_at_feeds_escape: "open_at_feeds (csv_escape f)"
proof (cases "csv_needs_quotes f")
  case True
  have "odd (count_list p CHR 0x22)" if "CHR 0x22 # quoted f @ [CHR 0x22] = p @ LF # s" for p s
  proof -
    from that obtain q where p: "p = CHR 0x22 # q" "quoted f @ [CHR 0x22] = q @ LF # s"
      by (auto simp: Cons_eq_append_conv)
    then obtain t where "quoted f = q @ LF # t" by (cases s rule: rev_cases) auto
    with quoted_feed [OF this] p show ?thesis by simp
  qed
  with True quoted_count [of f] show ?thesis by (auto simp: open_at_feeds_def csv_escape_quoted count_list_append)
next
  case False
  then have "CHR 0x22 \<notin> set f" "LF \<notin> set f" by (auto simp: csv_needs_quotes_def list_ex_iff)
  with False show ?thesis by (auto simp: open_at_feeds_def csv_escape_quoted count_list_0_iff)
qed

lemma open_at_feeds_append:
  assumes "open_at_feeds a" "open_at_feeds b"
  shows "open_at_feeds (a @ b)"
proof -
  have "odd (count_list p CHR 0x22)" if eq: "a @ b = p @ LF # s" for p s
  proof (cases "length p < length a")
    case True
    then have "a = p @ LF # take (length a - length p - 1) s"
      using arg_cong [OF eq, of "take (length a)"] by (simp add: take_Cons')
    then show ?thesis using assms(1) unfolding open_at_feeds_def by blast
  next
    case False
    then obtain q where "p = a @ q" "b = q @ LF # s"
      using eq by (auto simp: append_eq_append_conv2 Cons_eq_append_conv)
    moreover from this(2) have "odd (count_list q CHR 0x22)" using assms(2) unfolding open_at_feeds_def by blast
    ultimately show ?thesis using assms(1) by (simp add: open_at_feeds_def count_list_append)
  qed
  with assms show ?thesis by (simp add: open_at_feeds_def count_list_append)
qed

lemma open_at_feeds_record: "open_at_feeds (csv_record row)"
proof (induction row rule: induct_list012)
  case 1
  then show ?case by (simp add: csv_record_def open_at_feeds_def)
next
  case (2 f)
  then show ?case using open_at_feeds_escape by (simp add: csv_record_def)
next
  case (3 f g row)
  have "open_at_feeds '',''" by (auto simp: open_at_feeds_def Cons_eq_append_conv)
  with 3 open_at_feeds_escape [of f] show ?case
    using open_at_feeds_append [of "csv_escape f" "'','' @ csv_record (g # row)"] open_at_feeds_append [of "'',''" "csv_record (g # row)"]
    by (simp add: csv_record_def)
qed

lemma valid_utf8_at_ascii: "is_ascii c \<Longrightarrow> valid_utf8 (v @ c # w) \<longleftrightarrow> valid_utf8 v \<and> valid_utf8 w"
  using valid_utf8_append_iff [of "c # w" v] by (simp add: is_cont_byte_def is_ascii_def)

lemma valid_utf8_at_feed: "valid_utf8 (v @ LF # w) \<longleftrightarrow> valid_utf8 v \<and> valid_utf8 w"
  by (simp add: valid_utf8_at_ascii is_ascii_def)

lemma read_line_feed: "LF \<notin> set v \<Longrightarrow> valid_utf8 v \<Longrightarrow> read_line (v @ LF # w) = Inr (v @ [LF], w)"
  by (simp add: read_line_def valid_utf8_at_feed takeWhile_append dropWhile_append Let_def)

lemma csv_lines_record:
  "open_at_feeds (buf @ u) \<Longrightarrow> valid_utf8 u \<Longrightarrow>
    csv_lines buf (u @ LF # rest) = Inr (Some (buf @ u @ [LF]), \<lparr>csv_rest = rest, csv_done = False\<rparr>)"
proof (induction u arbitrary: buf rule: length_induct)
  case (1 u)
  show ?case
  proof (cases "LF \<in> set u")
    case True
    then obtain v w where u: "u = v @ LF # w" "LF \<notin> set v" by (meson split_list_first)
    have "buf @ u = (buf @ v) @ LF # w" using u(1) by simp
    then have "odd (count_list (buf @ v) CHR 0x22)" using "1.prems"(1) unfolding open_at_feeds_def by blast
    then have "csv_lines buf (u @ LF # rest) = csv_lines (buf @ v @ [LF]) (w @ LF # rest)"
      using "1.prems"(2) u by (subst csv_lines.simps) (simp add: read_line_feed valid_utf8_at_feed count_list_append)
    also have "\<dots> = Inr (Some ((buf @ v @ [LF]) @ w @ [LF]), \<lparr>csv_rest = rest, csv_done = False\<rparr>)"
    proof -
      have "valid_utf8 w" "open_at_feeds ((buf @ v @ [LF]) @ w)" using "1.prems" u by (simp_all add: valid_utf8_at_feed)
      with "1.IH" show ?thesis using u(1) by simp
    qed
    finally show ?thesis using u by simp
  next
    case False
    have "even (count_list (buf @ u) CHR 0x22)" using "1.prems"(1) by (simp add: open_at_feeds_def)
    then show ?thesis
      using "1.prems"(2) False by (subst csv_lines.simps) (simp add: read_line_feed count_list_append)
  qed
qed

lemma csv_escape_end: "csv_escape f = [] \<or> last (csv_escape f) \<notin> {CHR 0x0D, LF}"
proof (cases "csv_needs_quotes f \<or> f = []")
  case False
  then show ?thesis using last_in_set [of f] by (auto simp: csv_escape_def csv_needs_quotes_def list_ex_iff)
qed (auto simp: csv_escape_def)

lemma csv_record_end: "csv_record row = [] \<or> last (csv_record row) \<notin> {CHR 0x0D, LF}"
proof (induction row rule: induct_list012)
  case (2 f)
  then show ?case using csv_escape_end [of f] by (simp add: csv_record_def)
next
  case (3 f g row)
  then show ?case by (auto simp: csv_record_def)
qed (simp add: csv_record_def)

lemma trim_line_end_record: "trim_line_end (csv_record row @ [LF]) = csv_record row"
proof (cases "csv_record row" rule: rev_cases)
  case (snoc t c)
  then show ?thesis using csv_record_end [of row] by (simp add: trim_line_end_def)
qed (simp add: trim_line_end_def)

text \<open>Rewriting ASCII characters to ASCII text keeps a string valid.\<close>

lemma valid_utf8_rewrite:
  assumes "\<And>c. is_ascii c \<Longrightarrow> list_all is_ascii (f c)" "\<And>c. \<not> is_ascii c \<Longrightarrow> f c = [c]"
  shows "valid_utf8 s \<Longrightarrow> valid_utf8 (concat (map f s))"
proof (induction s rule: length_induct)
  case (1 s)
  show ?case
  proof (cases "\<exists>c \<in> set s. is_ascii c")
    case True
    then obtain a c b where s: "s = a @ c # b" "is_ascii c" "\<forall>x \<in> set a. \<not> is_ascii x" by (metis split_list_first_prop)
    have "concat (map f a) = a" using s(3) assms(2) by (induction a) auto
    moreover have "valid_utf8 a" "valid_utf8 (concat (map f b))" "valid_utf8 (f c)"
      using "1.prems" "1.IH" s assms(1) by (simp_all add: valid_utf8_at_ascii valid_utf8_ascii)
    ultimately show ?thesis using s by simp
  next
    case False
    then have "concat (map f s) = s" using assms(2) by (induction s) auto
    with "1.prems" show ?thesis by simp
  qed
qed

lemma valid_utf8_quoted: "valid_utf8 f \<Longrightarrow> valid_utf8 (quoted f)"
  unfolding quoted_def by (rule valid_utf8_rewrite) (auto simp: is_ascii_def)

lemma valid_utf8_record: "list_all valid_utf8 row \<Longrightarrow> valid_utf8 (csv_record row)"
proof (induction row rule: induct_list012)
  case (2 f)
  then show ?case using valid_utf8_quoted [of f] by (simp add: csv_record_def csv_escape_quoted is_ascii_def)
next
  case (3 f g row)
  then show ?case using valid_utf8_quoted [of f] by (simp add: csv_record_def csv_escape_quoted is_ascii_def)
qed (simp add: csv_record_def)

lemma next_record_reads:
  "row \<noteq> [] \<Longrightarrow> list_all valid_utf8 row \<Longrightarrow>
    next_record \<lparr>csv_rest = csv_record row @ LF # rest, csv_done = False\<rparr> = Inr (Some row, \<lparr>csv_rest = rest, csv_done = False\<rparr>)"
  using csv_lines_record [of "[]" "csv_record row" rest] open_at_feeds_record [of row] valid_utf8_record [of row]
  by (simp add: next_record_def trim_line_end_record parse_csv_record_reads)

lemma next_record_end: "next_record \<lparr>csv_rest = [], csv_done = False\<rparr> = Inr (None, \<lparr>csv_rest = [], csv_done = True\<rparr>)"
  by (simp add: next_record_def csv_lines.simps read_line_def)

section \<open>Export and import\<close>

lemma trim_all_graphic: "list_all (\<lambda>c. 33 \<le> byte c \<and> byte c < 128) s \<Longrightarrow> trim s = s"
proof (cases "s = []")
  case False
  assume graphic: "list_all (\<lambda>c. 33 \<le> byte c \<and> byte c < 128) s"
  have "ws_prefix (drop k s) = 0" if "k < length s" for k
    using that graphic by (intro ws_prefix_graphic) (simp add: graphic_head_def hd_drop_conv_nth list_all_length)
  then have "ws_suffix s = 0" using False by (simp add: ws_suffix_def Let_def)
  moreover have "graphic_head s" using False graphic by (cases s) (simp_all add: graphic_head_def)
  ultimately show ?thesis by (simp add: trim_def trim_end.simps)
qed (simp add: trim_def trim_start.simps trim_end.simps ws_suffix_def)

lemma show_int_graphic: "list_all (\<lambda>c. 33 \<le> byte c \<and> byte c < 128) (show_int n) \<and> show_int n \<noteq> []"
proof -
  have "list_all (\<lambda>c. 33 \<le> byte c \<and> byte c < 128) (show_nat m)" for m
    using show_nat_range [of _ m] by (fastforce simp: list_all_iff)
  then show ?thesis using show_nat_digits by (simp add: show_int_def)
qed

text \<open>The values a CSV file can carry for a column of a declared type; \<^verbatim>\<open>f64\<close> prints so that it parses back.\<close>

definition csv_faithful :: "(fp \<Rightarrow> string) \<Rightarrow> string option \<Rightarrow> db_value \<Rightarrow> bool" where
  "csv_faithful show_real decl v \<longleftrightarrow> edit_typed decl v \<and>
     (case v of
        Real x \<Rightarrow> show_real x \<noteq> [] \<and> valid_utf8 (show_real x) \<and> parse_f64 (trim (show_real x)) = Some x
      | Text s \<Rightarrow> valid_utf8 s | _ \<Rightarrow> True)"

lemma coerce_csv_cell: "csv_faithful show_real decl v \<Longrightarrow> coerce_edit_value (csv_cell show_real v) decl = Inr v"
  using show_int_graphic trim_all_graphic parse_i64_show
  by (cases v) (auto simp: csv_faithful_def edit_typed_def coerce_edit_value_def split: option.splits)

lemma valid_csv_cell: "csv_faithful show_real decl v \<Longrightarrow> valid_utf8 (csv_cell show_real v)"
proof (cases v)
  case (Integer n)
  have "list_all is_ascii (show_int n)" using show_int_graphic [of n] by (auto simp: list_all_iff is_ascii_def)
  with Integer show ?thesis by (simp add: valid_utf8_ascii)
qed (auto simp: csv_faithful_def edit_typed_def)

text \<open>The mapping of an import that takes every column of the file as it is.\<close>

definition identity_mapping :: "string list \<Rightarrow> string option list \<Rightarrow> column_map list" where
  "identity_mapping names decls =
     map (\<lambda>(i, n, d). \<lparr>mp_source = i, mp_column = n, mp_decl = d\<rparr>) (enumerate 0 (zip names decls))"

lemma coerce_cells_all:
  "list_all (\<lambda>m. mp_source m < length vals \<and> mp_source m < length cells \<and>
     coerce_edit_value (cells ! mp_source m) (mp_decl m) = Inr (vals ! mp_source m)) ms \<Longrightarrow>
   coerce_cells ms cells = Inr (map (\<lambda>m. vals ! mp_source m) ms)"
  by (induction ms) (auto simp: and_then_def)

lemma coerce_identity:
  assumes "list_all2 (csv_faithful show_real) decls row" "length names = length decls"
  shows "coerce_cells (identity_mapping names decls) (map (csv_cell show_real) row) = Inr row"
proof -
  let ?ms = "identity_mapping names decls"
  have len: "length row = length decls" using assms(1) by (simp add: list_all2_lengthD)
  have nth: "?ms ! i = \<lparr>mp_source = i, mp_column = names ! i, mp_decl = decls ! i\<rparr>" if "i < length decls" for i
    using that assms(2) by (simp add: identity_mapping_def nth_enumerate_eq)
  have "length ?ms = length decls" using assms(2) by (simp add: identity_mapping_def)
  moreover have "coerce_cells ?ms (map (csv_cell show_real) row) = Inr (map (\<lambda>m. row ! mp_source m) ?ms)"
    using assms(1) len calculation nth
    by (intro coerce_cells_all) (simp add: list_all_length list_all2_conv_all_nth coerce_csv_cell)
  moreover have "map (\<lambda>m. row ! mp_source m) ?ms = row"
    using calculation(1) len nth by (intro nth_equalityI) simp_all
  ultimately show ?thesis by simp
qed

lemma reads_csv_rows:
  "list_all (\<lambda>row. row \<noteq> [] \<and> list_all valid_utf8 row) rows \<Longrightarrow>
    reads J (InnerCsv \<lparr>csv_rest = concat (map (\<lambda>row. csv_record row @ [LF]) rows), csv_done = False\<rparr>) rows
      (InnerCsv \<lparr>csv_rest = [], csv_done = False\<rparr>)"
  by (induction rows) (simp_all add: next_row_def next_record_reads)

lemma reads_unique:
  "reads J r rows r1 \<Longrightarrow> ended J r1 \<Longrightarrow> reads J r rows2 r2 \<Longrightarrow> ended J r2 \<Longrightarrow> rows = rows2"
proof (induction rows arbitrary: r rows2)
  case Nil
  then show ?case by (cases rows2) (auto simp: ended_def split: sum.splits prod.splits option.splits)
next
  case (Cons row rows)
  then show ?case by (cases rows2) (auto simp: ended_def split: sum.splits prod.splits option.splits)
qed

lemma import_loop_finishes:
  assumes "\<forall>chunk db. \<not> isl (fst (ins chunk db))"
  shows "reads J reader rows r1 \<Longrightarrow> ended J r1 \<Longrightarrow> list_all (\<lambda>cells. \<not> isl (coerce_cells mapping cells)) rows \<Longrightarrow>
    snd (fst (import_loop J ins mapping chunk_size (\<lambda>_. False) reader chunk committed row_no db)) = None"
proof (induction rows arbitrary: reader chunk committed row_no db)
  have flush: "\<exists>n db1. flush_chunk ins chunk committed db = (Inr n, db1)" for chunk committed db
  proof (cases "ins chunk db")
    case (Pair r db1)
    moreover have "\<not> isl r" using assms Pair by (metis fst_conv)
    ultimately show ?thesis by (cases r) (auto simp: flush_chunk_def)
  qed
  {
    case Nil
    then obtain r2 where "next_row J reader = Inr (None, r2)" by (auto simp: ended_def split: sum.splits prod.splits option.splits)
    with flush [of chunk committed db] show ?case by (subst import_loop.simps) auto
  next
    case (Cons row rows)
    then obtain r2 where row: "next_row J reader = Inr (Some row, r2)" "reads J r2 rows r1"
      by (auto split: sum.splits prod.splits option.splits)
    obtain v where v: "coerce_cells mapping row = Inr v" using Cons.prems(3) by (cases "coerce_cells mapping row") auto
    obtain n db1 where "flush_chunk ins (chunk @ [v]) committed db = (Inr n, db1)" using flush by blast
    with Cons.IH [OF row(2) Cons.prems(2)] Cons.prems(3) row v show ?case by (subst import_loop.simps) simp
  }
qed

text \<open>
  C32. What CSV export writes, CSV import restores: a file exported from rows that fit their columns' types imports,
  column by column into columns of those types, without an error; all rows are committed and they are the
  exported values, whatever commas, quotes or line breaks their texts hold and however the chunks are cut.
\<close>

theorem csv_export_imports_back:
  assumes "export_rows show_real FmtCsv names stem rows = Inr (file_bytes, outcome)"
    and "names \<noteq> []" and "list_all valid_utf8 names" and "length decls = length names"
    and "list_all (list_all2 (csv_faithful show_real) decls) rows"
    and "transactional ins contents" and "\<forall>chunk db. \<not> isl (fst (ins chunk db))"
  shows "\<exists>db1. run_import_blocking J ins path (Inr file_bytes) ImportCsv (identity_mapping names decls) chunk_size (\<lambda>_. False) db
      = ((length rows, None), db1) \<and> contents db1 = contents db @ rows"
proof -
  let ?cells = "map (map (csv_cell show_real)) rows" and ?ms = "identity_mapping names decls"
  let ?reader = "InnerCsv \<lparr>csv_rest = concat (map (\<lambda>row. csv_record row @ [LF]) ?cells), csv_done = False\<rparr>"
  let ?fin = "InnerCsv \<lparr>csv_rest = [], csv_done = False\<rparr>"
  have bytes: "file_bytes = csv_record names @ LF # concat (map (\<lambda>row. csv_record row @ [LF]) ?cells)"
    using assms(1) export_csv_out [of "\<lparr>ew_out = csv_record names @ [LF], ew_framing = FrameCsv, ew_names = names, ew_written = 0\<rparr>" show_real rows]
      export_text_rows [of "\<lparr>ew_out = csv_record names @ [LF], ew_framing = FrameCsv, ew_names = names, ew_written = 0\<rparr>" show_real rows]
    by (auto simp: export_rows_def export_begin_def and_then_def export_finish_def Let_def comp_def)
  have "list_all valid_utf8 (map (csv_cell show_real) row) \<and> row \<noteq> []" if "row \<in> set rows" for row
  proof -
    have "list_all2 (csv_faithful show_real) decls row" using assms(5) that by (simp add: list_all_iff)
    then have "length row = length decls" "\<forall>i < length row. csv_faithful show_real (decls ! i) (row ! i)"
      by (simp_all add: list_all2_conv_all_nth)
    with assms(2,4) valid_csv_cell [of show_real] show ?thesis by (auto simp: list_all_length)
  qed
  then have "list_all (\<lambda>row. row \<noteq> [] \<and> list_all valid_utf8 row) ?cells" by (simp add: list_all_iff)
  then have reads: "reads J ?reader ?cells ?fin" by (rule reads_csv_rows)
  have ended: "ended J ?fin" by (simp add: ended_def next_row_def next_record_end)
  have coerced: "list_all2 (\<lambda>cells v. coerce_cells ?ms cells = Inr v) ?cells rows"
    unfolding list_all2_conv_all_nth
    using assms(4,5) coerce_identity [of show_real decls _ names] by (simp add: list_all_length)
  obtain n err db1 where loop: "import_loop J ins ?ms (max chunk_size 1) (\<lambda>_. False) ?reader [] 0 0 db = ((n, err), db1)"
    by (metis prod.exhaust)
  have "err = None"
    using import_loop_finishes [OF assms(7) reads ended, of ?ms "max chunk_size 1" "[]" 0 0 db] coerced loop
    by (auto simp: list_all_length list_all2_conv_all_nth)
  moreover obtain rows2 vals r1 m where "reads J ?reader rows2 r1" "list_all2 (\<lambda>cells v. coerce_cells ?ms cells = Inr v) rows2 vals"
    "contents db1 = contents db @ take m vals" "n = m" "err = None \<longrightarrow> ended J r1 \<and> m = length vals"
    using import_loop_upshot [OF assms(6), of J ?ms ?reader "[]" 0 db "max chunk_size 1" "\<lambda>_. False" 0] loop
    by (auto simp: import_upshot_def)
  ultimately have "rows2 = ?cells" "ended J r1" "n = length vals" "contents db1 = contents db @ vals" and
    v: "list_all2 (\<lambda>cells v. coerce_cells ?ms cells = Inr v) rows2 vals"
    using reads_unique [OF reads ended] by auto
  moreover have "vals = rows"
    using v coerced \<open>rows2 = ?cells\<close> by (intro nth_equalityI) (auto simp: list_all2_conv_all_nth)
  ultimately have "n = length rows" "contents db1 = contents db @ rows" by simp_all
  moreover have "import_begin J file_bytes ImportCsv = Inr (names, ?reader)"
    using assms(2,3) by (simp add: import_begin_def bytes next_record_reads)
  ultimately show ?thesis using loop \<open>err = None\<close> by (simp add: run_import_blocking_def)
qed

theorem csv_export_imports_back_witness:
  "\<exists>b outcome. export_rows (\<lambda>_. []) FmtCsv [''id'', ''note''] ''t'' [[Integer 7, Text (''a,'' @ [LF] @ ''b'')], [Null, Text [CHR 0x22]]] = Inr (b, outcome) \<and>
     run_import_blocking no_json append_rows ''f'' (Inr b) ImportCsv (identity_mapping [''id'', ''note''] [Some ''int'', None]) 1 (\<lambda>_. False) []
       = ((2, None), [[Integer 7, Text (''a,'' @ [LF] @ ''b'')], [Null, Text [CHR 0x22]]])"
proof -
  let ?rows = "[[Integer 7, Text (''a,'' @ [LF] @ ''b'')], [Null, Text [CHR 0x22]]]"
  obtain b outcome where e: "export_rows (\<lambda>_. []) FmtCsv [''id'', ''note''] ''t'' ?rows = Inr (b, outcome)"
    by (simp add: export_rows_def export_begin_def and_then_def export_finish_def export_write_row_def Let_def)
  have "is_int_type ''int''" by code_simp
  then have "list_all (list_all2 (csv_faithful (\<lambda>_. [])) [Some ''int'', None]) ?rows"
    by (simp add: csv_faithful_def edit_typed_def is_ascii_def)
  from csv_export_imports_back [OF e _ _ _ this append_rows_transactional, of no_json "''f''" 1 "[]"]
  show ?thesis using e by (auto simp: append_rows_def is_ascii_def)
qed

section \<open>JSON frames back\<close>

definition push_bytes :: "bytes \<Rightarrow> string + (bytes \<times> bytes) \<Rightarrow> string + (bytes \<times> bytes)" where
  "push_bytes p r = map_sum id (apfst ((@) p)) r"

lemma push_bytes_simps [simp]:
  "push_bytes [] x = x" "push_byte b (push_bytes p x) = push_bytes (b # p) x" "push_bytes p (push_bytes q x) = push_bytes (p @ q) x"
  "push_bytes p (Inr (t, r)) = Inr (p @ t, r)"
  by (cases x; auto simp: push_bytes_def push_byte_def)+

text \<open>Text the scan passes over at any depth.\<close>

definition framed :: "bytes \<Rightarrow> bool" where
  "framed p \<longleftrightarrow> (\<forall>d r. json_nested d False False (p @ r) = push_bytes p (json_nested d False False r))"

lemma framed_append: "framed p \<Longrightarrow> framed q \<Longrightarrow> framed (p @ q)"
  by (simp add: framed_def)

lemma framed_plain: "set p \<inter> {CHR 0x22, CHR ''{'', CHR ''['', CHR ''}'', CHR '']''} = {} \<Longrightarrow> framed p"
  by (induction p) (auto simp: framed_def)

lemma push_byte_bytes: "push_byte b x = push_bytes [b] x"
  by (cases x) (auto simp: push_bytes_def push_byte_def)

lemma json_hex_plain: "n < 16 \<Longrightarrow> json_hex n \<noteq> CHR 0x22 \<and> json_hex n \<noteq> CHR 0x5C"
proof -
  assume "n < 16"
  then have "byte (json_hex n) = (if n < 10 then 48 + n else 87 + n)" by (simp add: json_hex_def)
  then have "byte (json_hex n) \<notin> {34, 92}" by auto
  then show ?thesis by auto
qed

lemma json_nested_char: "json_nested d True False (json_char c @ r) = push_bytes (json_char c) (json_nested d True False r)"
proof -
  have "byte c < 32 \<Longrightarrow> json_hex (byte c div 16) \<noteq> CHR 0x22 \<and> json_hex (byte c div 16) \<noteq> CHR 0x5C"
    using json_hex_plain [of "byte c div 16"] by simp
  moreover have "json_hex (byte c mod 16) \<noteq> CHR 0x22 \<and> json_hex (byte c mod 16) \<noteq> CHR 0x5C"
    using json_hex_plain [of "byte c mod 16"] by simp
  ultimately show ?thesis by (auto simp: json_char_def push_byte_bytes)
qed

lemma framed_json_string: "framed (json_string s)"
proof -
  have "json_nested d True False (concat (map json_char s) @ CHR 0x22 # r) =
      push_bytes (concat (map json_char s) @ [CHR 0x22]) (json_nested d False False r)" for d r
  proof (induction s)
    case Nil
    show ?case by (cases "json_nested d False False r") (auto simp: push_byte_def push_bytes_def)
  qed (simp add: json_nested_char)
  then show ?thesis by (simp add: framed_def json_string_def)
qed

lemma framed_join: "list_all framed ps \<Longrightarrow> framed (join_with '','' ps)"
proof (induction "'',''" ps rule: join_with.induct)
  case (3 x y r)
  have "framed '',''" by (rule framed_plain) simp
  with 3 show ?case using framed_append [of x] framed_append [of "'',''"] by simp
qed (auto simp: framed_def)

text \<open>
  The values the statement is about: valid text, and doubles whose text is that of a number. \<open>object_text\<close> is the
  element a row becomes.
\<close>

definition json_ready :: "(fp \<Rightarrow> string) \<Rightarrow> db_value \<Rightarrow> bool" where
  "json_ready show_real v =
     (case v of
        Real x \<Rightarrow> fp_is_finite x \<longrightarrow> list_all (\<lambda>c. is_ascii c \<and> c \<notin> {CHR 0x22, CHR ''{'', CHR ''['', CHR ''}'', CHR '']''}) (show_real x)
      | Text s \<Rightarrow> valid_utf8 s
      | Capped c \<Rightarrow> valid_utf8 (cc_head c)
      | _ \<Rightarrow> True)"

lemma json_ready_Real:
  "json_ready show_real (Real x) \<longleftrightarrow> (fp_is_finite x \<longrightarrow>
     (\<forall>c \<in> set (show_real x). is_ascii c \<and> c \<notin> {CHR 0x22, CHR ''{'', CHR ''['', CHR ''}'', CHR '']''}))"
  by (simp only: json_ready_def db_value.case list_all_iff)

definition object_text :: "(fp \<Rightarrow> string) \<Rightarrow> string list \<Rightarrow> db_value list \<Rightarrow> string" where
  "object_text show_real names cells =
     ''{'' @ join_with '',''
       (map (\<lambda>(i, v). json_string (if i < length names then names ! i else []) @ '':'' @ json_value show_real v)
         (enumerate 0 cells)) @ ''}''"

lemma json_object_text: "json_object show_real names cells = LF # ''  '' @ object_text show_real names cells"
  by (simp add: json_object_def object_text_def)

lemma framed_json_value: "json_ready show_real v \<Longrightarrow> framed (json_value show_real v)"
proof (cases v)
  case (Integer n)
  have "set (show_int n) \<inter> {CHR 0x22, CHR ''{'', CHR ''['', CHR ''}'', CHR '']''} = {}"
  proof -
    have "byte c \<le> 57 \<and> 40 \<le> byte c" if "c \<in> set (show_int n)" for c
      using that show_nat_range [of c] by (fastforce simp: show_int_def split: if_splits)
    then show ?thesis by fastforce
  qed
  with Integer show ?thesis by (simp add: framed_plain)
next
  case (Real x)
  assume ready: "json_ready show_real v"
  have "framed (show_real x)" if "fp_is_finite x"
  proof (rule framed_plain)
    have "\<forall>c \<in> set (show_real x). c \<notin> {CHR 0x22, CHR ''{'', CHR ''['', CHR ''}'', CHR '']''}"
      using ready [unfolded Real json_ready_Real] that by blast
    then show "set (show_real x) \<inter> {CHR 0x22, CHR ''{'', CHR ''['', CHR ''}'', CHR '']''} = {}" by blast
  qed
  moreover have "framed ''null''" by (rule framed_plain) simp
  ultimately show ?thesis using Real by simp
qed (auto intro!: framed_plain simp: framed_json_string)

lemma object_text_frames:
  assumes "list_all (json_ready show_real) cells"
  shows "json_nested 0 False False (object_text show_real names cells @ r) = Inr (object_text show_real names cells, r)"
proof -
  let ?fields = "map (\<lambda>(i, v). json_string (if i < length names then names ! i else []) @ '':'' @ json_value show_real v) (enumerate 0 cells)"
  have colon: "framed '':''" by (rule framed_plain) simp
  have "framed (json_string name @ '':'' @ json_value show_real v)" if "v \<in> set cells" for name v
    using assms that colon framed_json_string framed_json_value by (intro framed_append) (auto simp: list_all_iff)
  then have "list_all framed ?fields"
    by (auto simp: list_all_iff in_set_enumerate_eq)
  then have "framed (join_with '','' ?fields)" by (rule framed_join)
  then show ?thesis by (simp add: object_text_def framed_def push_byte_bytes)
qed

lemma valid_json_string: "valid_utf8 s \<Longrightarrow> valid_utf8 (json_string s)"
proof -
  assume "valid_utf8 s"
  moreover have "list_all is_ascii (json_char c)" if "is_ascii c" for c
    using that by (auto simp: json_char_def json_hex_def is_ascii_def)
  moreover have "json_char c = [c]" if "\<not> is_ascii c" for c
    using that by (auto simp: json_char_def is_ascii_def)
  ultimately have "valid_utf8 (concat (map json_char s))" by (intro valid_utf8_rewrite) auto
  then show ?thesis by (simp add: json_string_def is_ascii_def)
qed

lemma show_nat_ascii: "list_all is_ascii (show_nat n)"
  using show_nat_range by (fastforce simp: list_all_iff is_ascii_def)

lemma valid_json_value: "json_ready show_real v \<Longrightarrow> valid_utf8 (json_value show_real v)"
proof (cases v)
  case (Integer n)
  then show ?thesis using show_nat_ascii by (simp add: show_int_def valid_utf8_ascii is_ascii_def)
next
  case (Real x)
  assume ready: "json_ready show_real v"
  have "valid_utf8 (show_real x)" if "fp_is_finite x"
  proof (rule valid_utf8_ascii)
    show "list_all is_ascii (show_real x)"
      using ready [unfolded Real json_ready_Real] that by (simp only: list_all_iff) blast
  qed
  moreover have "valid_utf8 ''null''" by (simp add: is_ascii_def)
  ultimately show ?thesis using Real by simp
next
  case (Blob b)
  then show ?thesis using show_nat_ascii [of "length b"] by (simp add: bytes_summary_def valid_json_string valid_utf8_ascii is_ascii_def)
next
  case (Capped c)
  assume "json_ready show_real v"
  moreover have "valid_utf8 ELLIPSIS" by code_simp
  ultimately show ?thesis
    using Capped show_nat_ascii [of "cc_len c"]
    by (simp add: json_ready_def bytes_summary_def valid_json_string valid_utf8_ascii is_ascii_def)
qed (simp_all add: json_ready_def valid_json_string is_ascii_def)

lemma valid_object_text:
  assumes "list_all valid_utf8 names" "list_all (json_ready show_real) cells"
  shows "valid_utf8 (object_text show_real names cells)"
proof -
  have join: "list_all valid_utf8 ps \<Longrightarrow> valid_utf8 (join_with '','' ps)" for ps
    by (induction "'',''" ps rule: join_with.induct) (auto simp: is_ascii_def)
  have "valid_utf8 (json_string (if i < length names then names ! i else []) @ '':'' @ json_value show_real v)"
    if "v \<in> set cells" for i v
    using assms that by (auto simp: list_all_iff is_ascii_def list_all_length intro!: valid_utf8_append valid_json_string valid_json_value)
  then have "list_all valid_utf8 (map (\<lambda>(i, v). json_string (if i < length names then names ! i else []) @ '':'' @ json_value show_real v) (enumerate 0 cells))"
    by (auto simp: list_all_iff in_set_enumerate_eq)
  from join [OF this] show ?thesis by (simp add: object_text_def is_ascii_def)
qed

subsection \<open>The elements of an exported array\<close>

abbreviation json_tail :: "(fp \<Rightarrow> string) \<Rightarrow> string list \<Rightarrow> db_value list list \<Rightarrow> bytes" where
  "json_tail show_real names rows \<equiv>
     concat (map (\<lambda>cells. '','' @ json_object show_real names cells) rows) @ [LF] @ '']'' @ [LF]"

lemma export_json_out:
  assumes "ew_framing w = FrameJson"
  shows "ew_out (fold (export_write_row show_real) rows w) =
    ew_out w @ (case rows of [] \<Rightarrow> [] | cells # rest \<Rightarrow> (if 0 < ew_written w then '','' else []) @ json_object show_real (ew_names w) cells @
      concat (map (\<lambda>cells. '','' @ json_object show_real (ew_names w) cells) rest))"
  using assms
proof (induction rows arbitrary: w)
  case (Cons cells rows)
  let ?w = "export_write_row show_real cells w"
  have "ew_framing ?w = FrameJson" "ew_names ?w = ew_names w" "0 < ew_written ?w"
    "ew_out ?w = ew_out w @ (if 0 < ew_written w then '','' else []) @ json_object show_real (ew_names w) cells"
    using Cons.prems by (simp_all add: export_write_row_def Let_def)
  with Cons.IH [of ?w] show ?case by (cases rows) simp_all
qed simp

lemma skip_ws_object: "skip_ws (json_object show_real names cells @ r) = object_text show_real names cells @ r"
  by (simp add: json_object_text skip_ws_def is_ascii_whitespace_def object_text_def)

lemma read_object:
  "list_all (json_ready show_real) cells \<Longrightarrow>
    read_json_value_bytes (object_text show_real names cells @ r) = Inr (object_text show_real names cells, r)"
  using object_text_frames [of show_real cells names r] by (simp add: read_json_value_bytes_def object_text_def)

definition array_reader :: "bytes \<Rightarrow> string list \<Rightarrow> string list option \<Rightarrow> json_array_reader" where
  "array_reader rest columns pending =
     \<lparr>ja_rest = rest, ja_columns = columns, ja_pending = pending, ja_started = True, ja_first = False, ja_done = False\<rparr>"

lemma next_object_first:
  assumes "list_all valid_utf8 names" "list_all (json_ready show_real) cells" "parse_json_object J (object_text show_real names cells) = Inr obj"
  shows "next_object J \<lparr>ja_rest = ''['' @ json_object show_real names cells @ rest, ja_columns = [], ja_pending = None, ja_started = False, ja_first = True, ja_done = False\<rparr>
    = Inr (Some obj, array_reader rest [] None)"
proof -
  have "skip_ws (''['' @ r) = ''['' @ r" for r by (simp add: skip_ws_def is_ascii_whitespace_def)
  moreover obtain t where "object_text show_real names cells = CHR ''{'' # t" by (simp add: object_text_def)
  ultimately show ?thesis
    using assms skip_ws_object [of show_real names cells rest] read_object [OF assms(2), of names rest] valid_object_text [OF assms(1,2)]
    by (simp add: next_object_def open_array_def next_element_def and_then_def array_reader_def)
qed

lemma next_object_more:
  assumes "list_all valid_utf8 names" "list_all (json_ready show_real) cells" "parse_json_object J (object_text show_real names cells) = Inr obj"
  shows "next_object J (array_reader ('','' @ json_object show_real names cells @ rest) columns None) = Inr (Some obj, array_reader rest columns None)"
proof -
  have "skip_ws ('','' @ r) = '','' @ r" for r by (simp add: skip_ws_def is_ascii_whitespace_def)
  then show ?thesis
    using assms skip_ws_object [of show_real names cells rest] read_object [OF assms(2), of names rest] valid_object_text [OF assms(1,2)]
    by (simp add: next_object_def open_array_def next_element_def and_then_def array_reader_def)
qed

lemma reads_json_tail:
  assumes "list_all valid_utf8 names"
  shows "list_all (list_all (json_ready show_real)) rows \<Longrightarrow>
    list_all (\<lambda>cells. parse_json_object J (object_text show_real names cells) = Inr (entries cells)) rows \<Longrightarrow>
    reads J (InnerJsonArray (array_reader (json_tail show_real names rows) columns None))
      (map (\<lambda>cells. project_json J (entries cells) columns) rows) (InnerJsonArray (array_reader ([LF] @ '']'' @ [LF]) columns None))"
proof (induction rows)
  case (Cons cells rows)
  then have "next_object J (array_reader (json_tail show_real names (cells # rows)) columns None)
      = Inr (Some (entries cells), array_reader (json_tail show_real names rows) columns None)"
    using next_object_more [OF assms, of show_real cells J "entries cells" "json_tail show_real names rows" columns] by simp
  moreover have "ja_pending (array_reader b columns None) = None" "ja_columns (array_reader b columns None) = columns" for b
    by (simp_all add: array_reader_def)
  ultimately show ?case using Cons by (simp add: next_row_def)
qed simp

lemma ended_json_tail: "ended J (InnerJsonArray (array_reader ([LF] @ '']'' @ [LF]) columns None))"
  by (simp add: ended_def next_row_def next_object_def open_array_def next_element_def and_then_def array_reader_def skip_ws_def is_ascii_whitespace_def)

text \<open>
  C33. What JSON export writes, the array importer takes apart: for every row the parser is handed exactly the
  object of that row, byte for byte, whatever brackets, quotes or commas its texts hold; the rows come out in
  order, projected on the columns of the first, and then the array ends.
\<close>

theorem json_export_reads_back:
  assumes "export_rows show_real FmtJson names stem (row # rows) = Inr (file_bytes, outcome)"
    and "list_all valid_utf8 names" and "list_all (list_all (json_ready show_real)) (row # rows)"
    and "list_all (\<lambda>cells. parse_json_object J (object_text show_real names cells) = Inr (entries cells)) (row # rows)"
  shows "\<exists>reader r1. import_begin J file_bytes ImportJsonArray = Inr (map fst (entries row), reader) \<and>
    reads J reader (map (\<lambda>cells. project_json J (entries cells) (map fst (entries row))) (row # rows)) r1 \<and> ended J r1"
proof -
  let ?columns = "map fst (entries row)"
  let ?reader = "InnerJsonArray (array_reader (json_tail show_real names rows) ?columns (Some (project_json J (entries row) ?columns)))"
  have bytes: "file_bytes = ''['' @ json_object show_real names row @ json_tail show_real names rows"
    using assms(1) export_json_out [of "\<lparr>ew_out = ''['', ew_framing = FrameJson, ew_names = names, ew_written = 0\<rparr>" show_real "row # rows"]
      export_text_rows [of "\<lparr>ew_out = ''['', ew_framing = FrameJson, ew_names = names, ew_written = 0\<rparr>" show_real "row # rows"]
    by (auto simp: export_rows_def export_begin_def and_then_def export_finish_def Let_def)
  have "import_begin J file_bytes ImportJsonArray = Inr (?columns, ?reader)"
    using next_object_first [OF assms(2), of show_real row J "entries row" "json_tail show_real names rows"] assms(3,4)
    by (simp add: import_begin_def bytes and_then_def array_reader_def Let_def)
  moreover have "reads J ?reader (map (\<lambda>cells. project_json J (entries cells) ?columns) (row # rows))
      (InnerJsonArray (array_reader ([LF] @ '']'' @ [LF]) ?columns None))"
    using reads_json_tail [OF assms(2), of show_real rows J entries ?columns] assms(3,4) by (simp add: next_row_def array_reader_def)
  ultimately show ?thesis using ended_json_tail by blast
qed

text \<open>A parser that keeps the text of an object as its one entry, for the witness.\<close>

definition raw_json :: "string serde" where
  "raw_json = \<lparr>sj_from_str = Inr, sj_entries = (\<lambda>t. Some [(''t'', t)]), sj_is_null = (\<lambda>_. False), sj_as_str = Some, sj_to_string = (\<lambda>t. t)\<rparr>"

theorem json_export_reads_back_witness:
  "\<exists>b outcome reader r1. export_rows (\<lambda>_. []) FmtJson [''k''] ''f'' [[Text ''}]'' ], [Integer 2]] = Inr (b, outcome) \<and>
     import_begin raw_json b ImportJsonArray = Inr ([''t''], reader) \<and>
     reads raw_json reader [[object_text (\<lambda>_. []) [''k''] [Text ''}]'']], [object_text (\<lambda>_. []) [''k''] [Integer 2]]] r1 \<and> ended raw_json r1"
proof -
  let ?entries = "\<lambda>cells. [(''t'', object_text (\<lambda>_. []) [''k''] cells)]"
  obtain b outcome where e: "export_rows (\<lambda>_. []) FmtJson [''k''] ''f'' ([Text ''}]''] # [[Integer 2]]) = Inr (b, outcome)"
    by (simp add: export_rows_def export_begin_def and_then_def export_finish_def export_write_row_def Let_def)
  have "list_all (\<lambda>cells. parse_json_object raw_json (object_text (\<lambda>_. []) [''k''] cells) = Inr (?entries cells)) ([Text ''}]''] # [[Integer 2]])"
    by (simp add: parse_json_object_def raw_json_def)
  from json_export_reads_back [OF e _ _ this] e show ?thesis
    by (auto simp: is_ascii_def json_ready_def project_json_def raw_json_def)
qed

end
