(* ===== verification/Transfer_Plan.thy ===== *)
theory Transfer_Plan
  imports Row_Import Schema_Types
begin

text \<open>
  The plan of a data transfer (\<^verbatim>\<open>crates/red-core/src/transfer.rs\<close>) and the order its items run in:
  \<^verbatim>\<open>order_by_fk\<close> of \<^verbatim>\<open>dispatch/jobs.rs\<close> and \<^verbatim>\<open>order_items\<close> of \<^verbatim>\<open>dispatch/transfer.rs\<close>.
\<close>

section \<open>Plans\<close>

datatype copy_mode = Append | TruncateInsert

datatype item_source = SourceTable "string option" string | SourceResult nat | SourceSql string

datatype item_action = Skip | Create | Existing copy_mode | Recreate

datatype item_content = StructureOnly | AllRows | Where string | Limit nat

datatype on_error = StopJob | SkipItem

record transfer_item =
  ti_source :: item_source
  ti_target_name :: string
  ti_action :: item_action
  ti_content :: item_content
  ti_mapping :: "column_map list"

record transfer_options =
  to_primary_keys :: bool
  to_indexes :: bool
  to_foreign_keys :: bool
  to_on_error :: on_error
  to_dry_run :: bool

record transfer_plan =
  tp_source_namespace :: "string option"
  tp_target_namespace :: "string option"
  tp_items :: "transfer_item list"
  tp_options :: transfer_options

definition default_transfer_options :: transfer_options where
  "default_transfer_options =
     \<lparr>to_primary_keys = True, to_indexes = True, to_foreign_keys = True, to_on_error = StopJob, to_dry_run = False\<rparr>"

definition item_table :: "string \<Rightarrow> transfer_item" where
  "item_table name =
     \<lparr>ti_source = SourceTable None name, ti_target_name = name, ti_action = Create, ti_content = AllRows, ti_mapping = []\<rparr>"

definition source_label :: "transfer_item \<Rightarrow> string" where
  "source_label item = (case ti_source item of SourceTable _ name \<Rightarrow> name | _ \<Rightarrow> ti_target_name item)"

definition is_active :: "transfer_item \<Rightarrow> bool" where
  "is_active item \<longleftrightarrow> ti_action item \<noteq> Skip"

definition is_destructive :: "transfer_item \<Rightarrow> bool" where
  "is_destructive item \<longleftrightarrow> ti_action item = Recreate \<or> ti_action item = Existing TruncateInsert"

fun action_verb :: "item_action \<Rightarrow> string" where
  "action_verb Skip = ''skipped''"
| "action_verb Create = ''created''"
| "action_verb (Existing Append) = ''appended into''"
| "action_verb (Existing TruncateInsert) = ''cleared and refilled''"
| "action_verb Recreate = ''recreated''"

fun moves_rows :: "item_content \<Rightarrow> bool" where
  "moves_rows StructureOnly = False"
| "moves_rows (Limit n) = (n \<noteq> 0)"
| "moves_rows _ = True"

fun select_sql :: "item_content \<Rightarrow> string \<Rightarrow> string option" where
  "select_sql StructureOnly quoted_table = None"
| "select_sql AllRows quoted_table = Some (''SELECT * FROM '' @ quoted_table)"
| "select_sql (Where expr) quoted_table =
     (if trim expr = [] then Some (''SELECT * FROM '' @ quoted_table)
      else Some (''SELECT * FROM '' @ quoted_table @ '' WHERE ('' @ expr @ '')''))"
| "select_sql (Limit n) quoted_table =
     (if n = 0 then None else Some (''SELECT * FROM '' @ quoted_table @ '' LIMIT '' @ show_nat n))"

fun content_label :: "item_content \<Rightarrow> string" where
  "content_label StructureOnly = ''structure only''"
| "content_label AllRows = ''all rows''"
| "content_label (Where _) = ''filtered''"
| "content_label (Limit _) = ''first rows''"

datatype item_outcome = Created | CreatedEmpty | Recreated | Appended | Replaced | Skipped string | Failed string

definition is_problem :: "item_outcome \<Rightarrow> bool" where
  "is_problem o' \<longleftrightarrow> (case o' of Failed _ \<Rightarrow> True | _ \<Rightarrow> False)"

record item_report =
  ir_table :: string
  ir_outcome :: item_outcome
  ir_rows :: nat
  ir_warnings :: "string list"

record transfer_summary =
  ts_items :: "item_report list"
  ts_rows :: nat

definition summary_failures :: "transfer_summary \<Rightarrow> nat" where
  "summary_failures s = length (filter (\<lambda>i. is_problem (ir_outcome i)) (ts_items s))"

definition summary_warnings :: "transfer_summary \<Rightarrow> string list" where
  "summary_warnings s = concat (map (\<lambda>i. map (\<lambda>w. ir_table i @ '': '' @ w) (ir_warnings i)) (ts_items s))"

record plan_issue =
  pi_item :: "nat option"
  pi_message :: string

definition default_action :: "string \<Rightarrow> string list \<Rightarrow> item_action" where
  "default_action target_name target_objects =
     (if list_ex (\<lambda>x. eq_ignore_ascii_case x target_name) target_objects then Existing Append else Create)"

definition plan_actions :: "string list \<Rightarrow> string list \<Rightarrow> item_action list" where
  "plan_actions source_names target_objects = map (\<lambda>n. default_action n target_objects) source_names"

fun collisions_from :: "nat \<Rightarrow> string list \<Rightarrow> transfer_item list \<Rightarrow> (nat \<times> string) list" where
  "collisions_from i seen [] = []"
| "collisions_from i seen (item # items) =
     (if \<not> is_active item then collisions_from (i + 1) seen items
      else let key = to_ascii_lowercase (ti_target_name item) in
        if key \<in> set seen then (i, ti_target_name item) # collisions_from (i + 1) seen items
        else collisions_from (i + 1) (seen @ [key]) items)"

definition collisions :: "transfer_plan \<Rightarrow> (nat \<times> string) list" where
  "collisions plan = collisions_from 0 [] (tp_items plan)"

definition item_issues :: "nat \<Rightarrow> transfer_item \<Rightarrow> plan_issue list" where
  "item_issues i item =
     (if \<not> is_active item then []
      else (if trim (ti_target_name item) = [] then [\<lparr>pi_item = Some i, pi_message = ''the target table needs a name''\<rparr>] else [])
        @ (case ti_content item of
             Where expr \<Rightarrow> if trim expr = [] then [\<lparr>pi_item = Some i, pi_message = ''the filter is empty''\<rparr>] else []
           | _ \<Rightarrow> [])
        @ (case ti_source item of
             SourceSql s \<Rightarrow> if trim s = [] then [\<lparr>pi_item = Some i, pi_message = ''the source query is empty''\<rparr>] else []
           | _ \<Rightarrow> []))"

definition LQUOTE :: string where
  "LQUOTE = [CHR 0xE2, CHR 0x80, CHR 0x9C]"

definition RQUOTE :: string where
  "RQUOTE = [CHR 0xE2, CHR 0x80, CHR 0x9D]"

definition plan_issues :: "transfer_plan \<Rightarrow> plan_issue list" where
  "plan_issues plan =
     (if \<not> list_ex is_active (tp_items plan) then [\<lparr>pi_item = None, pi_message = ''nothing selected to transfer''\<rparr>] else [])
     @ concat (map (\<lambda>(i, item). item_issues i item) (enumerate 0 (tp_items plan)))
     @ map (\<lambda>(i, name). \<lparr>pi_item = Some i, pi_message = ''two items both write into '' @ LQUOTE @ name @ RQUOTE\<rparr>) (collisions plan)"

definition validate_plan :: "transfer_plan \<Rightarrow> plan_issue list + unit" where
  "validate_plan plan = (if plan_issues plan = [] then Inr () else Inl (plan_issues plan))"

definition plural :: "nat \<Rightarrow> string" where
  "plural n = (if n = 1 then [] else ''s'')"

definition summarize :: "transfer_plan \<Rightarrow> string" where
  "summarize plan =
     (let items = tp_items plan; active = length (filter is_active items);
          structure = length (filter (\<lambda>i. is_active i \<and> \<not> moves_rows (ti_content i)) items);
          skipped = length items - active; destructive = length (filter is_destructive items)
      in join_with ('' '' @ [CHR 0xC2, CHR 0xB7] @ '' '')
           ([show_nat active @ '' table'' @ plural active]
            @ (if 0 < structure then [show_nat structure @ '' structure only''] else [])
            @ (if 0 < skipped then [show_nat skipped @ '' skipped''] else [])
            @ (if 0 < destructive then [show_nat destructive @ '' overwritten''] else [])))"

section \<open>What a valid plan is\<close>

abbreviation target_keys :: "transfer_item list \<Rightarrow> string list" where
  "target_keys items \<equiv> map (\<lambda>i. to_ascii_lowercase (ti_target_name i)) (filter is_active items)"

lemma collisions_from_Nil:
  "collisions_from i seen items = [] \<longleftrightarrow> distinct (target_keys items) \<and> set (target_keys items) \<inter> set seen = {}"
  by (induction i seen items rule: collisions_from.induct) (auto simp: Let_def)

definition item_complete :: "transfer_item \<Rightarrow> bool" where
  "item_complete item \<longleftrightarrow> trim (ti_target_name item) \<noteq> [] \<and> (\<forall>expr. ti_content item = Where expr \<longrightarrow> trim expr \<noteq> []) \<and>
     (\<forall>s. ti_source item = SourceSql s \<longrightarrow> trim s \<noteq> [])"

lemma item_issues_Nil: "item_issues i item = [] \<longleftrightarrow> (is_active item \<longrightarrow> item_complete item)"
  by (auto simp: item_issues_def item_complete_def split: item_content.splits item_source.splits)

lemma all_issues_Nil:
  "concat (map (\<lambda>(i, item). item_issues i item) (enumerate n items)) = [] \<longleftrightarrow> list_all item_complete (filter is_active items)"
  by (induction items arbitrary: n) (auto simp: item_issues_Nil)

text \<open>
  A plan is accepted exactly when it can run: something is selected, every selected item has a target name, a
  filter where it filters and a query where it reads one, and no two selected items write into one table, names
  compared without case.
\<close>

theorem validate_plan_iff:
  "validate_plan plan = Inr () \<longleftrightarrow>
     list_ex is_active (tp_items plan) \<and> list_all item_complete (filter is_active (tp_items plan)) \<and>
     distinct (target_keys (tp_items plan))"
  using all_issues_Nil [of 0 "tp_items plan"]
  by (auto simp: validate_plan_def plan_issues_def collisions_def collisions_from_Nil split: if_splits)

section \<open>Parents before children\<close>

text \<open>The keys of the listed tables in order of first appearance, and the last spelling of each.\<close>

fun table_keys :: "string list \<Rightarrow> string list \<Rightarrow> (string \<rightharpoonup> string) \<Rightarrow> string list \<times> (string \<rightharpoonup> string)" where
  "table_keys [] order orig = (order, orig)"
| "table_keys (t # ts) order orig =
     (let k = to_ascii_lowercase t in
      table_keys ts (if orig k = None then order @ [k] else order) (orig(k \<mapsto> t)))"

definition in_scope :: "string option \<Rightarrow> string option \<Rightarrow> bool" where
  "in_scope schema s =
     (case schema of None \<Rightarrow> True | Some sc \<Rightarrow> (case s of None \<Rightarrow> True | Some x \<Rightarrow> eq_ignore_ascii_case x sc))"

definition fk_parents :: "(string \<rightharpoonup> string) \<Rightarrow> string option \<Rightarrow> fk_edge list \<Rightarrow> string \<Rightarrow> string list" where
  "fk_parents orig schema fks k =
     map (\<lambda>fk. to_ascii_lowercase (fe_to_table fk))
       (filter (\<lambda>fk. let child = to_ascii_lowercase (fe_from_table fk); parent = to_ascii_lowercase (fe_to_table fk) in
          child = k \<and> child \<noteq> parent \<and> orig child \<noteq> None \<and> orig parent \<noteq> None
          \<and> in_scope schema (fe_from_schema fk) \<and> in_scope schema (fe_to_schema fk)) fks)"

text \<open>
  One pass of the \<^verbatim>\<open>for\<close> loop and the loop around it. \<open>finished\<close> lists the emitted keys in order: the source keeps
  them as a set beside the list of their spellings.
\<close>

fun fk_pass :: "(string \<Rightarrow> string list) \<Rightarrow> string list \<Rightarrow> string list \<Rightarrow> string list" where
  "fk_pass deps [] finished = finished"
| "fk_pass deps (k # ks) finished =
     (if k \<in> set finished then fk_pass deps ks finished
      else if list_all (\<lambda>p. p \<in> set finished) (deps k) then fk_pass deps ks (finished @ [k])
      else fk_pass deps ks finished)"

lemma fk_pass_extends: "\<exists>new. fk_pass deps ks finished = finished @ new"
proof (induction deps ks finished rule: fk_pass.induct)
  case (2 deps k ks finished)
  then show ?case by (auto split: if_splits)
qed simp

function fk_loop :: "(string \<Rightarrow> string list) \<Rightarrow> string list \<Rightarrow> string list \<Rightarrow> string list" where
  "fk_loop deps order finished =
     (if length finished < length order then
        (let finished1 = fk_pass deps order finished in
         if length finished < length finished1 then fk_loop deps order finished1
         else (case find (\<lambda>k. k \<notin> set finished) order of
             Some k \<Rightarrow> fk_loop deps order (finished @ [k])
           | None \<Rightarrow> finished))
      else finished)"
  by pat_completeness auto
termination
  by (relation "measure (\<lambda>(deps, order, finished). length order - length finished)") auto

declare fk_loop.simps [simp del]

definition order_by_fk :: "string list \<Rightarrow> string option \<Rightarrow> fk_edge list \<Rightarrow> string list" where
  "order_by_fk tables schema fks =
     (case table_keys tables [] Map.empty of
        (order, orig) \<Rightarrow> map (\<lambda>k. the (orig k)) (fk_loop (fk_parents orig schema fks) order []))"

subsection \<open>Every table once\<close>

lemma table_keys_spec:
  "table_keys ts order orig = (order1, orig1) \<Longrightarrow> distinct order \<Longrightarrow> set order = dom orig \<Longrightarrow>
    (\<forall>k t. orig k = Some t \<longrightarrow> to_ascii_lowercase t = k) \<Longrightarrow>
    distinct order1 \<and> set order1 = dom orig1 \<and> dom orig1 = dom orig \<union> to_ascii_lowercase ` set ts \<and>
    (\<forall>k t. orig1 k = Some t \<longrightarrow> to_ascii_lowercase t = k)"
proof (induction ts order orig rule: table_keys.induct)
  case (2 t ts order orig)
  let ?k = "to_ascii_lowercase t"
  let ?order = "if orig ?k = None then order @ [?k] else order" and ?orig = "orig(?k \<mapsto> t)"
  have run: "table_keys ts ?order ?orig = (order1, orig1)" using "2.prems"(1) by (simp add: Let_def)
  have dom: "distinct ?order" "set ?order = dom ?orig" using "2.prems"(2,3) by auto
  have low: "\<forall>k u. ?orig k = Some u \<longrightarrow> to_ascii_lowercase u = k" using "2.prems"(4) unfolding fun_upd_def by (metis option.inject)
  have "dom ?orig \<union> to_ascii_lowercase ` set ts = dom orig \<union> to_ascii_lowercase ` set (t # ts)" by simp
  with "2.IH" [OF refl run dom low] show ?case by metis
qed simp

lemma fk_pass_inv:
  "distinct finished \<Longrightarrow> distinct (fk_pass deps ks finished) \<and> set (fk_pass deps ks finished) \<subseteq> set finished \<union> set ks"
  by (induction deps ks finished rule: fk_pass.induct) auto

lemma fk_loop_permutes:
  "distinct order \<Longrightarrow> distinct finished \<Longrightarrow> set finished \<subseteq> set order \<Longrightarrow>
    distinct (fk_loop deps order finished) \<and> set (fk_loop deps order finished) = set order"
proof (induction deps order finished rule: fk_loop.induct)
  case (1 deps order finished)
  let ?pass = "fk_pass deps order finished"
  show ?case
  proof (cases "length finished < length order")
    case True
    have pass: "distinct ?pass" "set ?pass \<subseteq> set order" using fk_pass_inv [of finished deps order] "1.prems" by auto
    show ?thesis
    proof (cases "length finished < length ?pass")
      case more: True
      then have "fk_loop deps order finished = fk_loop deps order ?pass" using True by (simp add: fk_loop.simps [of deps order finished])
      with "1.IH"(1) [OF True refl more "1.prems"(1) pass] show ?thesis by simp
    next
      case False
      have "card (set finished) < card (set order)" using True "1.prems" by (simp add: distinct_card)
      then have "\<not> set order \<subseteq> set finished" by (metis List.finite_set card_mono leD)
      then obtain k where k: "find (\<lambda>k. k \<notin> set finished) order = Some k"
        by (cases "find (\<lambda>k. k \<notin> set finished) order") (auto simp: find_None_iff)
      then have "k \<in> set order" "k \<notin> set finished" by (auto simp: find_Some_iff)
      moreover have "fk_loop deps order finished = fk_loop deps order (finished @ [k])"
        using True False k by (simp add: fk_loop.simps [of deps order finished])
      ultimately show ?thesis using "1.IH"(2) [OF True refl False k] "1.prems" by simp
    qed
  next
    case False
    have "set finished = set order"
      using False "1.prems" by (metis List.finite_set card_seteq distinct_card not_le)
    with False "1.prems" show ?thesis by (simp add: fk_loop.simps)
  qed
qed

lemma order_spec:
  assumes "table_keys tables [] Map.empty = (order, orig)"
  shows "distinct order" "set order = dom orig" "dom orig = to_ascii_lowercase ` set tables"
    "\<forall>k t. orig k = Some t \<longrightarrow> to_ascii_lowercase t = k"
  using table_keys_spec [OF assms] by simp_all

lemma fk_loop_keys:
  assumes "table_keys tables [] Map.empty = (order, orig)"
  shows "map to_ascii_lowercase (order_by_fk tables schema fks) = fk_loop (fk_parents orig schema fks) order []"
    (is "_ = ?out")
proof -
  have "set ?out = dom orig" using fk_loop_permutes [OF order_spec(1) [OF assms], of "[]"] order_spec(2) [OF assms] by simp
  then show ?thesis using order_spec(4) [OF assms] by (auto simp: order_by_fk_def assms intro!: map_idI)
qed

lemma order_by_fk_keys:
  "distinct (map to_ascii_lowercase (order_by_fk tables schema fks)) \<and>
   set (map to_ascii_lowercase (order_by_fk tables schema fks)) = to_ascii_lowercase ` set tables"
proof -
  obtain order orig where keys: "table_keys tables [] Map.empty = (order, orig)" by (cases "table_keys tables [] Map.empty")
  show ?thesis using fk_loop_permutes [OF order_spec(1) [OF keys], of "[]"] order_spec [OF keys] by (simp add: fk_loop_keys [OF keys])
qed

subsection \<open>Parents first\<close>

definition parents_first :: "(string \<Rightarrow> string list) \<Rightarrow> string list \<Rightarrow> bool" where
  "parents_first deps finished \<longleftrightarrow> (\<forall>xs k ys. finished = xs @ k # ys \<longrightarrow> set (deps k) \<subseteq> set xs)"

lemma parents_first_Nil [simp]: "parents_first deps []"
  by (simp add: parents_first_def)

lemma parents_first_snoc: "parents_first deps finished \<Longrightarrow> set (deps k) \<subseteq> set finished \<Longrightarrow> parents_first deps (finished @ [k])"
  unfolding parents_first_def by (metis append_eq_Cons_conv append_eq_append_conv2 append_is_Nil_conv butlast.simps(2) butlast_append butlast_snoc last_snoc list.distinct(1) list.inject last_appendR last_ConsL last_ConsR)

lemma fk_pass_parents_first: "parents_first deps finished \<Longrightarrow> parents_first deps (fk_pass deps ks finished)"
  by (induction deps ks finished rule: fk_pass.induct) (auto simp: list_all_iff intro: parents_first_snoc)

lemma fk_pass_length: "length finished \<le> length (fk_pass deps ks finished)"
  using fk_pass_extends [of deps ks finished] by auto

lemma fk_pass_stuck:
  "length (fk_pass deps ks finished) = length finished \<Longrightarrow> k \<in> set ks \<Longrightarrow> k \<notin> set finished \<Longrightarrow>
    \<exists>p \<in> set (deps k). p \<notin> set finished"
proof (induction deps ks finished rule: fk_pass.induct)
  case (2 deps k' ks finished)
  show ?case
  proof (cases "k' \<notin> set finished \<and> list_all (\<lambda>p. p \<in> set finished) (deps k')")
    case True
    then show ?thesis using "2.prems"(1) fk_pass_length [of "finished @ [k']" deps ks] by simp
  next
    case False
    with 2 show ?thesis by (auto simp: list_all_iff split: if_splits)
  qed
qed simp

lemma acyclic_pass_progresses:
  assumes rank: "\<forall>k \<in> set order. \<forall>p \<in> set (deps k). p \<in> set order \<and> rank p < (rank k :: nat)"
    and left: "k \<in> set order" "k \<notin> set finished"
  shows "length finished < length (fk_pass deps order finished)"
proof (rule ccontr)
  assume "\<not> ?thesis"
  then have stuck: "length (fk_pass deps order finished) = length finished" using fk_pass_length [of finished deps order] by simp
  have "k \<in> set order \<Longrightarrow> k \<in> set finished" for k
  proof (induction "rank k" arbitrary: k rule: less_induct)
    case less
    show ?case
    proof (rule ccontr)
      assume "k \<notin> set finished"
      then obtain q where "q \<in> set (deps k)" "q \<notin> set finished" using fk_pass_stuck [OF stuck less.prems] by blast
      with less rank show False by blast
    qed
  qed
  with left show False by blast
qed

lemma fk_loop_parents_first:
  "\<forall>k \<in> set order. \<forall>p \<in> set (deps k). p \<in> set order \<and> rank p < (rank k :: nat) \<Longrightarrow> distinct order \<Longrightarrow> distinct finished \<Longrightarrow>
    set finished \<subseteq> set order \<Longrightarrow> parents_first deps finished \<Longrightarrow> parents_first deps (fk_loop deps order finished)"
proof (induction deps order finished rule: fk_loop.induct)
  case (1 deps order finished)
  let ?pass = "fk_pass deps order finished"
  show ?case
  proof (cases "length finished < length order")
    case True
    have "card (set finished) < card (set order)" using True "1.prems" by (simp add: distinct_card)
    then obtain k where "k \<in> set order" "k \<notin> set finished" by (metis List.finite_set card_mono leD subsetI)
    then have grow: "length finished < length ?pass" by (rule acyclic_pass_progresses [OF "1.prems"(1)])
    then have "fk_loop deps order finished = fk_loop deps order ?pass" using True by (simp add: fk_loop.simps [of deps order finished])
    moreover have "distinct ?pass" "set ?pass \<subseteq> set order" using fk_pass_inv [of finished deps order] "1.prems" by auto
    ultimately show ?thesis using "1.IH"(1) [OF True refl grow] "1.prems" fk_pass_parents_first by simp
  next
    case False
    with "1.prems" show ?thesis by (simp add: fk_loop.simps)
  qed
qed

lemma in_fk_parents:
  "p \<in> set (fk_parents orig schema fks k) \<longleftrightarrow>
     (\<exists>e \<in> set fks. to_ascii_lowercase (fe_to_table e) = p \<and> to_ascii_lowercase (fe_from_table e) = k \<and> k \<noteq> p \<and>
        k \<in> dom orig \<and> p \<in> dom orig \<and> in_scope schema (fe_from_schema e) \<and> in_scope schema (fe_to_schema e))"
  by (auto simp: fk_parents_def Let_def)

text \<open>
  C39. Where the foreign keys have no cycle other than a table referring to itself, a table comes after every other
  listed table it refers to.
\<close>

theorem order_by_fk_parents_first:
  assumes acyclic: "\<And>e. e \<in> set fks \<Longrightarrow> to_ascii_lowercase (fe_from_table e) \<noteq> to_ascii_lowercase (fe_to_table e) \<Longrightarrow>
      rank (to_ascii_lowercase (fe_to_table e)) < (rank (to_ascii_lowercase (fe_from_table e)) :: nat)"
    and listed: "order_by_fk tables schema fks = before @ child # after"
    and edge: "e \<in> set fks" "in_scope schema (fe_from_schema e)" "in_scope schema (fe_to_schema e)"
      "to_ascii_lowercase (fe_from_table e) = to_ascii_lowercase child"
      "to_ascii_lowercase (fe_to_table e) \<noteq> to_ascii_lowercase child"
      "to_ascii_lowercase (fe_to_table e) \<in> set (map to_ascii_lowercase tables)"
  shows "to_ascii_lowercase (fe_to_table e) \<in> set (map to_ascii_lowercase before)"
proof -
  obtain order orig where keys: "table_keys tables [] Map.empty = (order, orig)" by (cases "table_keys tables [] Map.empty")
  note spec = order_spec [OF keys] and out = fk_loop_keys [OF keys, of schema fks]
  let ?deps = "fk_parents orig schema fks"
  have "parents_first ?deps (fk_loop ?deps order [])"
  proof (rule fk_loop_parents_first [where rank = rank])
    show "\<forall>k \<in> set order. \<forall>p \<in> set (?deps k). p \<in> set order \<and> rank p < rank k"
    proof (intro ballI)
      fix k p
      assume "p \<in> set (?deps k)"
      then obtain x where x: "x \<in> set fks" "to_ascii_lowercase (fe_to_table x) = p" "to_ascii_lowercase (fe_from_table x) = k" "k \<noteq> p" "p \<in> dom orig"
        unfolding in_fk_parents by blast
      then have "rank p < rank k" using acyclic [of x] by simp
      with x spec(2) show "p \<in> set order \<and> rank p < rank k" by simp
    qed
  qed (use spec in simp_all)
  moreover have "fk_loop ?deps order [] = map to_ascii_lowercase before @ to_ascii_lowercase child # map to_ascii_lowercase after"
    using out listed by simp
  ultimately have "set (?deps (to_ascii_lowercase child)) \<subseteq> set (map to_ascii_lowercase before)"
    unfolding parents_first_def by blast
  moreover have "to_ascii_lowercase child \<in> dom orig" using order_by_fk_keys [of tables schema fks] listed spec by auto
  then have "to_ascii_lowercase (fe_to_table e) \<in> set (?deps (to_ascii_lowercase child))"
    unfolding in_fk_parents using edge spec(3) by (metis set_map)
  ultimately show ?thesis by blast
qed

text \<open>Orders of customers, listed child first, beside a table that refers to itself.\<close>

theorem order_by_fk_parents_first_witness:
  "to_ascii_lowercase ''Customers'' \<in> set (map to_ascii_lowercase [''Staff'', ''customers''])"
proof -
  let ?edge = "\<lambda>a b. \<lparr>fe_from_schema = None, fe_from_table = a, fe_to_schema = None, fe_to_table = b, fe_columns = [(''id'', ''id'')]\<rparr>"
  let ?fks = "[?edge ''orders'' ''Customers'', ?edge ''Staff'' ''staff'']"
  have order: "order_by_fk [''Orders'', ''Staff'', ''customers''] None ?fks = [''Staff'', ''customers''] @ ''Orders'' # []" by code_simp
  have keys: "to_ascii_lowercase ''orders'' = ''orders''" "to_ascii_lowercase ''Orders'' = ''orders''"
    "to_ascii_lowercase ''Customers'' = ''customers''" "to_ascii_lowercase ''customers'' = ''customers''"
    "to_ascii_lowercase ''Staff'' = ''staff''" "to_ascii_lowercase ''staff'' = ''staff''" by code_simp+
  show ?thesis
    using order_by_fk_parents_first [of ?fks "\<lambda>k. if k = ''orders'' then 1 else 0", OF _ order, of "?edge ''orders'' ''Customers''"]
    by (auto simp: keys in_scope_def)
qed

section \<open>The order of the items\<close>

definition table_slots :: "transfer_item list \<Rightarrow> (nat \<times> string) list" where
  "table_slots items =
     List.map_filter (\<lambda>(i, item). case ti_source item of SourceTable _ name \<Rightarrow> Some (i, name) | _ \<Rightarrow> None) (enumerate 0 items)"

definition query_indices :: "transfer_item list \<Rightarrow> nat list" where
  "query_indices items =
     List.map_filter (\<lambda>(i, item). case ti_source item of SourceTable _ _ \<Rightarrow> None | _ \<Rightarrow> Some i) (enumerate 0 items)"

fun fill_slots :: "string list \<Rightarrow> string list \<Rightarrow> bool list \<Rightarrow> nat list \<Rightarrow> bool list \<times> nat list" where
  "fill_slots names [] used slots = (used, slots)"
| "fill_slots names (name # ordered) used slots =
     (case find (\<lambda>s. \<not> used ! s \<and> eq_ignore_ascii_case (names ! s) name) [0..<length names] of
        Some s \<Rightarrow> fill_slots names ordered (used[s := True]) (slots @ [s])
      | None \<Rightarrow> fill_slots names ordered used slots)"

definition order_items :: "transfer_plan \<Rightarrow> fk_edge list \<Rightarrow> nat list" where
  "order_items plan fks =
     (let tables = table_slots (tp_items plan); table_indices = map fst tables; names = map snd tables;
          ordered = order_by_fk names (tp_source_namespace plan) fks
      in case fill_slots names ordered (replicate (length names) False) [] of
           (used, slots) \<Rightarrow>
             map ((!) table_indices) slots
             @ map ((!) table_indices) (filter (\<lambda>s. \<not> used ! s) [0..<length table_indices])
             @ query_indices (tp_items plan))"

lemma fill_slots_inv:
  "fill_slots names ordered used slots = (used1, slots1) \<Longrightarrow> length used = length names \<Longrightarrow> distinct slots \<Longrightarrow>
    set slots = {s. s < length names \<and> used ! s} \<Longrightarrow>
    distinct slots1 \<and> set slots1 = {s. s < length names \<and> used1 ! s}"
proof (induction names ordered used slots rule: fill_slots.induct)
  case (2 names name ordered used slots)
  show ?case
  proof (cases "find (\<lambda>s. \<not> used ! s \<and> eq_ignore_ascii_case (names ! s) name) [0..<length names]")
    case None
    with 2 show ?thesis by simp
  next
    case (Some s)
    then have s: "s < length names" "\<not> used ! s" by (auto simp: find_Some_iff)
    have "set (slots @ [s]) = {r. r < length names \<and> used[s := True] ! r}" using s "2.prems" by (auto simp: nth_list_update)
    with Some s "2.prems" "2.IH"(2) [OF Some] show ?thesis by simp
  qed
qed simp

lemma indices_partition: "mset (map fst (table_slots items) @ query_indices items) = mset [0..<length items]"
proof -
  have "mset (map fst (List.map_filter (\<lambda>(i, item). case ti_source item of SourceTable _ name \<Rightarrow> Some (i, name) | _ \<Rightarrow> None) ps)
      @ List.map_filter (\<lambda>(i, item). case ti_source item of SourceTable _ _ \<Rightarrow> None | _ \<Rightarrow> Some i) ps) = mset (map fst ps)"
    for ps :: "(nat \<times> transfer_item) list"
    by (induction ps) (auto simp: List.map_filter_simps split: item_source.splits)
  from this [of "enumerate 0 items"] show ?thesis by (simp add: table_slots_def query_indices_def)
qed

lemma order_items_mset: "mset (order_items plan fks) = mset [0..<length (tp_items plan)]"
proof -
  define tables where "tables = table_slots (tp_items plan)"
  define names where "names = map snd tables"
  define ids where "ids = map fst tables"
  have len: "length ids = length names" by (simp add: ids_def names_def)
  obtain used slots where run: "fill_slots names (order_by_fk names (tp_source_namespace plan) fks) (replicate (length names) False) [] = (used, slots)"
    by (cases "fill_slots names (order_by_fk names (tp_source_namespace plan) fks) (replicate (length names) False) []")
  have "distinct slots \<and> set slots = {s. s < length names \<and> used ! s}" by (rule fill_slots_inv [OF run]) simp_all
  then have slots: "distinct slots" "s \<in> set slots \<longleftrightarrow> s < length names \<and> used ! s" for s by simp_all
  let ?rest = "filter (\<lambda>s. \<not> used ! s) [0..<length names]"
  have distinct: "distinct (slots @ ?rest)" using slots(1) by (auto simp: slots(2))
  have "set (slots @ ?rest) = set [0..<length names]" by (auto simp: slots(2))
  then have "mset (slots @ ?rest) = mset [0..<length names]" using set_eq_iff_mset_eq_distinct [OF distinct distinct_upt] by blast
  then have "mset (map ((!) ids) (slots @ ?rest)) = mset (map ((!) ids) [0..<length names])" by (simp only: mset_map)
  also have "\<dots> = mset ids" using len map_nth [of ids] by simp
  finally have "mset (map ((!) ids) (slots @ ?rest) @ query_indices (tp_items plan)) = mset (ids @ query_indices (tp_items plan))"
    by (simp only: mset_append)
  also have "\<dots> = mset [0..<length (tp_items plan)]" using indices_partition by (simp add: ids_def tables_def)
  finally show ?thesis
    unfolding order_items_def Let_def tables_def [symmetric] names_def [symmetric] ids_def [symmetric] len run by simp
qed

text \<open>
  The execution order takes every item of the plan exactly once: none is lost, none runs twice, also where several
  items read one table or the foreign keys form a cycle.
\<close>

theorem order_items_is_a_permutation: "mset (order_items plan fks) = mset [0..<length (tp_items plan)]"
  by (rule order_items_mset)

lemma order_items_spec:
  "distinct (order_items plan fks) \<and> set (order_items plan fks) = {..<length (tp_items plan)}
    \<and> length (order_items plan fks) = length (tp_items plan)"
  using order_items_mset [of plan fks]
  by (metis atLeast_upt distinct_upt length_upt minus_nat.diff_0 mset_eq_imp_distinct_iff mset_eq_length mset_eq_setD)

text \<open>
  What the comment in \<open>order_items\<close> takes for impossible: of two names that differ only in case, \<open>order_by_fk\<close> keeps
  one, the last. \<open>order_items\<close> recovers the other item; the schema migration, which runs the list as it is, loses
  its table.
\<close>

theorem order_by_fk_drops_case_variants: "order_by_fk [''Users'', ''users''] schema [] = [''users'']"
proof -
  have parents: "fk_parents orig schema [] = (\<lambda>_. [])" for orig :: "string \<rightharpoonup> string" by (rule ext) (simp add: fk_parents_def)
  have "fk_loop (\<lambda>_. []) [''users''] [] = [''users'']" by code_simp
  moreover have "to_ascii_lowercase ''Users'' = ''users''" "to_ascii_lowercase ''users'' = ''users''" by code_simp+
  ultimately show ?thesis by (simp add: order_by_fk_def parents Let_def)
qed

end
