(* ===== verification/Transfer_Run.thy ===== *)
theory Transfer_Run
  imports Transfer_Plan
begin

text \<open>
  The transfer executor (\<^verbatim>\<open>crates/red-service/src/dispatch/transfer.rs\<close>) with the streaming loop of
  \<^verbatim>\<open>dispatch/jobs.rs\<close>. The two drivers are arguments: records of operations on an abstract world, which also holds
  the cancel flag and the event channel. A cursor is a handle, its position part of the world, so that a driver may
  answer each call as it likes. A program maps a world to a result and a new world, or to nothing if it never returns.
\<close>

section \<open>Programs over a world\<close>

type_synonym ('w, 'a) prog = "'w \<Rightarrow> ('a \<times> 'w) option"

definition ret :: "'a \<Rightarrow> ('w, 'a) prog" where
  "ret a w = Some (a, w)"

definition act :: "('w \<Rightarrow> 'a \<times> 'w) \<Rightarrow> ('w, 'a) prog" where
  "act f w = Some (f w)"

definition bnd :: "('w, 'a) prog \<Rightarrow> ('a \<Rightarrow> ('w, 'b) prog) \<Rightarrow> ('w, 'b) prog" where
  "bnd m f w = (case m w of None \<Rightarrow> None | Some (a, w1) \<Rightarrow> f a w1)"

section \<open>Drivers, the job and its outcome\<close>

type_synonym ('w, 'a) call = "'w \<Rightarrow> (red_error + 'a) \<times> 'w"
type_synonym row_window = "db_value list list \<times> bool"

record ('w, 'c) db_driver =
  dr_quote_ident :: "string \<Rightarrow> string"
  dr_quote_table :: "table_ref \<Rightarrow> string"
  dr_foreign_keys :: "('w, fk_edge list) call"
  dr_describe_table :: "string \<Rightarrow> string \<Rightarrow> ('w, table_detail) call"
  dr_list_objects :: "('w, (string \<times> string list) list) call"
  dr_open_cursor :: "string \<Rightarrow> ('w, 'c) call"
  dr_columns :: "'c \<Rightarrow> column_decl list"
  dr_next_window :: "'c \<Rightarrow> ('w, row_window) call"
  dr_count :: "string \<Rightarrow> ('w, int) call"
  dr_create_table :: "table_ref \<Rightarrow> column_meta list \<Rightarrow> ('w, unit) call"
  dr_drop_table :: "table_ref \<Rightarrow> ('w, unit) call"
  dr_clear_table :: "table_ref \<Rightarrow> ('w, unit) call"
  dr_insert_rows :: "table_ref \<Rightarrow> column_decl list \<Rightarrow> db_value list list \<Rightarrow> ('w, nat) call"
  dr_create_index :: "table_ref \<Rightarrow> string \<Rightarrow> bool \<Rightarrow> string list \<Rightarrow> ('w, unit) call"
  dr_add_foreign_key :: "table_ref \<Rightarrow> string list \<Rightarrow> table_ref \<Rightarrow> string list \<Rightarrow> ('w, unit) call"

datatype transfer_event =
    TransferProgress nat nat string nat nat
  | TransferItemDone nat item_report
  | CopyProgress nat

record ('w, 'c) transfer_ctx =
  tj_src :: "('w, 'c) db_driver"
  tj_dst :: "('w, 'c) db_driver"
  tj_src_kind :: db_kind
  tj_dst_kind :: db_kind
  tj_plan :: transfer_plan
  tj_result_sql :: "nat \<rightharpoonup> string"
  tj_cancelled :: "'w \<Rightarrow> bool \<times> 'w"
  tj_emit :: "transfer_event \<Rightarrow> 'w \<Rightarrow> 'w"

datatype transfer_outcome =
    Finished transfer_summary
  | TransferFailed "nat option" string transfer_summary
  | Cancelled transfer_summary
  | Planned string "(string \<times> nat option) list"

record resolved_item =
  rs_select_sql :: "string option"
  rs_create_columns :: "column_meta list"
  rs_detail :: "table_detail option"
  rs_warnings :: "string list"

datatype resolve_outcome = ResolveSkip string | ResolveFailed string

datatype item_failure = FailCancelled nat | FailError nat string

definition emit_event :: "('w, 'c) transfer_ctx \<Rightarrow> transfer_event \<Rightarrow> ('w, unit) prog" where
  "emit_event job e = act (\<lambda>w. ((), tj_emit job e w))"

definition target_ref :: "('w, 'c) transfer_ctx \<Rightarrow> transfer_item \<Rightarrow> table_ref" where
  "target_ref job item = \<lparr>tr_schema = tp_target_namespace (tj_plan job), tr_name = ti_target_name item\<rparr>"

definition or_else :: "'a option \<Rightarrow> 'a option \<Rightarrow> 'a option" where
  "or_else a b = (case a of Some x \<Rightarrow> Some x | None \<Rightarrow> b)"

definition source_ref :: "('w, 'c) transfer_ctx \<Rightarrow> transfer_item \<Rightarrow> table_ref option" where
  "source_ref job item =
     (case ti_source item of
        SourceTable schema name \<Rightarrow> Some \<lparr>tr_schema = or_else schema (tp_source_namespace (tj_plan job)), tr_name = name\<rparr>
      | _ \<Rightarrow> None)"

definition schema_text :: "table_ref \<Rightarrow> string" where
  "schema_text t = (case tr_schema t of Some s \<Rightarrow> s | None \<Rightarrow> [])"

section \<open>Streaming a cursor into a table\<close>

definition project_row :: "column_map list \<Rightarrow> db_value list \<Rightarrow> db_value list" where
  "project_row mapping row = map (\<lambda>m. if mp_source m < length row then row ! mp_source m else Null) mapping"

partial_function (option) stream_loop ::
  "('w \<Rightarrow> bool \<times> 'w) \<Rightarrow> ('w, row_window) call \<Rightarrow> (db_value list list \<Rightarrow> ('w, nat) call) \<Rightarrow> (nat \<Rightarrow> 'w \<Rightarrow> 'w)
     \<Rightarrow> column_map list \<Rightarrow> nat \<Rightarrow> nat \<Rightarrow> 'w \<Rightarrow> (import_result \<times> 'w) option"
where
  "stream_loop cancelled window ins progress mapping base committed w =
     (case cancelled w of (stop, w1) \<Rightarrow>
        if stop then Some ((committed, Some Interrupted), w1)
        else (case window w1 of (answer, w2) \<Rightarrow>
          (case answer of
             Inl e \<Rightarrow> Some ((committed, Some e), w2)
           | Inr read \<Rightarrow>
               if fst read = [] then
                 (if snd read then Some ((committed, None), w2)
                  else stream_loop cancelled window ins progress mapping base committed w2)
               else
                 (case ins (map (project_row mapping) (fst read)) w2 of (inserted, w3) \<Rightarrow>
                   (case inserted of
                      Inl e \<Rightarrow> Some ((committed, Some e), w3)
                    | Inr n \<Rightarrow>
                        if snd read then Some ((committed + n, None), progress (base + (committed + n)) w3)
                        else stream_loop cancelled window ins progress mapping base (committed + n)
                               (progress (base + (committed + n)) w3))))))"

declare stream_loop.simps [code]

definition stream_cursor_into ::
  "('w, 'c) db_driver \<Rightarrow> 'c \<Rightarrow> ('w, 'c) db_driver \<Rightarrow> table_ref \<Rightarrow> column_map list \<Rightarrow> column_decl list \<Rightarrow> ('w \<Rightarrow> bool \<times> 'w)
     \<Rightarrow> nat \<Rightarrow> (nat \<Rightarrow> 'w \<Rightarrow> 'w) \<Rightarrow> ('w, import_result) prog"
where
  "stream_cursor_into src cursor dst target mapping target_columns cancelled base progress =
     stream_loop cancelled (dr_next_window src cursor) (dr_insert_rows dst target target_columns) progress mapping base 0"

definition stream_into ::
  "('w, 'c) db_driver \<Rightarrow> ('w, 'c) db_driver \<Rightarrow> string \<Rightarrow> table_ref \<Rightarrow> column_map list \<Rightarrow> column_decl list \<Rightarrow> ('w \<Rightarrow> bool \<times> 'w)
     \<Rightarrow> nat \<Rightarrow> (nat \<Rightarrow> 'w \<Rightarrow> 'w) \<Rightarrow> ('w, import_result) prog"
where
  "stream_into src dst source_sql target mapping target_columns cancelled base progress =
     bnd (act (dr_open_cursor src source_sql)) (\<lambda>r. case r of
       Inl e \<Rightarrow> ret (0, Some e)
     | Inr cursor \<Rightarrow> stream_cursor_into src cursor dst target mapping target_columns cancelled base progress)"

section \<open>What an item resolves to\<close>

definition shape_columns :: "('w, 'c) transfer_ctx \<Rightarrow> column_meta list \<Rightarrow> column_meta list \<times> string list" where
  "shape_columns job columns =
     (let same = tj_src_kind job = tj_dst_kind job;
          dropped = map cm_name (filter (\<lambda>c. cm_default c \<noteq> None \<and> \<not> cm_auto_increment c) columns)
      in (apply_shape_options (if same then columns else strip_defaults columns) (to_primary_keys (tp_options (tj_plan job))),
          if same \<or> dropped = [] then []
          else [''column defaults dropped (source and target are different engines): '' @ join_with '', '' dropped]))"

definition plain_column :: "column_decl \<Rightarrow> column_meta" where
  "plain_column c =
     \<lparr>cm_name = col_name c, cm_type = col_decl_type c, cm_not_null = False, cm_primary_key = False, cm_default = None,
      cm_auto_increment = False\<rparr>"

definition wrapped_query :: "item_content \<Rightarrow> string \<Rightarrow> string" where
  "wrapped_query content q =
     (case content of
        Where expr \<Rightarrow> if trim expr \<noteq> [] then ''SELECT * FROM ('' @ q @ '') AS _red_src WHERE ('' @ expr @ '')'' else q
      | Limit n \<Rightarrow> if 0 < n then ''SELECT * FROM ('' @ q @ '') AS _red_src LIMIT '' @ show_nat n else q
      | _ \<Rightarrow> q)"

definition open_query_source ::
  "('w, 'c) transfer_ctx \<Rightarrow> transfer_item \<Rightarrow> string \<Rightarrow> ('w, resolve_outcome + (resolved_item \<times> 'c option)) prog" where
  "open_query_source job item q =
     (let sql = wrapped_query (ti_content item) q in
      bnd (act (dr_open_cursor (tj_src job) sql)) (\<lambda>r. case r of
        Inl e \<Rightarrow> ret (Inl (ResolveFailed (red_error_text e)))
      | Inr cursor \<Rightarrow>
          (let columns = map plain_column (dr_columns (tj_src job) cursor) in
           if columns = [] then ret (Inl (ResolveSkip ''the source has no columns''))
           else (case shape_columns job columns of (create_columns, warnings) \<Rightarrow>
             ret (Inr (\<lparr>rs_select_sql = Some sql, rs_create_columns = create_columns, rs_detail = None, rs_warnings = warnings\<rparr>,
                  Some cursor))))))"

definition resolve_item ::
  "('w, 'c) transfer_ctx \<Rightarrow> transfer_item \<Rightarrow> ('w, resolve_outcome + (resolved_item \<times> 'c option)) prog" where
  "resolve_item job item =
     (case ti_source item of
        SourceTable _ _ \<Rightarrow>
          (case source_ref job item of
             None \<Rightarrow> ret (Inl (ResolveFailed ''no source table''))
           | Some source \<Rightarrow>
               bnd (act (dr_describe_table (tj_src job) (schema_text source) (tr_name source))) (\<lambda>r. case r of
                 Inl e \<Rightarrow> ret (Inl (ResolveFailed (red_error_text e)))
               | Inr detail \<Rightarrow>
                   (if td_columns detail = [] then ret (Inl (ResolveSkip ''the source has no columns to create from''))
                    else (case shape_columns job (td_columns detail) of (create_columns, warnings) \<Rightarrow>
                      ret (Inr (\<lparr>rs_select_sql = select_sql (ti_content item) (dr_quote_table (tj_src job) source),
                                 rs_create_columns = create_columns, rs_detail = Some detail, rs_warnings = warnings\<rparr>, None))))))
      | SourceResult epoch \<Rightarrow>
          (case tj_result_sql job epoch of
             None \<Rightarrow> ret (Inl (ResolveFailed ''the source result is no longer open''))
           | Some sql \<Rightarrow> open_query_source job item sql)
      | SourceSql text \<Rightarrow>
          (let sql = trim text in
           if sql = [] then ret (Inl (ResolveFailed ''the source query is empty'')) else open_query_source job item sql))"

definition identity_mapping :: "column_decl list \<Rightarrow> column_map list" where
  "identity_mapping columns =
     map (\<lambda>(i, c). \<lparr>mp_source = i, mp_column = col_name c, mp_decl = col_decl_type c\<rparr>) (enumerate 0 columns)"

definition column_position :: "column_decl list \<Rightarrow> string \<Rightarrow> nat option" where
  "column_position columns name = find (\<lambda>i. eq_ignore_ascii_case (col_name (columns ! i)) name) [0..<length columns]"

definition matched_mapping :: "column_decl list \<Rightarrow> column_meta list \<Rightarrow> column_map list" where
  "matched_mapping source_columns target_columns =
     List.map_filter (\<lambda>t. map_option (\<lambda>i. \<lparr>mp_source = i, mp_column = cm_name t, mp_decl = cm_type t\<rparr>)
       (column_position source_columns (cm_name t))) target_columns"

definition mapping_warnings :: "column_decl list \<Rightarrow> column_meta list \<Rightarrow> string list" where
  "mapping_warnings source_columns target_columns =
     (let mapping = matched_mapping source_columns target_columns;
          unmatched = map cm_name (filter (\<lambda>t. column_position source_columns (cm_name t) = None) target_columns);
          ignored = map (col_name \<circ> snd) (filter (\<lambda>(i, _). \<not> list_ex (\<lambda>m. mp_source m = i) mapping) (enumerate 0 source_columns))
      in (if unmatched = [] then [] else [''target columns left to their default: '' @ join_with '', '' unmatched])
         @ (if ignored = [] then [] else [''source columns ignored: '' @ join_with '', '' ignored]))"

definition resolve_mapping ::
  "('w, 'c) transfer_ctx \<Rightarrow> transfer_item \<Rightarrow> table_ref \<Rightarrow> column_decl list \<Rightarrow> ('w, string + (column_map list \<times> string list)) prog" where
  "resolve_mapping job item target source_columns =
     (if ti_mapping item \<noteq> [] then ret (Inr (ti_mapping item, []))
      else (case ti_action item of
        Existing _ \<Rightarrow>
          bnd (act (dr_describe_table (tj_dst job) (schema_text target) (tr_name target))) (\<lambda>r. case r of
            Inl e \<Rightarrow> ret (Inl (red_error_text e))
          | Inr detail \<Rightarrow> ret (Inr (matched_mapping source_columns (td_columns detail), mapping_warnings source_columns (td_columns detail))))
      | _ \<Rightarrow> ret (Inr (identity_mapping source_columns, []))))"

section \<open>One item\<close>

definition prepare_target ::
  "('w, 'c) transfer_ctx \<Rightarrow> transfer_item \<Rightarrow> table_ref \<Rightarrow> column_meta list \<Rightarrow> ('w, red_error + unit) prog" where
  "prepare_target job item target columns =
     bnd (if ti_action item = Recreate then act (dr_drop_table (tj_dst job) target) else ret (Inr ())) (\<lambda>r. case r of
       Inl e \<Rightarrow> ret (Inl e)
     | Inr _ \<Rightarrow>
     bnd (if ti_action item = Create \<or> ti_action item = Recreate then act (dr_create_table (tj_dst job) target columns) else ret (Inr ())) (\<lambda>r. case r of
       Inl e \<Rightarrow> ret (Inl e)
     | Inr _ \<Rightarrow>
     (if ti_action item = Existing TruncateInsert then act (dr_clear_table (tj_dst job) target) else ret (Inr ()))))"

definition item_progress :: "('w, 'c) transfer_ctx \<Rightarrow> nat \<Rightarrow> nat \<Rightarrow> string \<Rightarrow> nat \<Rightarrow> nat \<Rightarrow> 'w \<Rightarrow> 'w" where
  "item_progress job position items table base rows = tj_emit job (TransferProgress position items table (rows - base) rows)"

definition move_rows ::
  "('w, 'c) transfer_ctx \<Rightarrow> transfer_item \<Rightarrow> table_ref \<Rightarrow> resolved_item \<Rightarrow> 'c option \<Rightarrow> column_map list \<Rightarrow> nat \<Rightarrow> nat \<Rightarrow> nat
     \<Rightarrow> ('w, item_failure + nat) prog"
where
  "move_rows job item target resolved cursor mapping position items base =
     (if \<not> moves_rows (ti_content item) then ret (Inr 0)
      else if mapping = [] then
        ret (Inl (FailError 0 (''no source columns map onto '' @ LQUOTE @ ti_target_name item @ RQUOTE)))
      else
        (let target_columns = map (\<lambda>m. \<lparr>col_name = mp_column m, col_decl_type = mp_decl m\<rparr>) mapping;
             progress = item_progress job position items (ti_target_name item) base;
             finish = (\<lambda>(rows, err). case err of
               None \<Rightarrow> ret (Inr rows)
             | Some Interrupted \<Rightarrow> ret (Inl (FailCancelled rows))
             | Some e \<Rightarrow> ret (Inl (FailError rows (red_error_text e))))
         in case cursor of
              Some c \<Rightarrow> bnd (stream_cursor_into (tj_src job) c (tj_dst job) target mapping target_columns (tj_cancelled job) base progress) finish
            | None \<Rightarrow>
                (case rs_select_sql resolved of
                   None \<Rightarrow> ret (Inl (FailError 0 (''no rows to read for '' @ LQUOTE @ ti_target_name item @ RQUOTE)))
                 | Some sql \<Rightarrow> bnd (stream_into (tj_src job) (tj_dst job) sql target mapping target_columns (tj_cancelled job) base progress) finish)))"

fun done_outcome :: "item_action \<Rightarrow> bool \<Rightarrow> item_outcome" where
  "done_outcome Create True = Created"
| "done_outcome Create False = CreatedEmpty"
| "done_outcome Recreate _ = Recreated"
| "done_outcome (Existing Append) _ = Appended"
| "done_outcome (Existing TruncateInsert) _ = Replaced"
| "done_outcome Skip _ = Skipped ''not selected''"

definition run_item ::
  "('w, 'c) transfer_ctx \<Rightarrow> transfer_item \<Rightarrow> nat \<Rightarrow> nat \<Rightarrow> nat \<Rightarrow> ('w, item_failure + (item_report \<times> table_detail option)) prog" where
  "run_item job item position items base =
     (let target = target_ref job item; label = ti_target_name item in
      bnd (resolve_item job item) (\<lambda>r. case r of
        Inl (ResolveSkip reason) \<Rightarrow> ret (Inr (\<lparr>ir_table = label, ir_outcome = Skipped reason, ir_rows = 0, ir_warnings = []\<rparr>, None))
      | Inl (ResolveFailed m) \<Rightarrow> ret (Inl (FailError 0 m))
      | Inr (resolved, cursor) \<Rightarrow>
      bnd (prepare_target job item target (rs_create_columns resolved)) (\<lambda>r. case r of
        Inl e \<Rightarrow> ret (Inl (FailError 0 (red_error_text e)))
      | Inr _ \<Rightarrow>
      (let source_columns = map (\<lambda>c. \<lparr>col_name = cm_name c, col_decl_type = cm_type c\<rparr>) (rs_create_columns resolved) in
      bnd (resolve_mapping job item target source_columns) (\<lambda>r. case r of
        Inl m \<Rightarrow> ret (Inl (FailError 0 m))
      | Inr (mapping, warnings) \<Rightarrow>
      bnd (move_rows job item target resolved cursor mapping position items base) (\<lambda>r. case r of
        Inl f \<Rightarrow> ret (Inl f)
      | Inr rows \<Rightarrow>
          ret (Inr (\<lparr>ir_table = label, ir_outcome = done_outcome (ti_action item) (moves_rows (ti_content item)), ir_rows = rows,
                     ir_warnings = rs_warnings resolved @ warnings\<rparr>,
                    if ti_action item = Create \<or> ti_action item = Recreate then rs_detail resolved else None))))))))"

section \<open>The deferred passes\<close>

definition push_report :: "('w, 'c) transfer_ctx \<Rightarrow> transfer_summary \<Rightarrow> nat \<Rightarrow> item_report \<Rightarrow> ('w, transfer_summary) prog" where
  "push_report job summary index report =
     bnd (emit_event job (TransferItemDone index report)) (\<lambda>_. ret (summary\<lparr>ts_items := ts_items summary @ [report]\<rparr>))"

fun add_note :: "item_report list \<Rightarrow> string \<Rightarrow> string \<Rightarrow> item_report list" where
  "add_note [] table warning = []"
| "add_note (r # rs) table warning =
     (if ir_table r = table then r\<lparr>ir_warnings := ir_warnings r @ [warning]\<rparr> # rs else r # add_note rs table warning)"

definition note_item :: "transfer_summary \<Rightarrow> string \<Rightarrow> string \<Rightarrow> transfer_summary" where
  "note_item summary table warning = summary\<lparr>ts_items := add_note (ts_items summary) table warning\<rparr>"

definition find_str :: "string \<Rightarrow> string \<Rightarrow> nat option" where
  "find_str s pat = find (\<lambda>i. prefix pat (drop i s)) [0..<Suc (length s)]"

definition rename_index :: "string \<Rightarrow> string \<Rightarrow> string \<Rightarrow> string" where
  "rename_index index source_table target_table =
     (case find_str (to_ascii_lowercase index) (to_ascii_lowercase source_table) of
        Some pos \<Rightarrow> take pos index @ target_table @ drop (pos + length source_table) index
      | None \<Rightarrow> target_table @ ''_'' @ index)"

definition same_namespace :: "string option \<Rightarrow> string option \<Rightarrow> bool" where
  "same_namespace a b =
     (case (a, b) of (Some x, Some y) \<Rightarrow> eq_ignore_ascii_case x y | (None, None) \<Rightarrow> True | _ \<Rightarrow> False)"

definition index_name_for :: "('w, 'c) transfer_ctx \<Rightarrow> transfer_item \<Rightarrow> string \<Rightarrow> string" where
  "index_name_for job item index =
     (case ti_source item of
        SourceTable schema name \<Rightarrow>
          if \<not> same_namespace (or_else schema (tp_source_namespace (tj_plan job))) (tp_target_namespace (tj_plan job))
             \<or> eq_ignore_ascii_case name (ti_target_name item)
          then index else rename_index index name (ti_target_name item)
      | _ \<Rightarrow> index)"

definition primary_key_names :: "table_detail \<Rightarrow> string list" where
  "primary_key_names detail = map (\<lambda>c. to_ascii_lowercase (cm_name c)) (filter cm_primary_key (td_columns detail))"

definition engine_index_name :: "string \<Rightarrow> bool" where
  "engine_index_name name \<longleftrightarrow> name = ''primary'' \<or> prefix ''sqlite_autoindex'' name \<or> ends_with name ''_pkey''"

definition backs_primary_key :: "index_meta \<Rightarrow> string list \<Rightarrow> bool" where
  "backs_primary_key idx pk \<longleftrightarrow>
     (let cols = map to_ascii_lowercase (im_columns idx) in
      (pk \<noteq> [] \<and> length cols = length pk \<and> list_all (\<lambda>c. c \<in> set cols) pk)
      \<or> engine_index_name (to_ascii_lowercase (im_name idx)))"

definition secondary_indexes :: "table_detail \<Rightarrow> index_meta list" where
  "secondary_indexes detail =
     filter (\<lambda>idx. \<not> (im_columns idx = [] \<or> backs_primary_key idx (primary_key_names detail))) (td_indexes detail)"

fun create_indexes ::
  "('w, 'c) transfer_ctx \<Rightarrow> transfer_item \<Rightarrow> index_meta list \<Rightarrow> transfer_summary \<Rightarrow> ('w, transfer_summary) prog" where
  "create_indexes job item [] summary = ret summary"
| "create_indexes job item (idx # idxs) summary =
     (let name = index_name_for job item (im_name idx) in
      bnd (act (dr_create_index (tj_dst job) (target_ref job item) name (im_unique idx) (im_columns idx))) (\<lambda>r.
        create_indexes job item idxs (case r of
          Inl e \<Rightarrow> note_item summary (ti_target_name item) (''index '' @ name @ '': '' @ red_error_text e)
        | Inr _ \<Rightarrow> summary)))"

definition index_renames :: "('w, 'c) transfer_ctx \<Rightarrow> transfer_item \<Rightarrow> index_meta list \<Rightarrow> string list" where
  "index_renames job item idxs =
     List.map_filter (\<lambda>idx. let name = index_name_for job item (im_name idx) in
       if name \<noteq> im_name idx then Some (im_name idx @ '' -> '' @ name) else None) idxs"

fun deferred_indexes ::
  "('w, 'c) transfer_ctx \<Rightarrow> (nat \<times> table_detail) list \<Rightarrow> transfer_summary \<Rightarrow> ('w, transfer_summary) prog" where
  "deferred_indexes job [] summary = ret summary"
| "deferred_indexes job ((index, detail) # created) summary =
     bnd (act (tj_cancelled job)) (\<lambda>stop.
       if stop then ret summary
       else
         (let item = tp_items (tj_plan job) ! index; idxs = secondary_indexes detail; renames = index_renames job item idxs in
          bnd (create_indexes job item idxs summary) (\<lambda>summary1.
            deferred_indexes job created
              (if renames = [] then summary1
               else note_item summary1 (ti_target_name item)
                 (''indexes renamed to stay unique in this namespace: '' @ join_with '', '' renames)))))"

definition renamed_tables :: "('w, 'c) transfer_ctx \<Rightarrow> (nat \<times> table_detail) list \<Rightarrow> string \<Rightarrow> string option" where
  "renamed_tables job created =
     foldl (\<lambda>m (index, _). let item = tp_items (tj_plan job) ! index in
       case ti_source item of
         SourceTable _ name \<Rightarrow> m(to_ascii_lowercase name \<mapsto> ti_target_name item)
       | _ \<Rightarrow> m) Map.empty created"

definition fk_ends :: "(string \<rightharpoonup> string) \<Rightarrow> fk_edge \<Rightarrow> (string \<times> string) option" where
  "fk_ends renamed fk =
     (case (renamed (to_ascii_lowercase (fe_from_table fk)), renamed (to_ascii_lowercase (fe_to_table fk))) of
        (Some child, Some parent) \<Rightarrow> Some (child, parent)
      | _ \<Rightarrow> None)"

definition target_named :: "('w, 'c) transfer_ctx \<Rightarrow> string \<Rightarrow> table_ref" where
  "target_named job name = \<lparr>tr_schema = tp_target_namespace (tj_plan job), tr_name = name\<rparr>"

fun deferred_foreign_keys ::
  "('w, 'c) transfer_ctx \<Rightarrow> (string \<rightharpoonup> string) \<Rightarrow> fk_edge list \<Rightarrow> transfer_summary \<Rightarrow> ('w, transfer_summary) prog" where
  "deferred_foreign_keys job renamed [] summary = ret summary"
| "deferred_foreign_keys job renamed (fk # fks) summary =
     bnd (act (tj_cancelled job)) (\<lambda>stop.
       if stop then ret summary
       else (case fk_ends renamed fk of
         None \<Rightarrow> deferred_foreign_keys job renamed fks summary
       | Some (child, parent) \<Rightarrow>
           (let ns = tp_source_namespace (tj_plan job) in
            if \<not> in_scope ns (fe_from_schema fk) \<or> \<not> in_scope ns (fe_to_schema fk) then
              deferred_foreign_keys job renamed fks summary
            else
              bnd (act (dr_add_foreign_key (tj_dst job) (target_named job child) (map fst (fe_columns fk))
                          (target_named job parent) (map snd (fe_columns fk)))) (\<lambda>r.
                deferred_foreign_keys job renamed fks (case r of
                  Inl e \<Rightarrow> note_item summary child (''foreign key to '' @ parent @ '': '' @ red_error_text e)
                | Inr _ \<Rightarrow> summary)))))"

section \<open>The dry run\<close>

definition render_target :: "('w, 'c) transfer_ctx \<Rightarrow> transfer_item \<Rightarrow> resolved_item \<Rightarrow> string" where
  "render_target job item resolved =
     (let q = dr_quote_ident (tj_dst job); target = target_ref job item in
      [LF] @ ''-- '' @ ti_target_name item @ '' ('' @ action_verb (ti_action item) @ '', '' @ content_label (ti_content item) @ '')'' @ [LF]
      @ (if ti_action item = Recreate then drop_table_sql target q @ '';'' @ [LF] else [])
      @ (if ti_action item = Create \<or> ti_action item = Recreate
         then create_table_sql target (rs_create_columns resolved) (tj_dst_kind job) q @ '';'' @ [LF] else [])
      @ (if ti_action item = Existing TruncateInsert then ''DELETE FROM '' @ qualify_table target q @ '';'' @ [LF] else []))"

definition render_rows :: "('w, 'c) transfer_ctx \<Rightarrow> transfer_item \<Rightarrow> resolved_item \<Rightarrow> string \<Rightarrow> string" where
  "render_rows job item resolved sql =
     (let q = dr_quote_ident (tj_dst job) in
      ''-- rows read with: '' @ sql @ [LF] @ ''INSERT INTO '' @ qualify_table (target_ref job item) q @ '' (''
      @ join_with '', '' (map (\<lambda>c. q (cm_name c)) (rs_create_columns resolved)) @ '') VALUES (...);'' @ [LF])"

type_synonym render_state = "string \<times> (string \<times> nat option) list \<times> (nat \<times> table_detail) list"

fun render_items :: "('w, 'c) transfer_ctx \<Rightarrow> nat list \<Rightarrow> render_state \<Rightarrow> ('w, render_state) prog" where
  "render_items job [] st = ret st"
| "render_items job (index # order) st =
     (case st of (script, estimates, created) \<Rightarrow>
      (let item = tp_items (tj_plan job) ! index; name = ti_target_name item in
       if \<not> is_active item then
         render_items job order (script @ [LF] @ ''-- '' @ name @ '' - skipped'' @ [LF], estimates @ [(name, None)], created)
       else
         bnd (resolve_item job item) (\<lambda>r. case r of
           Inl (ResolveSkip reason) \<Rightarrow>
             render_items job order (script @ [LF] @ ''-- '' @ name @ '' - '' @ reason @ [LF], estimates @ [(name, None)], created)
         | Inl (ResolveFailed reason) \<Rightarrow>
             render_items job order (script @ [LF] @ ''-- '' @ name @ '' - '' @ reason @ [LF], estimates @ [(name, None)], created)
         | Inr (resolved, _) \<Rightarrow>
             (let created1 = (if ti_action item = Create \<or> ti_action item = Recreate
                              then (case rs_detail resolved of Some d \<Rightarrow> created @ [(index, d)] | None \<Rightarrow> created) else created);
                  script1 = script @ render_target job item resolved
              in case rs_select_sql resolved of
                   Some sql \<Rightarrow>
                     bnd (act (dr_count (tj_src job) sql)) (\<lambda>n.
                       render_items job order
                         (script1 @ render_rows job item resolved sql,
                          estimates @ [(name, case n of Inl _ \<Rightarrow> None | Inr k \<Rightarrow> Some (nat k))], created1))
                 | None \<Rightarrow>
                     render_items job order (script1 @ ''-- structure only, no rows'' @ [LF], estimates @ [(name, Some 0)], created1)))))"

definition with_heading :: "string \<Rightarrow> string list \<Rightarrow> string" where
  "with_heading heading statements =
     (if statements = [] then [] else [LF] @ heading @ [LF] @ concat (map (\<lambda>x. x @ '';'' @ [LF]) statements))"

definition index_statements :: "('w, 'c) transfer_ctx \<Rightarrow> (nat \<times> table_detail) list \<Rightarrow> string list" where
  "index_statements job created =
     concat (map (\<lambda>(index, detail). let item = tp_items (tj_plan job) ! index in
       map (\<lambda>idx. create_index_sql (target_ref job item) (index_name_for job item (im_name idx)) (im_unique idx) (im_columns idx)
              (tj_dst_kind job) (dr_quote_ident (tj_dst job))) (secondary_indexes detail)) created)"

definition fk_statements :: "('w, 'c) transfer_ctx \<Rightarrow> (string \<rightharpoonup> string) \<Rightarrow> fk_edge list \<Rightarrow> string list" where
  "fk_statements job renamed fks =
     List.map_filter (\<lambda>fk. map_option (\<lambda>(child, parent).
       add_fk_sql (target_named job child) (map fst (fe_columns fk)) (target_named job parent) (map snd (fe_columns fk))
         (dr_quote_ident (tj_dst job))) (fk_ends renamed fk)) fks"

definition render_script :: "('w, 'c) transfer_ctx \<Rightarrow> fk_edge list \<Rightarrow> ('w, string \<times> (string \<times> nat option) list) prog" where
  "render_script job fks =
     (let plan = tj_plan job;
          heading = ''-- Transfer dry run. Nothing was written.'' @ [LF]
            @ (case tp_target_namespace plan of Some ns \<Rightarrow> ''-- Target namespace: '' @ ns @ [LF] | None \<Rightarrow> [])
      in bnd (render_items job (order_items plan fks) (heading, [], [])) (\<lambda>(script, estimates, created).
           ret (script
             @ (if to_indexes (tp_options plan) then with_heading ''-- Deferred index pass'' (index_statements job created) else [])
             @ (if to_foreign_keys (tp_options plan)
                then with_heading ''-- Deferred foreign-key pass'' (fk_statements job (renamed_tables job created) fks) else []),
             estimates)))"

section \<open>The job\<close>

definition skipped_report :: "transfer_item \<Rightarrow> string \<Rightarrow> nat \<Rightarrow> item_report" where
  "skipped_report item reason rows = \<lparr>ir_table = ti_target_name item, ir_outcome = Skipped reason, ir_rows = rows, ir_warnings = []\<rparr>"

definition failed_report :: "transfer_item \<Rightarrow> string \<Rightarrow> nat \<Rightarrow> item_report" where
  "failed_report item m rows = \<lparr>ir_table = ti_target_name item, ir_outcome = Failed m, ir_rows = rows, ir_warnings = []\<rparr>"

definition add_rows :: "transfer_summary \<Rightarrow> nat \<Rightarrow> transfer_summary" where
  "add_rows summary n = summary\<lparr>ts_rows := ts_rows summary + n\<rparr>"

type_synonym run_state = "transfer_summary \<times> (nat \<times> table_detail) list"

fun run_items ::
  "('w, 'c) transfer_ctx \<Rightarrow> nat \<Rightarrow> nat list \<Rightarrow> transfer_summary \<Rightarrow> (nat \<times> table_detail) list \<Rightarrow> ('w, transfer_outcome + run_state) prog" where
  "run_items job position [] summary created = ret (Inr (summary, created))"
| "run_items job position (index # order) summary created =
     (let item = tp_items (tj_plan job) ! index in
      bnd (act (tj_cancelled job)) (\<lambda>stop.
        if stop then ret (Inl (Cancelled summary))
        else if \<not> is_active item then
          bnd (push_report job summary index (skipped_report item ''not selected'' 0)) (\<lambda>summary1.
            run_items job (position + 1) order summary1 created)
        else
          bnd (run_item job item position (length (tp_items (tj_plan job))) (ts_rows summary)) (\<lambda>r. case r of
            Inr (report, detail) \<Rightarrow>
              bnd (push_report job (add_rows summary (ir_rows report)) index report) (\<lambda>summary1.
                run_items job (position + 1) order summary1
                  (case detail of Some d \<Rightarrow> created @ [(index, d)] | None \<Rightarrow> created))
          | Inl (FailCancelled rows) \<Rightarrow>
              bnd (push_report job (add_rows summary rows) index (skipped_report item ''cancelled'' rows)) (\<lambda>summary1.
                ret (Inl (Cancelled summary1)))
          | Inl (FailError rows m) \<Rightarrow>
              bnd (push_report job (add_rows summary rows) index (failed_report item m rows)) (\<lambda>summary1.
                if to_on_error (tp_options (tj_plan job)) = StopJob then ret (Inl (TransferFailed (Some index) m summary1))
                else run_items job (position + 1) order summary1 created))))"

definition empty_summary :: transfer_summary where
  "empty_summary = \<lparr>ts_items = [], ts_rows = 0\<rparr>"

definition finish_job ::
  "('w, 'c) transfer_ctx \<Rightarrow> fk_edge list \<Rightarrow> (nat \<times> table_detail) list \<Rightarrow> transfer_summary \<Rightarrow> ('w, transfer_outcome) prog" where
  "finish_job job fks created summary =
     (let opts = tp_options (tj_plan job) in
      bnd (if to_indexes opts then deferred_indexes job created summary else ret summary) (\<lambda>summary1.
      bnd (if to_foreign_keys opts then deferred_foreign_keys job (renamed_tables job created) fks summary1 else ret summary1) (\<lambda>summary2.
      bnd (act (tj_cancelled job)) (\<lambda>stop. ret (if stop then Cancelled summary2 else Finished summary2)))))"

definition transfer_job :: "('w, 'c) transfer_ctx \<Rightarrow> ('w, transfer_outcome) prog" where
  "transfer_job job =
     bnd (act (dr_foreign_keys (tj_src job))) (\<lambda>r.
       (let fks = (case r of Inl _ \<Rightarrow> [] | Inr fks \<Rightarrow> fks) in
        if to_dry_run (tp_options (tj_plan job)) then
          bnd (render_script job fks) (\<lambda>(script, estimates). ret (Planned script estimates))
        else
          bnd (run_items job 0 (order_items (tj_plan job) fks) empty_summary []) (\<lambda>r. case r of
            Inl outcome \<Rightarrow> ret outcome
          | Inr (summary, created) \<Rightarrow> finish_job job fks created summary)))"

end
