(* ===== verification/Transfer_Laws.thy ===== *)
theory Transfer_Laws
  imports Transfer_Run
begin

text \<open>
  What a transfer does, whatever the drivers answer: which tables it may touch, what a dry run leaves alone, which
  report every item gets, that it returns, and which rows have arrived when it stops.
\<close>

section \<open>Partial correctness of programs\<close>

named_theorems prog_rules

definition holds :: "('w \<Rightarrow> bool) \<Rightarrow> ('w, 'a) prog \<Rightarrow> ('a \<Rightarrow> 'w \<Rightarrow> bool) \<Rightarrow> bool" where
  "holds P m Q \<longleftrightarrow> (\<forall>w a w1. P w \<longrightarrow> m w = Some (a, w1) \<longrightarrow> Q a w1)"

lemma holdsD: "holds P m Q \<Longrightarrow> P w \<Longrightarrow> m w = Some (a, w1) \<Longrightarrow> Q a w1"
  by (simp add: holds_def)

lemma holds_ret [prog_rules]: "(\<And>w. P w \<Longrightarrow> Q a w) \<Longrightarrow> holds P (ret a) Q"
  by (simp add: holds_def ret_def)

lemma holds_act [prog_rules]: "(\<And>w. P w \<Longrightarrow> Q (fst (f w)) (snd (f w))) \<Longrightarrow> holds P (act f) Q"
  by (simp add: holds_def act_def prod_eq_iff)

lemma holds_bnd: "holds P m R \<Longrightarrow> (\<And>a. holds (R a) (f a) Q) \<Longrightarrow> holds P (bnd m f) Q"
  unfolding holds_def bnd_def by (fastforce split: option.splits prod.splits)

lemma holds_weaken: "holds P m Q \<Longrightarrow> (\<And>a w. Q a w \<Longrightarrow> R a w) \<Longrightarrow> holds P m R"
  unfolding holds_def by blast

lemma holds_pre: "holds P m Q \<Longrightarrow> (\<And>w. R w \<Longrightarrow> P w) \<Longrightarrow> holds R m Q"
  unfolding holds_def by blast

lemma bnd_act: "bnd (act f) g w = g (fst (f w)) (snd (f w))"
  by (simp add: bnd_def act_def split: prod.splits)

text \<open>A step that keeps an invariant of the world, and a result that has a property in every world.\<close>

definition keeps :: "('w \<Rightarrow> bool) \<Rightarrow> ('w, 'a) prog \<Rightarrow> bool" where
  "keeps I m \<longleftrightarrow> holds I m (\<lambda>_. I)"

definition call_keeps :: "('w \<Rightarrow> bool) \<Rightarrow> ('w \<Rightarrow> 'a \<times> 'w) \<Rightarrow> bool" where
  "call_keeps I f \<longleftrightarrow> (\<forall>w. I w \<longrightarrow> I (snd (f w)))"

lemma keeps_ret [prog_rules]: "keeps I (ret a)"
  by (simp add: keeps_def holds_def ret_def)

lemma keeps_act [prog_rules]: "call_keeps I f \<Longrightarrow> keeps I (act f)"
  by (auto simp: keeps_def call_keeps_def holds_def act_def dest: sym)

lemma keeps_bnd [prog_rules]: "keeps I m \<Longrightarrow> (\<And>a. keeps I (f a)) \<Longrightarrow> keeps I (bnd m f)"
  unfolding keeps_def by (rule holds_bnd)

definition yields :: "('w, 'a) prog \<Rightarrow> ('a \<Rightarrow> bool) \<Rightarrow> bool" where
  "yields m Q \<longleftrightarrow> holds (\<lambda>_. True) m (\<lambda>a _. Q a)"

lemma yields_ret: "Q a \<Longrightarrow> yields (ret a) Q"
  by (simp add: yields_def holds_def ret_def)

lemma yields_bnd: "yields m R \<Longrightarrow> (\<And>a. R a \<Longrightarrow> yields (f a) Q) \<Longrightarrow> yields (bnd m f) Q"
  unfolding yields_def holds_def bnd_def by (fastforce split: option.splits prod.splits)

lemma yields_any: "(\<And>a. yields (f a) Q) \<Longrightarrow> yields (bnd m f) Q"
  by (rule yields_bnd [where R = "\<lambda>_. True"]) (simp_all add: yields_def holds_def)

lemma yieldsD: "yields m Q \<Longrightarrow> m w = Some (a, w1) \<Longrightarrow> Q a"
  unfolding yields_def by (erule holdsD) simp_all

lemma keepsD: "keeps I m \<Longrightarrow> m w = Some (a, w1) \<Longrightarrow> I w \<Longrightarrow> I w1"
  unfolding keeps_def holds_def by blast

section \<open>What the drivers' operations keep\<close>

definition reads_keep :: "('w \<Rightarrow> bool) \<Rightarrow> ('w, 'c) db_driver \<Rightarrow> bool" where
  "reads_keep I d \<longleftrightarrow> call_keeps I (dr_foreign_keys d) \<and> (\<forall>s t. call_keeps I (dr_describe_table d s t)) \<and>
     call_keeps I (dr_list_objects d) \<and> (\<forall>q. call_keeps I (dr_open_cursor d q)) \<and>
     (\<forall>c. call_keeps I (dr_next_window d c)) \<and> (\<forall>q. call_keeps I (dr_count d q))"

definition job_reads_keep :: "('w \<Rightarrow> bool) \<Rightarrow> ('w, 'c) transfer_ctx \<Rightarrow> bool" where
  "job_reads_keep I job \<longleftrightarrow> reads_keep I (tj_src job) \<and> reads_keep I (tj_dst job) \<and> call_keeps I (tj_cancelled job) \<and>
     (\<forall>e w. I w \<longrightarrow> I (tj_emit job e w))"

text \<open>The tables a plan may write, and those it may empty.\<close>

definition writes_keep :: "('w \<Rightarrow> bool) \<Rightarrow> ('w, 'c) db_driver \<Rightarrow> table_ref \<Rightarrow> bool" where
  "writes_keep I d t \<longleftrightarrow> (\<forall>columns. call_keeps I (dr_create_table d t columns)) \<and>
     (\<forall>columns rows. call_keeps I (dr_insert_rows d t columns rows)) \<and>
     (\<forall>name unique columns. call_keeps I (dr_create_index d t name unique columns)) \<and>
     (\<forall>columns parent refs. call_keeps I (dr_add_foreign_key d t columns parent refs))"

definition wipes_keep :: "('w \<Rightarrow> bool) \<Rightarrow> ('w, 'c) db_driver \<Rightarrow> table_ref \<Rightarrow> bool" where
  "wipes_keep I d t \<longleftrightarrow> call_keeps I (dr_drop_table d t) \<and> call_keeps I (dr_clear_table d t)"

lemma keeps_reads [prog_rules]:
  assumes "job_reads_keep I job"
  shows "keeps I (act (dr_foreign_keys (tj_src job)))" "keeps I (act (dr_describe_table (tj_src job) s t))"
    "keeps I (act (dr_describe_table (tj_dst job) s t))" "keeps I (act (dr_open_cursor (tj_src job) q))"
    "keeps I (act (dr_count (tj_src job) q))" "keeps I (act (tj_cancelled job))" "keeps I (emit_event job e)"
  using assms by (auto simp: job_reads_keep_def reads_keep_def emit_event_def call_keeps_def intro!: keeps_act)

lemma keeps_open_query_source [prog_rules]: "job_reads_keep I job \<Longrightarrow> keeps I (open_query_source job item q)"
  by (auto simp: open_query_source_def Let_def intro!: prog_rules split: sum.splits prod.splits)

lemma keeps_resolve_item [prog_rules]: "job_reads_keep I job \<Longrightarrow> keeps I (resolve_item job item)"
  by (auto simp: resolve_item_def Let_def intro!: prog_rules split: sum.splits prod.splits item_source.splits option.splits)

lemma keeps_resolve_mapping [prog_rules]: "job_reads_keep I job \<Longrightarrow> keeps I (resolve_mapping job item target columns)"
  by (auto simp: resolve_mapping_def intro!: prog_rules split: sum.splits item_action.splits)

lemma keeps_render_items [prog_rules]: "job_reads_keep I job \<Longrightarrow> keeps I (render_items job order st)"
  by (induction order arbitrary: st)
    (auto simp: Let_def intro!: prog_rules split: sum.splits prod.splits option.splits resolve_outcome.splits)

text \<open>
  C37. A dry run writes nothing: it returns a script, and whatever the reads of the two drivers leave unchanged is
  unchanged, whatever their writing operations would do.
\<close>

theorem dry_run_writes_nothing:
  assumes "to_dry_run (tp_options (tj_plan job))" and "job_reads_keep I job" and "I w"
    and "transfer_job job w = Some (outcome, w1)"
  shows "I w1 \<and> (\<exists>script estimates. outcome = Planned script estimates)"
proof -
  have dry: "transfer_job job = bnd (act (dr_foreign_keys (tj_src job))) (\<lambda>r.
      bnd (render_script job (case r of Inl _ \<Rightarrow> [] | Inr fks \<Rightarrow> fks)) (\<lambda>(script, estimates). ret (Planned script estimates)))"
    using assms(1) by (simp add: transfer_job_def Let_def)
  have "keeps I (render_script job fks)" for fks
    using assms(2) by (auto simp: render_script_def Let_def intro!: prog_rules split: prod.splits)
  then have "keeps I (transfer_job job)" unfolding dry using assms(2) by (auto intro!: prog_rules split: prod.splits)
  moreover have "yields (transfer_job job) (\<lambda>r. \<exists>script estimates. r = Planned script estimates)"
    unfolding dry by (intro yields_any) (auto intro: yields_ret)
  ultimately show ?thesis using keepsD [where m = "transfer_job job" and w = w and I = I] yieldsD [where m = "transfer_job job" and w = w] assms(3,4) by blast
qed

section \<open>The streaming loop\<close>

lemma stream_loop_rule:
  assumes start: "J committed w" and run: "stream_loop cancelled window ins progress mapping base committed w = Some (r, w1)"
    and stop: "\<And>n w w1. J n w \<Longrightarrow> cancelled w = (True, w1) \<Longrightarrow> Q (n, Some Interrupted) w1"
    and go: "\<And>n w w1. J n w \<Longrightarrow> cancelled w = (False, w1) \<Longrightarrow> J n w1"
    and failed: "\<And>n w w1 e. J n w \<Longrightarrow> window w = (Inl e, w1) \<Longrightarrow> Q (n, Some e) w1"
    and empty: "\<And>n w w1. J n w \<Longrightarrow> window w = (Inr ([], False), w1) \<Longrightarrow> J n w1"
    and ended: "\<And>n w w1. J n w \<Longrightarrow> window w = (Inr ([], True), w1) \<Longrightarrow> Q (n, None) w1"
    and refused: "\<And>n w w1 w2 rows fin e. J n w \<Longrightarrow> window w = (Inr (rows, fin), w1) \<Longrightarrow>
        ins (map (project_row mapping) rows) w1 = (Inl e, w2) \<Longrightarrow> Q (n, Some e) w2"
    and stored: "\<And>n w w1 w2 rows k. J n w \<Longrightarrow> window w = (Inr (rows, False), w1) \<Longrightarrow>
        ins (map (project_row mapping) rows) w1 = (Inr k, w2) \<Longrightarrow> J (n + k) (progress (base + (n + k)) w2)"
    and closed: "\<And>n w w1 w2 rows k. J n w \<Longrightarrow> window w = (Inr (rows, True), w1) \<Longrightarrow>
        ins (map (project_row mapping) rows) w1 = (Inr k, w2) \<Longrightarrow> Q (n + k, None) (progress (base + (n + k)) w2)"
  shows "Q r w1"
proof -
  let ?P = "\<lambda>c wi i p m b n w y. c = cancelled \<longrightarrow> wi = window \<longrightarrow> i = ins \<longrightarrow> p = progress \<longrightarrow> m = mapping \<longrightarrow> b = base \<longrightarrow>
    J n w \<longrightarrow> Q (fst y) (snd y)"
  have "?P cancelled window ins progress mapping base committed w (r, w1)"
  proof (rule stream_loop.raw_induct [of ?P, OF _ run], intro impI)
    fix loop c wi i p m b n w y
    assume IH: "\<And>c wi i p m b n w y. loop c wi i p m b n w = Some y \<Longrightarrow> ?P c wi i p m b n w y"
      and eqs: "c = cancelled" "wi = window" "i = ins" "p = progress" "m = mapping" "b = base" and J: "J n w"
      and step: "(case c w of (stop, w1) \<Rightarrow>
        if stop then Some ((n, Some Interrupted), w1)
        else (case wi w1 of (answer, w2) \<Rightarrow>
          (case answer of
             Inl e \<Rightarrow> Some ((n, Some e), w2)
           | Inr read \<Rightarrow>
               if fst read = [] then
                 (if snd read then Some ((n, None), w2) else loop c wi i p m b n w2)
               else
                 (case i (map (project_row m) (fst read)) w2 of (inserted, w3) \<Rightarrow>
                   (case inserted of
                      Inl e \<Rightarrow> Some ((n, Some e), w3)
                    | Inr k \<Rightarrow>
                        if snd read then Some ((n + k, None), p (b + (n + k)) w3)
                        else loop c wi i p m b (n + k) (p (b + (n + k)) w3)))))) = Some y"
    obtain stop' w1 where c: "cancelled w = (stop', w1)" by (cases "cancelled w")
    show "Q (fst y) (snd y)"
    proof (cases stop')
      case True
      with step c J stop show ?thesis by (auto simp: eqs)
    next
      case False
      then have J1: "J n w1" using c go [OF J] by simp
      obtain answer w2 where a: "window w1 = (answer, w2)" by (cases "window w1")
      show ?thesis
      proof (cases answer)
        case (Inl e)
        with step c False a J1 failed show ?thesis by (auto simp: eqs)
      next
        case (Inr read)
        obtain rows last where read: "read = (rows, last)" by (cases read)
        show ?thesis
        proof (cases "rows = []")
          case True
          with step c False a Inr read J1 empty [OF J1] ended [OF J1] IH show ?thesis by (auto simp: eqs split: if_splits)
        next
          case rows: False
          obtain inserted w3 where i: "ins (map (project_row mapping) rows) w2 = (inserted, w3)"
            by (cases "ins (map (project_row mapping) rows) w2")
          show ?thesis
          proof (cases inserted)
            case (Inl e)
            have "y = ((n, Some e), w3)" using step c False a Inr read rows i Inl by (simp add: eqs)
            then show ?thesis using refused [OF J1 a [unfolded Inr read]] i Inl by simp
          next
            case ins: (Inr k)
            show ?thesis
            proof (cases last)
              case True
              then have "y = ((n + k, None), progress (base + (n + k)) w3)" using step c False a Inr read rows i ins by (simp add: eqs)
              then show ?thesis using closed [OF J1] a i Inr read ins True by simp
            next
              case more: False
              then have "loop cancelled window ins progress mapping base (n + k) (progress (base + (n + k)) w3) = Some y"
                using step c False a Inr read rows i ins by (simp add: eqs)
              moreover have "J (n + k) (progress (base + (n + k)) w3)" using stored [OF J1] a i Inr read ins more by simp
              ultimately show ?thesis using IH by blast
            qed
          qed
        qed
      qed
    qed
  qed
  then show ?thesis using start by simp
qed

lemma keeps_stream_loop:
  assumes "call_keeps I cancelled" "call_keeps I window" "\<And>rows. call_keeps I (ins rows)" "\<And>n w. I w \<Longrightarrow> I (progress n w)"
  shows "keeps I (stream_loop cancelled window ins progress mapping base committed)"
  unfolding keeps_def holds_def
proof (intro allI impI)
  fix w r w1
  assume "I w" and run: "stream_loop cancelled window ins progress mapping base committed w = Some (r, w1)"
  have stop: "cancelled w = (b, w1) \<Longrightarrow> I w \<Longrightarrow> I w1" and wind: "window w = (a, w1) \<Longrightarrow> I w \<Longrightarrow> I w1"
    and inst: "ins rows w = (k, w1) \<Longrightarrow> I w \<Longrightarrow> I w1" for w b a rows k w1
    using assms(1-3) by (metis call_keeps_def snd_conv)+
  show "I w1"
    by (rule stream_loop_rule [where J = "\<lambda>_. I" and Q = "\<lambda>_. I", OF \<open>I w\<close> run])
      (blast intro: assms(4) stop wind inst)+
qed

section \<open>Which tables a transfer touches\<close>

definition item_writes_keep :: "('w \<Rightarrow> bool) \<Rightarrow> ('w, 'c) transfer_ctx \<Rightarrow> transfer_item \<Rightarrow> bool" where
  "item_writes_keep I job item \<longleftrightarrow>
     (is_active item \<longrightarrow> writes_keep I (tj_dst job) (target_ref job item)) \<and>
     (is_destructive item \<longrightarrow> wipes_keep I (tj_dst job) (target_ref job item))"

lemma keeps_prepare_target [prog_rules]:
  assumes "item_writes_keep I job item" "is_active item"
  shows "keeps I (prepare_target job item (target_ref job item) columns)"
proof -
  have "ti_action item = Recreate \<Longrightarrow> keeps I (act (dr_drop_table (tj_dst job) (target_ref job item)))"
    "ti_action item = Existing TruncateInsert \<Longrightarrow> keeps I (act (dr_clear_table (tj_dst job) (target_ref job item)))"
    "keeps I (act (dr_create_table (tj_dst job) (target_ref job item) columns))"
    using assms by (auto simp: item_writes_keep_def is_destructive_def wipes_keep_def writes_keep_def intro: keeps_act)
  then show ?thesis by (auto simp: prepare_target_def intro!: keeps_bnd keeps_ret split: sum.splits)
qed

lemma keeps_stream_cursor_into [prog_rules]:
  assumes "job_reads_keep I job" "writes_keep I (tj_dst job) target"
  shows "keeps I (stream_cursor_into (tj_src job) cursor (tj_dst job) target mapping columns (tj_cancelled job) base
    (item_progress job position items table base0))"
  unfolding stream_cursor_into_def using assms
  by (intro keeps_stream_loop) (auto simp: job_reads_keep_def reads_keep_def writes_keep_def item_progress_def)

lemma keeps_stream_into [prog_rules]:
  assumes "job_reads_keep I job" "writes_keep I (tj_dst job) target"
  shows "keeps I (stream_into (tj_src job) (tj_dst job) sql target mapping columns (tj_cancelled job) base
    (item_progress job position items table base0))"
  unfolding stream_into_def using assms by (auto intro!: prog_rules split: sum.splits)

lemma keeps_move_rows [prog_rules]:
  assumes "job_reads_keep I job" "writes_keep I (tj_dst job) target"
  shows "keeps I (move_rows job item target resolved cursor mapping position items base)"
  unfolding move_rows_def Let_def using assms
  by (auto intro!: prog_rules split: option.splits prod.splits red_error.splits)

lemma keeps_run_item [prog_rules]:
  assumes "job_reads_keep I job" "item_writes_keep I job item" "is_active item"
  shows "keeps I (run_item job item position items base)"
proof -
  have "writes_keep I (tj_dst job) (target_ref job item)" using assms(2,3) by (simp add: item_writes_keep_def)
  with assms show ?thesis unfolding run_item_def Let_def
    by (auto intro!: prog_rules split: sum.splits prod.splits resolve_outcome.splits)
qed

lemma keeps_bnd_yields: "keeps I m \<Longrightarrow> yields m R \<Longrightarrow> (\<And>a. R a \<Longrightarrow> keeps I (f a)) \<Longrightarrow> keeps I (bnd m f)"
  unfolding keeps_def yields_def holds_def bnd_def by (fastforce split: option.splits prod.splits)

definition plan_names :: "('w, 'c) transfer_ctx \<Rightarrow> nat list \<Rightarrow> string list" where
  "plan_names job order = map (\<lambda>i. ti_target_name (tp_items (tj_plan job) ! i)) order"

definition balanced :: "transfer_summary \<Rightarrow> bool" where
  "balanced s \<longleftrightarrow> ts_rows s = sum_list (map ir_rows (ts_items s))"

definition created_ok :: "('w, 'c) transfer_ctx \<Rightarrow> (nat \<times> table_detail) list \<Rightarrow> bool" where
  "created_ok job created \<longleftrightarrow>
     list_all (\<lambda>(i, _). i < length (tp_items (tj_plan job)) \<and> is_active (tp_items (tj_plan job) ! i)) created"

lemma keeps_push_report [prog_rules]: "job_reads_keep I job \<Longrightarrow> keeps I (push_report job summary index report)"
  by (auto simp: push_report_def intro!: prog_rules)

definition plan_writes_keep :: "('w \<Rightarrow> bool) \<Rightarrow> ('w, 'c) transfer_ctx \<Rightarrow> bool" where
  "plan_writes_keep I job \<longleftrightarrow> list_all (item_writes_keep I job) (tp_items (tj_plan job))"

lemma plan_writes_keepD:
  "plan_writes_keep I job \<Longrightarrow> i < length (tp_items (tj_plan job)) \<Longrightarrow> item_writes_keep I job (tp_items (tj_plan job) ! i)"
  by (simp add: plan_writes_keep_def list_all_length)

lemma keeps_run_items:
  assumes "job_reads_keep I job" "plan_writes_keep I job"
  shows "list_all (\<lambda>i. i < length (tp_items (tj_plan job))) order \<Longrightarrow> keeps I (run_items job position order summary created)"
proof (induction order arbitrary: position summary created)
  case (Cons index order)
  then have "item_writes_keep I job (tp_items (tj_plan job) ! index)" using plan_writes_keepD [OF assms(2)] by simp
  with Cons assms(1) show ?case
    by (auto simp: Let_def intro!: prog_rules split: sum.splits prod.splits item_failure.splits)
qed (simp add: prog_rules)

lemma keeps_create_indexes:
  "writes_keep I (tj_dst job) (target_ref job item) \<Longrightarrow> keeps I (create_indexes job item idxs summary)"
  by (induction idxs arbitrary: summary) (auto simp: Let_def writes_keep_def intro!: prog_rules)

lemma keeps_deferred_indexes:
  assumes "job_reads_keep I job" "plan_writes_keep I job"
  shows "created_ok job created \<Longrightarrow> keeps I (deferred_indexes job created summary)"
proof (induction created arbitrary: summary)
  case (Cons c created)
  then have "writes_keep I (tj_dst job) (target_ref job (tp_items (tj_plan job) ! fst c))"
    using plan_writes_keepD [OF assms(2), of "fst c"] by (cases c) (simp add: created_ok_def item_writes_keep_def)
  with Cons assms(1) show ?case
    by (cases c) (auto simp: Let_def created_ok_def intro!: keeps_create_indexes prog_rules)
qed (simp add: prog_rules)

lemma renamed_tables_target:
  assumes "created_ok job created" "renamed_tables job created k = Some name"
  shows "\<exists>item \<in> set (tp_items (tj_plan job)). is_active item \<and> ti_target_name item = name"
proof -
  let ?items = "tp_items (tj_plan job)"
  define step where "step = (\<lambda>(m :: string \<rightharpoonup> string) (index, _ :: table_detail). let item = ?items ! index in
       case ti_source item of SourceTable _ name \<Rightarrow> m(to_ascii_lowercase name \<mapsto> ti_target_name item) | _ \<Rightarrow> m)"
  have one: "step m c k = m k \<or> step m c k = Some (ti_target_name (?items ! fst c))" for m c
    by (cases c) (auto simp: step_def Let_def split: item_source.splits)
  have "m k = Some name \<or> (\<exists>c \<in> set created. ti_target_name (?items ! fst c) = name)"
    if "foldl step m created k = Some name" for m created
    using that
  proof (induction created arbitrary: m)
    case (Cons c created)
    from Cons.prems have "foldl step (step m c) created k = Some name" by simp
    from Cons.IH [OF this] one [of m c] show ?case by (elim disjE) auto
  qed simp
  from this [of Map.empty created] obtain c where c: "c \<in> set created" "ti_target_name (?items ! fst c) = name"
    using assms(2) unfolding renamed_tables_def step_def [symmetric] by blast
  then have "fst c < length ?items \<and> is_active (?items ! fst c)"
    using assms(1) by (cases c) (auto simp: created_ok_def list_all_iff)
  with c show ?thesis using nth_mem by blast
qed

lemma keeps_deferred_foreign_keys:
  assumes "job_reads_keep I job" "plan_writes_keep I job" "created_ok job created"
  shows "keeps I (deferred_foreign_keys job (renamed_tables job created) fks summary)"
proof (induction fks arbitrary: summary)
  case (Cons fk fks)
  have "writes_keep I (tj_dst job) (target_named job child)" if "fk_ends (renamed_tables job created) fk = Some (child, parent)" for child parent
  proof -
    have "renamed_tables job created (to_ascii_lowercase (fe_from_table fk)) = Some child"
      using that by (auto simp: fk_ends_def split: option.splits)
    then obtain item where "item \<in> set (tp_items (tj_plan job))" "is_active item" "ti_target_name item = child"
      using renamed_tables_target [OF assms(3)] by blast
    then show ?thesis using assms(2)
      by (auto simp: plan_writes_keep_def item_writes_keep_def list_all_iff target_named_def target_ref_def)
  qed
  with Cons assms(1) show ?case
    by (auto simp: Let_def writes_keep_def intro!: prog_rules split: option.splits prod.splits)
qed (simp add: prog_rules)

section \<open>The report of every item\<close>

definition item_names_ok :: "transfer_item \<Rightarrow> item_failure + (item_report \<times> table_detail option) \<Rightarrow> bool" where
  "item_names_ok item r \<longleftrightarrow>
     (case r of Inr (report, detail) \<Rightarrow> ir_table report = ti_target_name item \<and> \<not> is_problem (ir_outcome report) | Inl _ \<Rightarrow> True)"

lemma is_problem_simps [simp]:
  "is_problem (Failed m)" "\<not> is_problem (Skipped reason)" "\<not> is_problem Created" "\<not> is_problem CreatedEmpty"
  "\<not> is_problem Recreated" "\<not> is_problem Appended" "\<not> is_problem Replaced"
  by (simp_all add: is_problem_def)

lemma done_outcome_fine [simp]: "\<not> is_problem (done_outcome action moved)"
  by (cases "(action, moved)" rule: done_outcome.cases) auto

lemma yields_run_item: "yields (run_item job item position items base) (item_names_ok item)"
  unfolding run_item_def Let_def
  by (auto intro!: yields_any yields_ret simp: item_names_ok_def split: sum.splits prod.splits resolve_outcome.splits)

definition fine_so_far :: "('w, 'c) transfer_ctx \<Rightarrow> transfer_summary \<Rightarrow> bool" where
  "fine_so_far job s \<longleftrightarrow> balanced s \<and> (to_on_error (tp_options (tj_plan job)) = StopJob \<longrightarrow> summary_failures s = 0)"

definition reported :: "('w, 'c) transfer_ctx \<Rightarrow> nat list \<Rightarrow> string list \<Rightarrow> transfer_outcome + run_state \<Rightarrow> bool" where
  "reported job order done r \<longleftrightarrow>
     (case r of
        Inr (s, created) \<Rightarrow> map ir_table (ts_items s) = done @ plan_names job order \<and> fine_so_far job s \<and> created_ok job created
      | Inl (Cancelled s) \<Rightarrow> (\<exists>k. map ir_table (ts_items s) = done @ plan_names job (take k order)) \<and> fine_so_far job s
      | Inl (TransferFailed idx m s) \<Rightarrow> (\<exists>k < length order. map ir_table (ts_items s) = done @ plan_names job (take (Suc k) order) \<and>
            idx = Some (order ! k) \<and> ir_outcome (last (ts_items s)) = Failed m) \<and> balanced s \<and> summary_failures s = 1 \<and>
          to_on_error (tp_options (tj_plan job)) = StopJob
      | _ \<Rightarrow> False)"

lemma yields_push_report:
  "yields (push_report job summary index report) (\<lambda>s. s = summary\<lparr>ts_items := ts_items summary @ [report]\<rparr>)"
  unfolding push_report_def by (intro yields_any yields_ret) simp

lemma reported_later: "reported job order (done @ [ti_target_name (tp_items (tj_plan job) ! index)]) r \<Longrightarrow> reported job (index # order) done r"
  unfolding reported_def plan_names_def
  by (auto split: sum.splits prod.splits transfer_outcome.splits intro: exI [of _ "Suc _"])

lemma yields_run_items:
  "list_all (\<lambda>i. i < length (tp_items (tj_plan job))) order \<Longrightarrow> fine_so_far job summary \<Longrightarrow> created_ok job created \<Longrightarrow>
    yields (run_items job position order summary created) (reported job order (map ir_table (ts_items summary)))"
proof (induction order arbitrary: position summary created)
  case (Cons index order)
  let ?item = "tp_items (tj_plan job) ! index" and ?done = "map ir_table (ts_items summary)"
  let ?Q = "reported job (index # order) ?done"
  have later: "yields (bnd (push_report job (add_rows summary (ir_rows report)) index report) (\<lambda>s. run_items job p order s created1)) ?Q"
    if "ir_table report = ti_target_name ?item" "is_problem (ir_outcome report) \<Longrightarrow> to_on_error (tp_options (tj_plan job)) \<noteq> StopJob"
      "created_ok job created1" for report p created1
  proof (rule yields_bnd [OF yields_push_report])
    fix s
    assume s: "s = add_rows summary (ir_rows report)\<lparr>ts_items := ts_items (add_rows summary (ir_rows report)) @ [report]\<rparr>"
    then have "fine_so_far job s" using that Cons.prems(2) by (auto simp: fine_so_far_def balanced_def add_rows_def summary_failures_def)
    moreover have "map ir_table (ts_items s) = ?done @ [ti_target_name ?item]" using s that by (simp add: add_rows_def)
    ultimately have "yields (run_items job p order s created1) (reported job order (?done @ [ti_target_name ?item]))"
      using Cons.IH [of s created1 p] Cons.prems that by simp
    then show "yields (run_items job p order s created1) ?Q"
      unfolding yields_def by (rule holds_weaken) (rule reported_later)
  qed
  have now: "yields (bnd (push_report job (add_rows summary (ir_rows report)) index report) (\<lambda>s. ret (Inl (f s)))) ?Q"
    if "\<And>s. s = add_rows summary (ir_rows report)\<lparr>ts_items := ts_items summary @ [report]\<rparr> \<Longrightarrow> ?Q (Inl (f s))" for report f
    by (rule yields_bnd [OF yields_push_report]) (intro yields_ret that, simp add: add_rows_def)
  have skip: "push_report job summary index (skipped_report ?item ''not selected'' 0) =
      push_report job (add_rows summary (ir_rows (skipped_report ?item ''not selected'' 0))) index (skipped_report ?item ''not selected'' 0)"
    by (simp add: add_rows_def skipped_report_def)
  have stopped: "?Q (Inl (Cancelled summary))" using Cons.prems(2) by (auto simp: reported_def plan_names_def intro: exI [of _ 0])
  have cancelled: "?Q (Inl (Cancelled s))" if "s = add_rows summary rows\<lparr>ts_items := ts_items summary @ [skipped_report ?item ''cancelled'' rows]\<rparr>" for s rows
    using Cons.prems(2) that
    by (auto simp: reported_def plan_names_def fine_so_far_def balanced_def summary_failures_def add_rows_def skipped_report_def is_problem_def
        intro: exI [of _ 1])
  have failed: "?Q (Inl (TransferFailed (Some index) m s))"
    if "s = add_rows summary rows\<lparr>ts_items := ts_items summary @ [failed_report ?item m rows]\<rparr>"
      "to_on_error (tp_options (tj_plan job)) = StopJob" for s rows m
    using Cons.prems(2) that
    by (auto simp: reported_def plan_names_def fine_so_far_def balanced_def summary_failures_def add_rows_def failed_report_def is_problem_def
        intro: exI [of _ 0])
  have item: "yields (bnd (run_item job ?item position n base) g) ?Q" if "\<And>r. item_names_ok ?item r \<Longrightarrow> yields (g r) ?Q" for n base g
    by (rule yields_bnd [OF yields_run_item]) (rule that)
  have index: "index < length (tp_items (tj_plan job))" using Cons.prems(1) by simp
  have skipped_item: "yields (bnd (push_report job summary index (skipped_report ?item ''not selected'' 0)) (\<lambda>s. run_items job p order s created)) ?Q" for p
    unfolding skip by (rule later) (use Cons.prems(3) in \<open>simp_all add: skipped_report_def is_problem_def\<close>)
  have ran: "yields (case r of
      Inr (report, detail) \<Rightarrow> bnd (push_report job (add_rows summary (ir_rows report)) index report) (\<lambda>s.
        run_items job (position + 1) order s (case detail of Some d \<Rightarrow> created @ [(index, d)] | None \<Rightarrow> created))
    | Inl (FailCancelled rows) \<Rightarrow> bnd (push_report job (add_rows summary rows) index (skipped_report ?item ''cancelled'' rows)) (\<lambda>s. ret (Inl (Cancelled s)))
    | Inl (FailError rows m) \<Rightarrow> bnd (push_report job (add_rows summary rows) index (failed_report ?item m rows)) (\<lambda>s.
        if to_on_error (tp_options (tj_plan job)) = StopJob then ret (Inl (TransferFailed (Some index) m s))
        else run_items job (position + 1) order s created)) ?Q"
    if ok: "item_names_ok ?item r" and active: "is_active ?item" for r
  proof (cases r)
    case (Inl f)
    show ?thesis
    proof (cases f)
      case (FailCancelled rows)
      have "rows = ir_rows (skipped_report ?item ''cancelled'' rows)" by (simp add: skipped_report_def)
      with now [of "skipped_report ?item ''cancelled'' rows" Cancelled] cancelled show ?thesis by (simp add: Inl FailCancelled)
    next
      case (FailError rows m)
      have rows: "rows = ir_rows (failed_report ?item m rows)" by (simp add: failed_report_def)
      show ?thesis
      proof (cases "to_on_error (tp_options (tj_plan job)) = StopJob")
        case True
        with now [of "failed_report ?item m rows" "TransferFailed (Some index) m"] failed rows show ?thesis by (simp add: Inl FailError)
      next
        case False
        with later [of "failed_report ?item m rows" created] Cons.prems(3) rows show ?thesis
          by (simp add: Inl FailError failed_report_def)
      qed
    qed
  next
    case (Inr x)
    then show ?thesis using ok active index Cons.prems(3)
      by (cases x) (auto simp: item_names_ok_def created_ok_def intro!: later split: option.splits)
  qed
  have "yields (if stop then ret (Inl (Cancelled summary))
      else if \<not> is_active ?item then
        bnd (push_report job summary index (skipped_report ?item ''not selected'' 0)) (\<lambda>s. run_items job (position + 1) order s created)
      else bnd (run_item job ?item position (length (tp_items (tj_plan job))) (ts_rows summary)) (\<lambda>r. case r of
            Inr (report, detail) \<Rightarrow> bnd (push_report job (add_rows summary (ir_rows report)) index report) (\<lambda>s.
              run_items job (position + 1) order s (case detail of Some d \<Rightarrow> created @ [(index, d)] | None \<Rightarrow> created))
          | Inl (FailCancelled rows) \<Rightarrow> bnd (push_report job (add_rows summary rows) index (skipped_report ?item ''cancelled'' rows)) (\<lambda>s. ret (Inl (Cancelled s)))
          | Inl (FailError rows m) \<Rightarrow> bnd (push_report job (add_rows summary rows) index (failed_report ?item m rows)) (\<lambda>s.
              if to_on_error (tp_options (tj_plan job)) = StopJob then ret (Inl (TransferFailed (Some index) m s))
              else run_items job (position + 1) order s created))) ?Q" for stop
  proof (cases "stop \<or> \<not> is_active ?item")
    case True
    then show ?thesis using stopped skipped_item by (auto intro: yields_ret)
  next
    case False
    then have go: "\<not> stop" "\<not> \<not> is_active ?item" by simp_all
    show ?thesis unfolding if_not_P [OF go(1)] if_not_P [OF go(2)] by (rule item, rule ran, assumption) (use go in simp)
  qed
  then show ?case unfolding run_items.simps Let_def by (rule yields_any)
qed (auto simp: reported_def plan_names_def intro!: yields_ret)

lemma add_note_same:
  "map ir_table (add_note rs table warning) = map ir_table rs \<and> map ir_rows (add_note rs table warning) = map ir_rows rs \<and>
   map ir_outcome (add_note rs table warning) = map ir_outcome rs"
  by (induction rs) auto

definition same_reports :: "transfer_summary \<Rightarrow> transfer_summary \<Rightarrow> bool" where
  "same_reports s t \<longleftrightarrow> map ir_table (ts_items t) = map ir_table (ts_items s) \<and> map ir_rows (ts_items t) = map ir_rows (ts_items s) \<and>
     map ir_outcome (ts_items t) = map ir_outcome (ts_items s) \<and> ts_rows t = ts_rows s"

lemma same_reports_refl [simp]: "same_reports s s"
  by (simp add: same_reports_def)

lemma same_reports_trans: "same_reports s t \<Longrightarrow> same_reports t u \<Longrightarrow> same_reports s u"
  by (simp add: same_reports_def)

lemma same_reports_note [simp]: "same_reports s t \<Longrightarrow> same_reports s (note_item t table warning)"
  using add_note_same by (auto simp: same_reports_def note_item_def)

lemma yields_create_indexes: "same_reports s t \<Longrightarrow> yields (create_indexes job item idxs t) (same_reports s)"
  by (induction idxs arbitrary: t)
    (auto simp: Let_def intro!: yields_any yields_ret same_reports_note split: sum.splits)

lemma yields_deferred_indexes: "same_reports s t \<Longrightarrow> yields (deferred_indexes job created t) (same_reports s)"
proof (induction created arbitrary: t)
  case (Cons c created)
  have "yields (bnd (create_indexes job item idxs t) (\<lambda>u. deferred_indexes job created (if b u then u else note_item u n m))) (same_reports s)"
    for item idxs b n m
    by (rule yields_bnd [OF yields_create_indexes [OF Cons.prems]]) (auto intro: Cons.IH same_reports_note)
  with Cons.prems show ?case by (cases c) (auto simp: Let_def intro!: yields_any yields_ret)
qed (simp add: yields_ret)

lemma yields_deferred_foreign_keys: "same_reports s t \<Longrightarrow> yields (deferred_foreign_keys job renamed fks t) (same_reports s)"
  by (induction fks arbitrary: t)
    (auto simp: Let_def intro!: yields_any yields_ret same_reports_note split: option.splits sum.splits)

lemma yields_finish_job:
  "yields (finish_job job fks created s) (\<lambda>r. \<exists>t. same_reports s t \<and> (r = Cancelled t \<or> r = Finished t))"
  unfolding finish_job_def Let_def
proof (rule yields_bnd)
  show "yields (if to_indexes (tp_options (tj_plan job)) then deferred_indexes job created s else ret s) (same_reports s)"
    by (simp add: yields_deferred_indexes yields_ret same_reports_refl)
next
  fix t
  assume "same_reports s t"
  then show "yields (bnd (if to_foreign_keys (tp_options (tj_plan job)) then deferred_foreign_keys job (renamed_tables job created) fks t else ret t)
      (\<lambda>u. bnd (act (tj_cancelled job)) (\<lambda>stop. ret (if stop then Cancelled u else Finished u))))
      (\<lambda>r. \<exists>t. same_reports s t \<and> (r = Cancelled t \<or> r = Finished t))"
    by (intro yields_bnd [where R = "same_reports s"] yields_any yields_ret)
      (auto intro: yields_deferred_foreign_keys yields_ret)
qed

lemma keeps_finish_job:
  assumes "job_reads_keep I job" "plan_writes_keep I job" "created_ok job created"
  shows "keeps I (finish_job job fks created s)"
  unfolding finish_job_def Let_def using assms
  by (auto intro!: prog_rules keeps_deferred_indexes keeps_deferred_foreign_keys)

lemma run_order_ok: "list_all (\<lambda>i. i < length (tp_items plan)) (order_items plan fks)"
  using order_items_spec [of plan fks] by (auto simp: list_all_iff)

lemma empty_summary_fine: "fine_so_far job empty_summary"
  by (simp add: fine_so_far_def balanced_def summary_failures_def empty_summary_def)

text \<open>
  C34. A transfer touches only what its plan names: if every read keeps a fact about the world, creating, filling,
  indexing and constraining the target of every selected item keeps it, and dropping and clearing the targets of the
  items marked as overwriting keeps it, then the whole job keeps it. No other table is written, and none is dropped or
  cleared that no item marks.
\<close>

theorem transfer_touches_only_its_targets:
  assumes "job_reads_keep I job" and "plan_writes_keep I job" and "I w" and "transfer_job job w = Some (outcome, w1)"
  shows "I w1"
proof -
  have render: "keeps I (render_script job fks)" for fks
    using assms(1) by (auto simp: render_script_def Let_def intro!: prog_rules split: prod.splits)
  have run: "keeps I (bnd (run_items job 0 (order_items (tj_plan job) fks) empty_summary []) (\<lambda>r. case r of
      Inl outcome \<Rightarrow> ret outcome | Inr (summary, created) \<Rightarrow> finish_job job fks created summary))" for fks
  proof (rule keeps_bnd_yields)
    show "keeps I (run_items job 0 (order_items (tj_plan job) fks) empty_summary [])"
      by (rule keeps_run_items [OF assms(1,2) run_order_ok])
    show "yields (run_items job 0 (order_items (tj_plan job) fks) empty_summary [])
        (reported job (order_items (tj_plan job) fks) (map ir_table (ts_items empty_summary)))"
      by (rule yields_run_items [OF run_order_ok empty_summary_fine]) (simp add: created_ok_def)
    show "keeps I (case r of Inl outcome \<Rightarrow> ret outcome | Inr (summary, created) \<Rightarrow> finish_job job fks created summary)"
      if "reported job (order_items (tj_plan job) fks) (map ir_table (ts_items empty_summary)) r" for r
      using that by (auto simp: reported_def intro: prog_rules keeps_finish_job [OF assms(1,2)] split: sum.splits prod.splits)
  qed
  have "keeps I (transfer_job job)"
    unfolding transfer_job_def Let_def
    by (intro keeps_bnd) (use assms(1) render run in \<open>auto intro!: keeps_bnd keeps_ret keeps_reads\<close>)
  then show ?thesis using assms(3,4) keepsD [where m = "transfer_job job" and w = w and I = I] by blast
qed

definition known_fks :: "('w, 'c) transfer_ctx \<Rightarrow> 'w \<Rightarrow> fk_edge list" where
  "known_fks job w = (case fst (dr_foreign_keys (tj_src job) w) of Inl _ \<Rightarrow> [] | Inr fks \<Rightarrow> fks)"

lemma reported_same:
  "reported job order [] (Inr (s, created)) \<Longrightarrow> same_reports s t \<Longrightarrow>
    map ir_table (ts_items t) = plan_names job order \<and> fine_so_far job t"
  unfolding reported_def same_reports_def fine_so_far_def balanced_def summary_failures_def
  by (auto simp: length_filter_conv_card) (metis (mono_tags, lifting) length_map nth_map)

definition outcome_reports :: "('w, 'c) transfer_ctx \<Rightarrow> nat list \<Rightarrow> transfer_outcome \<Rightarrow> bool" where
  "outcome_reports job order r \<longleftrightarrow>
     (case r of
        Finished s \<Rightarrow> map ir_table (ts_items s) = plan_names job order \<and> fine_so_far job s
      | Cancelled s \<Rightarrow> (\<exists>k. map ir_table (ts_items s) = plan_names job (take k order)) \<and> fine_so_far job s
      | TransferFailed idx m s \<Rightarrow> (\<exists>k < length order. map ir_table (ts_items s) = plan_names job (take (Suc k) order) \<and>
            idx = Some (order ! k) \<and> ir_outcome (last (ts_items s)) = Failed m) \<and> balanced s \<and> summary_failures s = 1 \<and>
          to_on_error (tp_options (tj_plan job)) = StopJob
      | Planned _ _ \<Rightarrow> to_dry_run (tp_options (tj_plan job)))"

text \<open>
  C35. Nothing is swallowed: a job that finishes reports every item of the plan once, in the order it ran them, and a
  job that is cancelled or fails reports a first part of that order, the failed item last. The row count of the summary
  is always the sum over its reports, and a job told to stop on an error never finishes with a failed item.
\<close>

theorem transfer_reports_every_item:
  assumes "transfer_job job w = Some (outcome, w1)"
  shows "outcome_reports job (order_items (tj_plan job) (known_fks job w)) outcome"
proof -
  let ?order = "order_items (tj_plan job) (known_fks job w)"
  have step: "transfer_job job w =
      (if to_dry_run (tp_options (tj_plan job)) then bnd (render_script job (known_fks job w)) (\<lambda>(script, estimates). ret (Planned script estimates))
       else bnd (run_items job 0 ?order empty_summary []) (\<lambda>r. case r of
         Inl outcome \<Rightarrow> ret outcome | Inr (summary, created) \<Rightarrow> finish_job job (known_fks job w) created summary))
      (snd (dr_foreign_keys (tj_src job) w))"
    unfolding transfer_job_def bnd_act Let_def known_fks_def [symmetric] by (rule refl)
  show ?thesis
  proof (cases "to_dry_run (tp_options (tj_plan job))")
    case True
    have "yields (bnd (render_script job (known_fks job w)) (\<lambda>(script, estimates). ret (Planned script estimates)))
        (outcome_reports job ?order)"
      by (intro yields_any) (auto simp: outcome_reports_def True intro: yields_ret)
    from yieldsD [OF this] show ?thesis using assms True by (simp add: step)
  next
    case False
    have "yields (run_items job 0 ?order empty_summary []) (reported job ?order [])"
      using yields_run_items [OF run_order_ok empty_summary_fine, of job "[]" 0] by (simp add: created_ok_def empty_summary_def)
    then have "yields (bnd (run_items job 0 ?order empty_summary []) (\<lambda>r. case r of
         Inl outcome \<Rightarrow> ret outcome | Inr (summary, created) \<Rightarrow> finish_job job (known_fks job w) created summary)) (outcome_reports job ?order)"
    proof (rule yields_bnd)
      fix r
      assume r: "reported job ?order [] r"
      show "yields (case r of Inl outcome \<Rightarrow> ret outcome | Inr (summary, created) \<Rightarrow> finish_job job (known_fks job w) created summary)
          (outcome_reports job ?order)"
      proof (cases r)
        case (Inl out)
        with r show ?thesis by (cases out) (auto simp: reported_def outcome_reports_def intro!: yields_ret)
      next
        case (Inr st)
        obtain s created where st: "st = (s, created)" by (cases st)
        have "outcome_reports job ?order o1" if "same_reports s t" "o1 = Cancelled t \<or> o1 = Finished t" for o1 t
        proof -
          have "plan_names job ?order = plan_names job (take (length ?order) ?order)" by simp
          then have "\<exists>k. plan_names job ?order = plan_names job (take k ?order)" by (rule exI)
          then show ?thesis using that(2) reported_same [OF r [unfolded Inr st] that(1)] by (auto simp: outcome_reports_def)
        qed
        then show ?thesis
          unfolding Inr st sum.case prod.case
          using yields_finish_job [of job "known_fks job w" created s] unfolding yields_def by (rule_tac holds_weaken) blast+
      qed
    qed
    from yieldsD [OF this] show ?thesis using assms False by (simp add: step)
  qed
qed

section \<open>A transfer returns\<close>

definition returns :: "('w, 'a) prog \<Rightarrow> bool" where
  "returns m \<longleftrightarrow> (\<forall>w. m w \<noteq> None)"

lemma returns_ret [prog_rules]: "returns (ret a)"
  by (simp add: returns_def ret_def)

lemma returns_act [prog_rules]: "returns (act f)"
  by (simp add: returns_def act_def)

lemma returns_bnd [prog_rules]: "returns m \<Longrightarrow> (\<And>a. returns (f a)) \<Longrightarrow> returns (bnd m f)"
  unfolding returns_def bnd_def by (auto split: option.splits)

text \<open>
  Every cursor ends: \<open>left\<close> counts the windows still to come of the open cursors. Giving a window that is not the last
  lowers it, and no other step of the loop raises it.
\<close>

definition cursors_end :: "('w \<Rightarrow> nat) \<Rightarrow> ('w, 'c) transfer_ctx \<Rightarrow> bool" where
  "cursors_end left job \<longleftrightarrow>
     (\<forall>c w rows w1. dr_next_window (tj_src job) c w = (Inr (rows, False), w1) \<longrightarrow> left w1 < left w) \<and>
     (\<forall>t columns rows w. left (snd (dr_insert_rows (tj_dst job) t columns rows w)) \<le> left w) \<and>
     (\<forall>w. left (snd (tj_cancelled job w)) \<le> left w) \<and> (\<forall>e w. left (tj_emit job e w) \<le> left w)"

lemma stream_loop_returns:
  assumes window: "\<And>w rows w1. window w = (Inr (rows, False), w1) \<Longrightarrow> left w1 < (left w :: nat)"
    and ins: "\<And>rows w. left (snd (ins rows w)) \<le> left w" and poll: "\<And>w. left (snd (cancelled w)) \<le> left w"
    and progress: "\<And>n w. left (progress n w) \<le> left w"
  shows "stream_loop cancelled window ins progress mapping base committed w \<noteq> None"
proof (induction "left w" arbitrary: w committed rule: less_induct)
  case less
  obtain stop w1 where c: "cancelled w = (stop, w1)" by (cases "cancelled w")
  obtain answer w2 where a: "window w1 = (answer, w2)" by (cases "window w1")
  have w1: "left w1 \<le> left w" using poll [of w] c by simp
  have again: "stream_loop cancelled window ins progress mapping base n w3 \<noteq> None"
    if "answer = Inr (rows, False)" "left w3 \<le> left w2" for n w3 rows
  proof -
    have "left w2 < left w1" using window a that(1) by blast
    with w1 that(2) show ?thesis by (intro less) simp
  qed
  have stored: "left (progress n w3) \<le> left w2" if "ins rows w2 = (r, w3)" for n rows r w3
    using progress [of n w3] ins [of rows w2] that by simp
  show ?case
    by (subst stream_loop.simps) (use c a again stored in \<open>auto split: sum.splits prod.splits\<close>)
qed

lemma returns_stream:
  assumes "cursors_end left job"
  shows "returns (stream_cursor_into (tj_src job) cursor (tj_dst job) target mapping columns (tj_cancelled job) base
      (item_progress job position items table base0))"
  unfolding returns_def stream_cursor_into_def
  by (intro allI stream_loop_returns [where left = left]) (use assms in \<open>simp_all add: cursors_end_def item_progress_def\<close>)

lemma returns_resolve_item: "returns (resolve_item job item)"
  by (auto simp: resolve_item_def open_query_source_def Let_def intro!: prog_rules
      split: sum.splits prod.splits item_source.splits option.splits)

lemma returns_resolve_mapping: "returns (resolve_mapping job item target columns)"
  by (auto simp: resolve_mapping_def intro!: prog_rules split: sum.splits item_action.splits)

lemma returns_run_item:
  assumes "cursors_end left job"
  shows "returns (run_item job item position items base)"
proof -
  have "returns (move_rows job item target resolved cursor mapping position items base)" for target resolved cursor mapping
    unfolding move_rows_def stream_into_def Let_def using returns_stream [OF assms]
    by (auto intro!: prog_rules split: option.splits prod.splits red_error.splits sum.splits)
  moreover have "returns (prepare_target job item target columns)" for target columns
    by (auto simp: prepare_target_def intro!: prog_rules split: sum.splits)
  ultimately show ?thesis
    unfolding run_item_def Let_def using returns_resolve_item returns_resolve_mapping
    by (auto intro!: prog_rules split: sum.splits prod.splits resolve_outcome.splits)
qed

lemma returns_push_report: "returns (push_report job summary index report)"
  by (auto simp: push_report_def emit_event_def intro!: prog_rules)

lemma returns_run_items:
  assumes "cursors_end left job"
  shows "returns (run_items job position order summary created)"
proof (induction order arbitrary: position summary created)
  case (Cons index order)
  with returns_run_item [OF assms] returns_push_report show ?case
    by (auto simp: Let_def intro!: prog_rules split: sum.splits prod.splits item_failure.splits)
qed (simp add: prog_rules)

lemma returns_finish_job: "returns (finish_job job fks created summary)"
proof -
  have idx: "returns (create_indexes job item idxs s)" for item idxs s
    by (induction idxs arbitrary: s) (auto simp: Let_def intro!: prog_rules)
  have "returns (deferred_indexes job created s)" for s
    by (induction created arbitrary: s) (auto simp: Let_def intro!: prog_rules idx)
  moreover have "returns (deferred_foreign_keys job renamed fks s)" for renamed s
    by (induction fks arbitrary: s) (auto simp: Let_def intro!: prog_rules split: option.splits prod.splits)
  ultimately show ?thesis by (auto simp: finish_job_def Let_def intro!: prog_rules)
qed

lemma returns_render_items: "returns (render_items job order st)"
  by (induction order arbitrary: st)
    (auto simp: Let_def intro!: prog_rules returns_resolve_item split: sum.splits prod.splits option.splits resolve_outcome.splits)

text \<open>C38. A transfer returns, whatever its plan and whatever its drivers answer, when every cursor it opens ends.\<close>

theorem transfer_returns:
  assumes "cursors_end left job"
  shows "\<exists>outcome w1. transfer_job job w = Some (outcome, w1)"
proof -
  have "returns (render_script job fks)" for fks
    by (auto simp: render_script_def Let_def intro!: prog_rules returns_render_items)
  then have "returns (transfer_job job)"
    using returns_run_items [OF assms] returns_finish_job
    by (auto simp: transfer_job_def Let_def intro!: prog_rules split: sum.splits prod.splits)
  then show ?thesis by (auto simp: returns_def)
qed

section \<open>Which rows have arrived\<close>

text \<open>
  What the loop relies on. \<open>given\<close> is what the cursor has handed over so far, \<open>stored\<close> the target's rows: a window hands
  over its rows and leaves the target alone, an insert is all or nothing, and neither the cancel flag nor an event
  touches either. \<open>drained\<close> says that the cursor's last window is out.
\<close>

definition honest_stream ::
  "('w \<Rightarrow> bool \<times> 'w) \<Rightarrow> ('w, row_window) call \<Rightarrow> (db_value list list \<Rightarrow> ('w, nat) call) \<Rightarrow> (nat \<Rightarrow> 'w \<Rightarrow> 'w)
     \<Rightarrow> ('w \<Rightarrow> db_value list list) \<Rightarrow> ('w \<Rightarrow> db_value list list) \<Rightarrow> ('w \<Rightarrow> bool) \<Rightarrow> bool"
where
  "honest_stream cancelled window ins progress given stored drained \<longleftrightarrow>
     (\<forall>w. given (snd (cancelled w)) = given w \<and> stored (snd (cancelled w)) = stored w) \<and>
     (\<forall>w. (case window w of
        (Inr (rows, fin), w1) \<Rightarrow> given w1 = given w @ rows \<and> stored w1 = stored w \<and> (fin \<longrightarrow> drained w1)
      | (Inl _, w1) \<Rightarrow> given w1 = given w \<and> stored w1 = stored w)) \<and>
     (\<forall>chunk w. (case ins chunk w of
        (Inr n, w1) \<Rightarrow> given w1 = given w \<and> n = length chunk \<and> stored w1 = stored w @ chunk \<and> (drained w \<longrightarrow> drained w1)
      | (Inl _, w1) \<Rightarrow> given w1 = given w \<and> stored w1 = stored w)) \<and>
     (\<forall>n w. given (progress n w) = given w \<and> stored (progress n w) = stored w \<and> (drained w \<longrightarrow> drained (progress n w)))"

lemma honest_streamD:
  assumes "honest_stream cancelled window ins progress given stored drained"
  shows "cancelled w = (b, w1) \<Longrightarrow> given w1 = given w \<and> stored w1 = stored w"
    and "window w = (Inr (rows, fin), w1) \<Longrightarrow> given w1 = given w @ rows \<and> stored w1 = stored w \<and> (fin \<longrightarrow> drained w1)"
    and "window w = (Inl e, w1) \<Longrightarrow> given w1 = given w \<and> stored w1 = stored w"
    and "ins chunk w = (Inr n, w1) \<Longrightarrow>
      given w1 = given w \<and> n = length chunk \<and> stored w1 = stored w @ chunk \<and> (drained w \<longrightarrow> drained w1)"
    and "ins chunk w = (Inl e, w1) \<Longrightarrow> given w1 = given w \<and> stored w1 = stored w"
    and "given (progress n w) = given w" "stored (progress n w) = stored w" "drained w \<Longrightarrow> drained (progress n w)"
proof -
  note H = assms [unfolded honest_stream_def]
  show "cancelled w = (b, w1) \<Longrightarrow> given w1 = given w \<and> stored w1 = stored w" using H by (metis snd_conv)
  note window = H [THEN conjunct2, THEN conjunct1, THEN spec [of _ w]]
  note inserted = H [THEN conjunct2, THEN conjunct2, THEN conjunct1, THEN spec [of _ chunk], THEN spec [of _ w]]
  show "window w = (Inr (rows, fin), w1) \<Longrightarrow> given w1 = given w @ rows \<and> stored w1 = stored w \<and> (fin \<longrightarrow> drained w1)"
    and "window w = (Inl e, w1) \<Longrightarrow> given w1 = given w \<and> stored w1 = stored w" using window by auto
  show "ins chunk w = (Inr n, w1) \<Longrightarrow>
      given w1 = given w \<and> n = length chunk \<and> stored w1 = stored w @ chunk \<and> (drained w \<longrightarrow> drained w1)"
    and "ins chunk w = (Inl e, w1) \<Longrightarrow> given w1 = given w \<and> stored w1 = stored w" using inserted by auto
  show "given (progress n w) = given w" "stored (progress n w) = stored w" "drained w \<Longrightarrow> drained (progress n w)"
    using H by blast+
qed

text \<open>
  C36. However a copy stops, what has arrived is a first part of what was read: the target has gained exactly the first
  \<open>n\<close> rows the cursor handed over, each with its columns in the mapping's order, where \<open>n\<close> is the count the copy
  reports. If it stops without an error, the cursor was read to its end and every row is there.
\<close>

theorem copied_rows_are_a_prefix:
  assumes honest: "honest_stream cancelled (dr_next_window src cursor) (dr_insert_rows dst target columns) progress given stored drained"
    and run: "stream_cursor_into src cursor dst target mapping columns cancelled base progress w = Some ((n, err), w1)"
  shows "\<exists>rows. given w1 = given w @ rows \<and> n \<le> length rows \<and> stored w1 = stored w @ map (project_row mapping) (take n rows) \<and>
    (err = None \<longrightarrow> drained w1 \<and> n = length rows)"
proof -
  note H = honest_streamD [OF honest]
  let ?J = "\<lambda>k v. \<exists>rows. given v = given w @ rows \<and> k = length rows \<and> stored v = stored w @ map (project_row mapping) rows"
  let ?Q = "\<lambda>r v. \<exists>rows. given v = given w @ rows \<and> fst r \<le> length rows \<and> stored v = stored w @ map (project_row mapping) (take (fst r) rows) \<and>
    (snd r = None \<longrightarrow> drained v \<and> fst r = length rows)"
  have "?Q (n, err) w1"
  proof (rule stream_loop_rule [where J = ?J and Q = ?Q, OF _ run [unfolded stream_cursor_into_def]])
    show "?J 0 w" by simp
  next
    fix k v v1 assume "?J k v" "cancelled v = (True, v1)"
    then show "?Q (k, Some Interrupted) v1" using H(1) by fastforce
  next
    fix k v v1 assume "?J k v" "cancelled v = (False, v1)"
    then show "?J k v1" using H(1) by fastforce
  next
    fix k v v1 e assume "?J k v" "dr_next_window src cursor v = (Inl e, v1)"
    then show "?Q (k, Some e) v1" using H(3) by fastforce
  next
    fix k v v1 assume "?J k v" "dr_next_window src cursor v = (Inr ([], False), v1)"
    then show "?J k v1" using H(2) by fastforce
  next
    fix k v v1 assume "?J k v" "dr_next_window src cursor v = (Inr ([], True), v1)"
    then show "?Q (k, None) v1" using H(2) by fastforce
  next
    fix k v v1 v2 new fin e
    assume J: "?J k v" and read: "dr_next_window src cursor v = (Inr (new, fin), v1)"
      and ins: "dr_insert_rows dst target columns (map (project_row mapping) new) v1 = (Inl e, v2)"
    from J obtain rows where "given v = given w @ rows" "k = length rows" "stored v = stored w @ map (project_row mapping) rows" by blast
    then show "?Q (k, Some e) v2" using H(2) [OF read] H(5) [OF ins] by (intro exI [of _ "rows @ new"]) simp
  next
    fix k v v1 v2 new j
    assume J: "?J k v" and read: "dr_next_window src cursor v = (Inr (new, False), v1)"
      and ins: "dr_insert_rows dst target columns (map (project_row mapping) new) v1 = (Inr j, v2)"
    from J obtain rows where "given v = given w @ rows" "k = length rows" "stored v = stored w @ map (project_row mapping) rows" by blast
    then show "?J (k + j) (progress (base + (k + j)) v2)"
      using H(2) [OF read] H(4) [OF ins] by (intro exI [of _ "rows @ new"]) (simp add: H(6,7))
  next
    fix k v v1 v2 new j
    assume J: "?J k v" and read: "dr_next_window src cursor v = (Inr (new, True), v1)"
      and ins: "dr_insert_rows dst target columns (map (project_row mapping) new) v1 = (Inr j, v2)"
    from J obtain rows where "given v = given w @ rows" "k = length rows" "stored v = stored w @ map (project_row mapping) rows" by blast
    then show "?Q (k + j, None) (progress (base + (k + j)) v2)"
      using H(2) [OF read] H(4) [OF ins] by (intro exI [of _ "rows @ new"]) (simp add: H(6-8))
  qed
  then show ?thesis by simp
qed

end
