(* ===== verification/Transfer_Jobs.thy ===== *)
theory Transfer_Jobs
  imports Transfer_Laws
begin

text \<open>
  The two older copy jobs of \<^verbatim>\<open>crates/red-service/src/dispatch/jobs.rs\<close>, \<^verbatim>\<open>copy_job\<close> and \<^verbatim>\<open>migrate_job\<close>, over the
  drivers and the streaming loop of the transfer; an in-memory driver for the witnesses; and what modelling showed.
\<close>

section \<open>Copying one result\<close>

definition guarded :: "('w \<Rightarrow> bool \<times> 'w) \<Rightarrow> ('w, unit) call \<Rightarrow> ('w, red_error option) prog" where
  "guarded cancelled f =
     bnd (act cancelled) (\<lambda>stop.
       if stop then ret (Some Interrupted)
       else bnd (act f) (\<lambda>r. ret (case r of Inl e \<Rightarrow> Some e | Inr _ \<Rightarrow> None)))"

definition copy_job ::
  "('w, 'c) db_driver \<Rightarrow> ('w, 'c) db_driver \<Rightarrow> string \<Rightarrow> table_ref \<Rightarrow> column_map list \<Rightarrow> copy_mode \<Rightarrow> column_meta list option
     \<Rightarrow> ('w \<Rightarrow> bool \<times> 'w) \<Rightarrow> (transfer_event \<Rightarrow> 'w \<Rightarrow> 'w) \<Rightarrow> ('w, import_result) prog"
where
  "copy_job src dst source_sql target mapping mode create cancelled emit =
     (if mapping = [] then ret (0, Some (QueryError ''no columns map onto the target''))
      else
        (let target_columns = map (\<lambda>m. \<lparr>col_name = mp_column m, col_decl_type = mp_decl m\<rparr>) mapping in
         bnd (case create of None \<Rightarrow> ret None | Some columns \<Rightarrow> guarded cancelled (dr_create_table dst target columns)) (\<lambda>err. case err of
           Some e \<Rightarrow> ret (0, Some e)
         | None \<Rightarrow>
         bnd (if mode = TruncateInsert then guarded cancelled (dr_clear_table dst target) else ret None) (\<lambda>err. case err of
           Some e \<Rightarrow> ret (0, Some e)
         | None \<Rightarrow> stream_into src dst source_sql target mapping target_columns cancelled 0 (\<lambda>n. emit (CopyProgress n))))))"

section \<open>Migrating a schema\<close>

record ('w, 'c) migrate_ctx =
  mg_src :: "('w, 'c) db_driver"
  mg_dst :: "('w, 'c) db_driver"
  mg_source_schema :: "string option"
  mg_target_schema :: "string option"
  mg_cancelled :: "'w \<Rightarrow> bool \<times> 'w"
  mg_emit :: "transfer_event \<Rightarrow> 'w \<Rightarrow> 'w"

definition existing_names :: "string option \<Rightarrow> (string \<times> string list) list \<Rightarrow> string list" where
  "existing_names target_schema schemas =
     concat (map (\<lambda>(_, objects). map to_ascii_lowercase objects)
       (filter (\<lambda>(name, _). case target_schema of None \<Rightarrow> True | Some t \<Rightarrow> eq_ignore_ascii_case name t) schemas))"

definition migrate_target :: "('w, 'c) migrate_ctx \<Rightarrow> string \<Rightarrow> table_ref" where
  "migrate_target ctx name = \<lparr>tr_schema = mg_target_schema ctx, tr_name = name\<rparr>"

definition migrate_table :: "('w, 'c) migrate_ctx \<Rightarrow> string \<Rightarrow> table_detail \<Rightarrow> nat \<Rightarrow> ('w, import_result) prog" where
  "migrate_table ctx table detail committed =
     (let columns = map (\<lambda>c. \<lparr>col_name = cm_name c, col_decl_type = cm_type c\<rparr>) (td_columns detail);
          source = \<lparr>tr_schema = mg_source_schema ctx, tr_name = table\<rparr>
      in stream_into (mg_src ctx) (mg_dst ctx) (''SELECT * FROM '' @ dr_quote_table (mg_src ctx) source) (migrate_target ctx table)
           (identity_mapping columns) columns (mg_cancelled ctx) committed (\<lambda>n. mg_emit ctx (CopyProgress n)))"

fun migrate_tables ::
  "('w, 'c) migrate_ctx \<Rightarrow> string list \<Rightarrow> string list \<Rightarrow> nat \<Rightarrow> (string \<times> table_detail) list
     \<Rightarrow> ('w, import_result + (nat \<times> (string \<times> table_detail) list)) prog"
where
  "migrate_tables ctx existing [] committed migrated = ret (Inr (committed, migrated))"
| "migrate_tables ctx existing (table # tables) committed migrated =
     bnd (act (mg_cancelled ctx)) (\<lambda>stop.
       if stop then ret (Inl (committed, Some Interrupted))
       else if to_ascii_lowercase table \<in> set existing then migrate_tables ctx existing tables committed migrated
       else
         bnd (act (dr_describe_table (mg_src ctx) (case mg_source_schema ctx of Some s \<Rightarrow> s | None \<Rightarrow> []) table)) (\<lambda>r. case r of
           Inl e \<Rightarrow> ret (Inl (committed, Some e))
         | Inr detail \<Rightarrow>
             if td_columns detail = [] then migrate_tables ctx existing tables committed migrated
             else
               bnd (act (dr_create_table (mg_dst ctx) (migrate_target ctx table) (td_columns detail))) (\<lambda>r. case r of
                 Inl e \<Rightarrow> ret (Inl (committed, Some e))
               | Inr _ \<Rightarrow>
                   bnd (migrate_table ctx table detail committed) (\<lambda>(delta, err). case err of
                     Some e \<Rightarrow> ret (Inl (committed + delta, Some e))
                   | None \<Rightarrow> migrate_tables ctx existing tables (committed + delta) (migrated @ [(table, detail)])))))"

definition migrated_indexes :: "table_detail \<Rightarrow> index_meta list" where
  "migrated_indexes detail =
     (let pk = set (primary_key_names detail) in
      filter (\<lambda>idx. \<not> (im_columns idx = [] \<or> (pk \<noteq> {} \<and> set (map to_ascii_lowercase (im_columns idx)) = pk)
                       \<or> engine_index_name (to_ascii_lowercase (im_name idx)))) (td_indexes detail))"

fun migrate_create_indexes :: "('w, 'c) migrate_ctx \<Rightarrow> string \<Rightarrow> index_meta list \<Rightarrow> ('w, unit) prog" where
  "migrate_create_indexes ctx table [] = ret ()"
| "migrate_create_indexes ctx table (idx # idxs) =
     bnd (act (dr_create_index (mg_dst ctx) (migrate_target ctx table) (im_name idx) (im_unique idx) (im_columns idx))) (\<lambda>_.
       migrate_create_indexes ctx table idxs)"

text \<open>Both passes say whether they ran to their end.\<close>

fun migrate_index_pass :: "('w, 'c) migrate_ctx \<Rightarrow> (string \<times> table_detail) list \<Rightarrow> ('w, bool) prog" where
  "migrate_index_pass ctx [] = ret True"
| "migrate_index_pass ctx ((table, detail) # migrated) =
     bnd (act (mg_cancelled ctx)) (\<lambda>stop.
       if stop then ret False
       else bnd (migrate_create_indexes ctx table (migrated_indexes detail)) (\<lambda>_. migrate_index_pass ctx migrated))"

fun migrate_fk_pass :: "('w, 'c) migrate_ctx \<Rightarrow> string list \<Rightarrow> fk_edge list \<Rightarrow> ('w, bool) prog" where
  "migrate_fk_pass ctx migrated [] = ret True"
| "migrate_fk_pass ctx migrated (fk # fks) =
     bnd (act (mg_cancelled ctx)) (\<lambda>stop.
       if stop then ret False
       else if to_ascii_lowercase (fe_from_table fk) \<notin> set migrated \<or> to_ascii_lowercase (fe_to_table fk) \<notin> set migrated
          \<or> \<not> in_scope (mg_source_schema ctx) (fe_from_schema fk) \<or> \<not> in_scope (mg_source_schema ctx) (fe_to_schema fk)
       then migrate_fk_pass ctx migrated fks
       else
         bnd (act (dr_add_foreign_key (mg_dst ctx) (migrate_target ctx (fe_from_table fk)) (map fst (fe_columns fk))
                     (migrate_target ctx (fe_to_table fk)) (map snd (fe_columns fk)))) (\<lambda>_.
           migrate_fk_pass ctx migrated fks))"

definition migrate_job :: "('w, 'c) migrate_ctx \<Rightarrow> string list \<Rightarrow> ('w, import_result) prog" where
  "migrate_job ctx tables =
     bnd (act (dr_foreign_keys (mg_src ctx))) (\<lambda>r.
       (let fks = (case r of Inl _ \<Rightarrow> [] | Inr fks \<Rightarrow> fks) in
        bnd (act (dr_list_objects (mg_dst ctx))) (\<lambda>r.
          (let existing = (case r of Inl _ \<Rightarrow> [] | Inr schemas \<Rightarrow> existing_names (mg_target_schema ctx) schemas) in
           bnd (migrate_tables ctx existing (order_by_fk tables (mg_source_schema ctx) fks) 0 []) (\<lambda>r. case r of
             Inl result \<Rightarrow> ret result
           | Inr (committed, migrated) \<Rightarrow>
               bnd (migrate_index_pass ctx migrated) (\<lambda>ok.
                 if \<not> ok then ret (committed, Some Interrupted)
                 else bnd (migrate_fk_pass ctx (map (\<lambda>(t, _). to_ascii_lowercase t) migrated) fks) (\<lambda>ok.
                   ret (committed, if ok then None else Some Interrupted))))))))"

subsection \<open>A migration leaves existing tables alone\<close>

definition migrate_reads_keep :: "('w \<Rightarrow> bool) \<Rightarrow> ('w, 'c) migrate_ctx \<Rightarrow> bool" where
  "migrate_reads_keep I ctx \<longleftrightarrow> reads_keep I (mg_src ctx) \<and> reads_keep I (mg_dst ctx) \<and> call_keeps I (mg_cancelled ctx) \<and>
     (\<forall>e w. I w \<longrightarrow> I (mg_emit ctx e w))"

definition fresh_writes_keep :: "('w \<Rightarrow> bool) \<Rightarrow> ('w, 'c) migrate_ctx \<Rightarrow> string list \<Rightarrow> bool" where
  "fresh_writes_keep I ctx existing \<longleftrightarrow>
     (\<forall>name. to_ascii_lowercase name \<notin> set existing \<longrightarrow> writes_keep I (mg_dst ctx) (migrate_target ctx name))"

lemma keeps_migrate_reads [prog_rules]:
  assumes "migrate_reads_keep I ctx"
  shows "keeps I (act (mg_cancelled ctx))" "keeps I (act (dr_describe_table (mg_src ctx) s t))"
    "keeps I (act (dr_foreign_keys (mg_src ctx)))" "keeps I (act (dr_list_objects (mg_dst ctx)))"
  using assms by (auto simp: migrate_reads_keep_def reads_keep_def intro!: keeps_act)

lemma keeps_migrate_table [prog_rules]:
  assumes "migrate_reads_keep I ctx" "writes_keep I (mg_dst ctx) (migrate_target ctx table)"
  shows "keeps I (migrate_table ctx table detail committed)"
proof -
  have "call_keeps I (dr_open_cursor (mg_src ctx) q)" for q
    using assms(1) by (auto simp: migrate_reads_keep_def reads_keep_def)
  moreover have "keeps I (stream_cursor_into (mg_src ctx) c (mg_dst ctx) (migrate_target ctx table) mapping columns (mg_cancelled ctx) committed
      (\<lambda>n. mg_emit ctx (CopyProgress n)))" for c mapping columns
    unfolding stream_cursor_into_def using assms
    by (intro keeps_stream_loop) (auto simp: migrate_reads_keep_def reads_keep_def writes_keep_def)
  ultimately show ?thesis
    unfolding migrate_table_def stream_into_def Let_def by (auto intro!: prog_rules split: sum.splits)
qed

lemma keeps_migrate_tables:
  assumes "migrate_reads_keep I ctx" "fresh_writes_keep I ctx existing"
  shows "keeps I (migrate_tables ctx existing tables committed migrated)"
proof (induction tables arbitrary: committed migrated)
  case (Cons table tables)
  show ?case
  proof (cases "to_ascii_lowercase table \<in> set existing")
    case True
    with Cons assms(1) show ?thesis by (auto intro!: prog_rules)
  next
    case False
    then have w: "writes_keep I (mg_dst ctx) (migrate_target ctx table)" using assms(2) by (simp add: fresh_writes_keep_def)
    then have "call_keeps I (dr_create_table (mg_dst ctx) (migrate_target ctx table) cs)" for cs
      by (auto simp: writes_keep_def)
    with Cons assms(1) w show ?thesis by (auto intro!: prog_rules split: sum.splits option.splits prod.splits)
  qed
qed (simp add: prog_rules)

lemma yields_migrate_tables:
  "list_all (\<lambda>(t, _). to_ascii_lowercase t \<notin> set existing) migrated \<Longrightarrow>
    yields (migrate_tables ctx existing tables committed migrated)
      (\<lambda>r. case r of Inr (_, m) \<Rightarrow> list_all (\<lambda>(t, _). to_ascii_lowercase t \<notin> set existing) m | Inl _ \<Rightarrow> True)"
  by (induction tables arbitrary: committed migrated)
    (auto intro!: yields_any yields_ret split: sum.splits option.splits prod.splits)

lemma keeps_migrate_create_indexes:
  "writes_keep I (mg_dst ctx) (migrate_target ctx table) \<Longrightarrow> keeps I (migrate_create_indexes ctx table idxs)"
  by (induction idxs) (auto simp: writes_keep_def intro!: prog_rules)

lemma keeps_migrate_index_pass:
  assumes "migrate_reads_keep I ctx" "fresh_writes_keep I ctx existing"
  shows "list_all (\<lambda>(t, _). to_ascii_lowercase t \<notin> set existing) migrated \<Longrightarrow> keeps I (migrate_index_pass ctx migrated)"
  by (induction migrated)
    (use assms in \<open>auto simp: fresh_writes_keep_def intro!: prog_rules keeps_migrate_create_indexes\<close>)

lemma keeps_migrate_fk_pass:
  assumes "migrate_reads_keep I ctx" "fresh_writes_keep I ctx existing" "set migrated \<inter> set existing = {}"
  shows "keeps I (migrate_fk_pass ctx migrated fks)"
proof (induction fks)
  case (Cons fk fks)
  have "call_keeps I (dr_add_foreign_key (mg_dst ctx) (migrate_target ctx (fe_from_table fk)) cs t rs)"
    if "to_ascii_lowercase (fe_from_table fk) \<in> set migrated" for cs t rs
  proof -
    have "to_ascii_lowercase (fe_from_table fk) \<notin> set existing" using that assms(3) by blast
    then show ?thesis using assms(2) by (auto simp: fresh_writes_keep_def writes_keep_def)
  qed
  with Cons assms(1) show ?case by (auto intro!: prog_rules)
qed (simp add: prog_rules)


section \<open>An in-memory driver\<close>

text \<open>
  Tables are lists of rows under their names, a cursor hands out the rows its table had when it was opened, one in a
  window, and the cancel flag is set once it has been read often enough.
\<close>

record mem_world =
  mw_tables :: "(string \<times> db_value list list) list"
  mw_windows :: "db_value list list list"
  mw_given :: "db_value list list"
  mw_polls :: nat
  mw_events :: "transfer_event list"

definition mem_rows :: "string \<Rightarrow> mem_world \<Rightarrow> db_value list list" where
  "mem_rows name w = (case map_of (mw_tables w) name of Some rows \<Rightarrow> rows | None \<Rightarrow> [])"

definition mem_set :: "string \<Rightarrow> db_value list list \<Rightarrow> mem_world \<Rightarrow> mem_world" where
  "mem_set name rows w = w\<lparr>mw_tables := (name, rows) # mw_tables w\<rparr>"

definition mem_window :: "(mem_world, row_window) call" where
  "mem_window w =
     (case mw_windows w of
        [] \<Rightarrow> (Inr ([], True), w)
      | rows # more_rows \<Rightarrow> (Inr (rows, more_rows = []), w\<lparr>mw_windows := more_rows, mw_given := mw_given w @ rows\<rparr>))"

definition mem_queried :: "string \<Rightarrow> mem_world \<Rightarrow> db_value list list" where
  "mem_queried sql w = mem_rows (drop (length ''SELECT * FROM '') sql) w"

definition mem_insert :: "string \<Rightarrow> db_value list list \<Rightarrow> (mem_world, nat) call" where
  "mem_insert name rows w = (Inr (length rows), mem_set name (mem_rows name w @ rows) w)"

definition mem_cancelled :: "mem_world \<Rightarrow> bool \<times> mem_world" where
  "mem_cancelled w = (mw_polls w = 0, w\<lparr>mw_polls := mw_polls w - 1\<rparr>)"

definition mem_emit :: "transfer_event \<Rightarrow> mem_world \<Rightarrow> mem_world" where
  "mem_emit e w = w\<lparr>mw_events := mw_events w @ [e]\<rparr>"

definition mem_column :: "string \<Rightarrow> column_meta" where
  "mem_column name =
     \<lparr>cm_name = name, cm_type = Some ''int'', cm_not_null = False, cm_primary_key = False, cm_default = None, cm_auto_increment = False\<rparr>"

definition mem_detail :: "string \<Rightarrow> table_detail" where
  "mem_detail name =
     \<lparr>td_columns = [mem_column (if name = ''people'' then ''nick'' else ''id'')], td_foreign_keys = [], td_indexes = []\<rparr>"

definition mem_driver :: "(mem_world, unit) db_driver" where
  "mem_driver =
     \<lparr>dr_quote_ident = id, dr_quote_table = tr_name, dr_foreign_keys = Pair (Inr []), dr_describe_table = (\<lambda>_ name. Pair (Inr (mem_detail name))),
      dr_list_objects = (\<lambda>w. (Inr [(''main'', map fst (mw_tables w))], w)), dr_open_cursor = (\<lambda>sql w. (Inr (), w\<lparr>mw_windows := map (\<lambda>r. [r]) (mem_queried sql w)\<rparr>)),
      dr_columns = (\<lambda>_. [\<lparr>col_name = ''id'', col_decl_type = Some ''int''\<rparr>]), dr_next_window = (\<lambda>_. mem_window),
      dr_count = (\<lambda>sql w. (Inr (int (length (mem_queried sql w))), w)), dr_create_table = (\<lambda>_ _. Pair (Inr ())),
      dr_drop_table = (\<lambda>t w. (Inr (), mem_set (tr_name t) [] w)), dr_clear_table = (\<lambda>t w. (Inr (), mem_set (tr_name t) [] w)),
      dr_insert_rows = (\<lambda>t _. mem_insert (tr_name t)), dr_create_index = (\<lambda>_ _ _ _. Pair (Inr ())),
      dr_add_foreign_key = (\<lambda>_ _ _ _. Pair (Inr ()))\<rparr>"

definition mem_start :: "nat \<Rightarrow> mem_world" where
  "mem_start polls =
     \<lparr>mw_tables = [(''users'', [[Integer 7], [Integer 8]]), (''people'', [[Integer 1]]), (''other'', [[Integer 9]])],
      mw_windows = [], mw_given = [], mw_polls = polls, mw_events = []\<rparr>"

definition mem_job :: "bool \<Rightarrow> transfer_item list \<Rightarrow> (mem_world, unit) transfer_ctx" where
  "mem_job dry items =
     \<lparr>tj_src = mem_driver, tj_dst = mem_driver, tj_src_kind = Sqlite, tj_dst_kind = Sqlite,
      tj_plan = \<lparr>tp_source_namespace = None, tp_target_namespace = None, tp_items = items, tp_options = default_transfer_options\<lparr>to_dry_run := dry\<rparr>\<rparr>,
      tj_result_sql = Map.empty, tj_cancelled = mem_cancelled, tj_emit = mem_emit\<rparr>"

definition refill_people :: transfer_item where
  "refill_people =
     (item_table ''users'')\<lparr>ti_target_name := ''people'', ti_action := Existing TruncateInsert,
        ti_mapping := [\<lparr>mp_source = 0, mp_column = ''nick'', mp_decl = Some ''int''\<rparr>]\<rparr>"

lemmas mem_defs = mem_driver_def mem_job_def mem_window_def mem_insert_def mem_cancelled_def mem_emit_def mem_set_def mem_rows_def

lemma mem_cursors_end: "cursors_end (\<lambda>w. length (mw_windows w)) (mem_job dry items)"
  by (auto simp: cursors_end_def mem_defs split: list.splits)

theorem transfer_returns_witness: "\<exists>outcome w1. transfer_job (mem_job False [refill_people]) (mem_start 9) = Some (outcome, w1)"
  by (rule transfer_returns [OF mem_cursors_end])

lemma mem_run: "map_option fst (transfer_job (mem_job False [refill_people]) (mem_start 9)) =
   Some (Finished \<lparr>ts_items = [\<lparr>ir_table = ''people'', ir_outcome = Replaced, ir_rows = 2, ir_warnings = []\<rparr>], ts_rows = 2\<rparr>)"
  by code_simp

theorem transfer_reports_every_item_witness:
  "\<exists>outcome w1. transfer_job (mem_job False [refill_people]) (mem_start 9) = Some (outcome, w1) \<and>
     outcome_reports (mem_job False [refill_people]) (order_items (tj_plan (mem_job False [refill_people])) []) outcome"
proof -
  obtain outcome w1 where run: "transfer_job (mem_job False [refill_people]) (mem_start 9) = Some (outcome, w1)"
    using mem_run by (cases "transfer_job (mem_job False [refill_people]) (mem_start 9)") auto
  have "known_fks (mem_job False [refill_people]) (mem_start 9) = []" by (simp add: known_fks_def mem_defs)
  with transfer_reports_every_item [OF run] run show ?thesis by auto
qed

lemma mem_reads_keep:
  assumes "\<And>w w'. mw_tables w = mw_tables w' \<Longrightarrow> I w = I w'"
  shows "job_reads_keep I (mem_job dry items)"
proof -
  have same: "I w \<Longrightarrow> mw_tables w' = mw_tables w \<Longrightarrow> I w'" for w w' using assms [of w' w] by blast
  show ?thesis
    unfolding job_reads_keep_def reads_keep_def call_keeps_def
    by (intro conjI allI impI; erule same) (simp_all add: mem_defs split: list.splits)
qed

theorem dry_run_writes_nothing_witness:
  "\<exists>script estimates w1. transfer_job (mem_job True [refill_people]) (mem_start 9) = Some (Planned script estimates, w1) \<and>
     mw_tables w1 = mw_tables (mem_start 9)"
proof -
  have "map_option (\<lambda>_. True) (transfer_job (mem_job True [refill_people]) (mem_start 9)) = Some True" by code_simp
  then obtain outcome w1 where run: "transfer_job (mem_job True [refill_people]) (mem_start 9) = Some (outcome, w1)" by auto
  have "to_dry_run (tp_options (tj_plan (mem_job True [refill_people])))" by (simp add: mem_job_def)
  from dry_run_writes_nothing [OF this mem_reads_keep, of "\<lambda>w. mw_tables w = mw_tables (mem_start 9)", OF _ _ run] run
  show ?thesis by auto
qed

text \<open>Refilling \<open>people\<close> cannot touch \<open>other\<close>.\<close>

theorem transfer_touches_only_its_targets_witness:
  "\<exists>outcome w1. transfer_job (mem_job False [refill_people]) (mem_start 9) = Some (outcome, w1) \<and> mem_rows ''other'' w1 = [[Integer 9]]"
proof -
  obtain outcome w1 where run: "transfer_job (mem_job False [refill_people]) (mem_start 9) = Some (outcome, w1)"
    using mem_run by (cases "transfer_job (mem_job False [refill_people]) (mem_start 9)") auto
  let ?I = "\<lambda>w. mem_rows ''other'' w = [[Integer 9]]"
  have reads: "job_reads_keep ?I (mem_job False [refill_people])" by (rule mem_reads_keep) (simp add: mem_rows_def)
  have writes: "plan_writes_keep ?I (mem_job False [refill_people])"
    by (simp add: plan_writes_keep_def item_writes_keep_def writes_keep_def wipes_keep_def call_keeps_def refill_people_def target_ref_def
        item_table_def mem_defs)
  have "?I (mem_start 9)" by (simp add: mem_start_def mem_rows_def)
  from transfer_touches_only_its_targets [OF reads writes this run] run show ?thesis by blast
qed

text \<open>Cancelled after its first window.\<close>

theorem copied_rows_are_a_prefix_witness:
  "\<exists>w1. stream_cursor_into mem_driver () mem_driver \<lparr>tr_schema = None, tr_name = ''people''\<rparr> [\<lparr>mp_source = 0, mp_column = ''nick'', mp_decl = None\<rparr>] []
      mem_cancelled 0 (\<lambda>n. mem_emit (CopyProgress n)) ((mem_start 1)\<lparr>mw_windows := [[[Integer 7]], [[Integer 8]]]\<rparr>) = Some ((1, Some Interrupted), w1) \<and>
    mem_rows ''people'' w1 = [[Integer 1], [Integer 7]]"
proof -
  let ?target = "\<lparr>tr_schema = None, tr_name = ''people''\<rparr>" and ?mapping = "[\<lparr>mp_source = 0, mp_column = ''nick'', mp_decl = None\<rparr>]"
  let ?w = "(mem_start 1)\<lparr>mw_windows := [[[Integer 7]], [[Integer 8]]]\<rparr>"
  let ?run = "stream_cursor_into mem_driver () mem_driver ?target ?mapping [] mem_cancelled 0 (\<lambda>n. mem_emit (CopyProgress n)) ?w"
  have "map_option (\<lambda>(r, w1). (r, mw_given w1)) ?run = Some ((1, Some Interrupted), [[Integer 7]])" by code_simp
  then obtain w1 where run: "?run = Some ((1, Some Interrupted), w1)" and given: "mw_given w1 = [[Integer 7]]" by auto
  have "honest_stream mem_cancelled (dr_next_window mem_driver ()) (dr_insert_rows mem_driver ?target []) (\<lambda>n. mem_emit (CopyProgress n))
      mw_given (mem_rows ''people'') (\<lambda>w. mw_windows w = [])"
    by (auto simp: honest_stream_def mem_defs split: list.splits)
  from copied_rows_are_a_prefix [OF this run] run given show ?thesis
    by (auto simp: mem_start_def mem_rows_def project_row_def)
qed

definition mem_migration :: "(mem_world, unit) migrate_ctx" where
  "mem_migration =
     \<lparr>mg_src = mem_driver, mg_dst = mem_driver, mg_source_schema = None, mg_target_schema = Some ''MAIN'', mg_cancelled = mem_cancelled, mg_emit = mem_emit\<rparr>"


section \<open>What modelling showed\<close>

text \<open>
  The copy job refuses an empty mapping before it touches its target. The transfer empties the target first and looks at
  the mapping afterwards: an item whose columns match none of the target's fails with the target's rows gone.
\<close>

theorem refill_clears_before_the_mapping_is_checked:
  "map_option (\<lambda>(r, w). ((case r of TransferFailed idx m _ \<Rightarrow> idx | _ \<Rightarrow> None), mem_rows ''people'' w))
     (transfer_job (mem_job False [refill_people\<lparr>ti_mapping := []\<rparr>]) (mem_start 9)) = Some (Some 0, [])"
  by code_simp

text \<open>
  Nothing stops a transfer whose source and target are one table: refilling \<open>users\<close> from \<open>users\<close> empties it before
  reading it and reports success with no rows.
\<close>

theorem refilling_a_table_from_itself_empties_it:
  "map_option (\<lambda>(r, w). (r, mem_rows ''users'' w))
     (transfer_job (mem_job False [(item_table ''users'')\<lparr>ti_action := Existing TruncateInsert\<rparr>]) (mem_start 9)) =
   Some (Finished \<lparr>ts_items = [\<lparr>ir_table = ''users'', ir_outcome = Replaced, ir_rows = 0, ir_warnings = []\<rparr>], ts_rows = 0\<rparr>, [])"
  by code_simp

text \<open>
  The dry run's foreign-key pass forgets the namespace test of the real one: it prints a key between tables of another
  namespace, for which the job adds nothing.
\<close>

theorem dry_run_prints_keys_the_job_skips:
  assumes "fk_ends renamed fk = Some (child, parent)" and "\<not> in_scope (tp_source_namespace (tj_plan job)) (fe_from_schema fk)"
  shows "length (fk_statements job renamed [fk]) = 1 \<and>
    deferred_foreign_keys job renamed [fk] s = bnd (act (tj_cancelled job)) (\<lambda>_. ret s)"
  using assms by (simp add: fk_statements_def List.map_filter_simps Let_def cong: if_cong)

text \<open>A note goes to the first report with the table's name, which may be that of an item that was not selected.\<close>

theorem note_goes_to_the_first_report_of_a_name:
  "ts_items (note_item \<lparr>ts_items = [\<lparr>ir_table = t, ir_outcome = Skipped ''not selected'', ir_rows = 0, ir_warnings = []\<rparr>,
       \<lparr>ir_table = t, ir_outcome = Created, ir_rows = 5, ir_warnings = []\<rparr>], ts_rows = 5\<rparr> t m) =
     [\<lparr>ir_table = t, ir_outcome = Skipped ''not selected'', ir_rows = 0, ir_warnings = [m]\<rparr>,
       \<lparr>ir_table = t, ir_outcome = Created, ir_rows = 5, ir_warnings = []\<rparr>]"
  by (simp add: note_item_def)

text \<open>A filter that ends in a line comment swallows the parenthesis that closes it.\<close>

theorem filter_comment_swallows_the_parenthesis:
  "map_option (\<lambda>sql. (count_list (strip_noise sql Generic) CHR ''('', count_list (strip_noise sql Generic) CHR '')''))
     (select_sql (Where ''a = 1 -- only these'') ''t'') = Some (1, 0)"
  by code_simp

end
