(* ===== verification/Spec2Isabelle.thy ===== *)
theory Spec2Isabelle
  imports Sql_Risk_Laws Sql_Shape Ai_Gate Pane_Runs Data_Diff Grid_Window Grid_Live Conn_Dsn Schema_Diff Export_Import Transfer_Jobs
begin

text \<open>
  RED is a desktop database client. This development models its decision-making core.
\<close>

end
